(* ===== verification/Prelude.thy ===== *)
theory Prelude
  imports Main "HOL-Library.Word" "HOL-Library.Monad_Syntax"
begin

text \<open>
  Shared vocabulary of the development: the machine integer types of the C sources, the
  convention for failed assertions, NUL terminated strings, and the generic lemmas on words
  and lists that the component theories use.

  Conventions used by every theory:

  \<^item> A function that can run into a failed \<^verbatim>\<open>g_assert\<close>, a NULL dereference or an out of
    range access returns an \<open>option\<close>; \<open>None\<close> means that the process is
    aborted, \<open>Some\<close> that the function returned.  A C pointer that may be NULL is a
    value of an inner \<open>option\<close> type.
  \<^item> \<open>guint32\<close>, \<open>guint16\<close> and \<open>guint64\<close> are words, with the wrap-around of C.
  \<^item> A C string is a \<open>string\<close> without NUL characters; reading at its length gives
    the terminating NUL.
\<close>

unbundle bit_operations_syntax

type_synonym u8 = "8 word"
type_synonym u16 = "16 word"
type_synonym u32 = "32 word"
type_synonym u64 = "64 word"
type_synonym i32 = "32 word"

named_theorems word_nat \<open>translate word operations to natural numbers\<close>
named_theorems state_simps \<open>how the operations of a component change its fields\<close>

subsection \<open>Aborting computations\<close>

definition g_assert :: "bool \<Rightarrow> unit option" where
  "g_assert b = (if b then Some () else None)"

lemma g_assert_simps [simp]:
  "g_assert True = Some ()"
  "g_assert False = None"
  by (simp_all add: g_assert_def)

lemma g_assert_eq_Some [simp]: "g_assert b = Some u \<longleftrightarrow> b"
  by (simp add: g_assert_def)

lemma g_assert_bind_eq_Some [simp]:
  "Option.bind (g_assert b) f = Some x \<longleftrightarrow> b \<and> f () = Some x"
  by (cases b) simp_all

subsection \<open>Words read as natural numbers\<close>

lemmas [word_nat] = word_less_nat_alt word_le_nat_alt word_unat_eq_iff unat_mod_distrib unat_div_distrib

lemma unat_u32_less: "unat (x :: u32) < 4294967296"
  using unsigned_less [of x] by simp

lemma unat_add_u32: "unat (x :: u32) + unat y < 4294967296 \<Longrightarrow> unat (x + y) = unat x + unat y"
  by (simp add: unat_word_ariths)

lemma unat_add1_u32: "unat (x :: u32) + 1 < 4294967296 \<Longrightarrow> unat (x + 1) = unat x + 1"
  by (simp add: unat_word_ariths)

lemma unat_mult_u32: "unat (x :: u32) * unat y < 4294967296 \<Longrightarrow> unat (x * y) = unat x * unat y"
  by (simp add: unat_word_ariths)

lemma unat_sub_u32: "unat (y :: u32) \<le> unat x \<Longrightarrow> unat (x - y) = unat x - unat y"
  by (simp add: unat_sub word_le_nat_alt)

lemma unat_of_nat_u32_iff: "unat (of_nat n :: u32) = n \<longleftrightarrow> n < 2 ^ 32"
  using unat_u32_less [of "of_nat n"] by (auto simp: unsigned_of_nat take_bit_eq_mod)

subsection \<open>Words read as signed integers\<close>

lemma sint_add_i32:
  "- 2147483648 \<le> sint (a :: i32) + sint b \<Longrightarrow> sint a + sint b < 2147483648 \<Longrightarrow>
    sint (a + b) = sint a + sint b"
  by (simp add: sint_word_ariths signed_take_bit_int_eq_self)

lemma sint_diff_i32:
  "- 2147483648 \<le> sint (a :: i32) - sint b \<Longrightarrow> sint a - sint b < 2147483648 \<Longrightarrow>
    sint (a - b) = sint a - sint b"
  by (simp add: sint_word_ariths signed_take_bit_int_eq_self)

lemma sint_u32:
  assumes "unat (w :: u32) < 2147483648"
  shows "sint w = int (unat w)"
proof -
  have "uint w = int (unat w)" by simp
  then have "- 2147483648 \<le> uint w" and "uint w < 2147483648" using assms by linarith+
  then have "signed_take_bit 31 (uint w) = uint w"
    by (intro signed_take_bit_int_eq_self) simp_all
  then show ?thesis by (simp add: sint_uint)
qed

lemma sint_of_nat_i32: "n < 2147483648 \<Longrightarrow> sint (of_nat n :: i32) = int n"
  using sint_u32 [of "of_nat n"] by (simp add: unsigned_of_nat take_bit_eq_mod)

lemma sint_range_i32: "- 2147483648 \<le> sint (w :: i32)" "sint w < 2147483648"
  using sint_greater_eq [of w] sint_less [of w] by simp_all

lemma unat_i32:
  assumes "0 \<le> sint (w :: i32)"
  shows "int (unat w) = sint w"
proof (cases "unat w < 2147483648")
  case True
  then show ?thesis by (simp add: sint_u32)
next
  case False
  have "uint w = int (unat w)" by simp
  with False have "2147483648 \<le> uint w" by linarith
  then have "signed_take_bit 31 (uint w) \<le> uint w - 2 ^ Suc 31"
    by (intro signed_take_bit_int_less_eq) simp
  then have "sint w \<le> uint w - 2 ^ 32" by (simp add: sint_uint)
  then show ?thesis using assms uint_lt2p [of w] by simp
qed

lemma u32_wraps_to_0: "x + 1 = 0 \<longleftrightarrow> x = (0xFFFFFFFF :: u32)"
  by (auto simp: add_eq_0_iff2)

subsection \<open>NUL terminated strings\<close>

abbreviation NUL :: char where
  "NUL \<equiv> CHR 0x00"

definition c_string :: "string \<Rightarrow> bool" where
  "c_string s \<longleftrightarrow> NUL \<notin> set s"

text \<open>\<open>s[i]\<close>; the terminator sits at index \<open>length s\<close>.\<close>

definition char_at :: "string \<Rightarrow> nat \<Rightarrow> char" where
  "char_at s i = (if i < length s then s ! i else NUL)"

lemma char_at_less [simp]: "i < length s \<Longrightarrow> char_at s i = s ! i"
  by (simp add: char_at_def)

lemma char_at_end [simp]: "length s \<le> i \<Longrightarrow> char_at s i = NUL"
  by (simp add: char_at_def)

lemma char_at_NUL_iff: "c_string s \<Longrightarrow> char_at s i = NUL \<longleftrightarrow> length s \<le> i"
  by (auto simp: c_string_def char_at_def in_set_conv_nth)

subsection \<open>Lists\<close>

lemma length_takeWhile_eqI:
  assumes "n \<le> length xs" and "\<And>i. i < n \<Longrightarrow> P (xs ! i)"
    and "n < length xs \<Longrightarrow> \<not> P (xs ! n)"
  shows "length (takeWhile P xs) = n"
  using assms
proof (induction xs arbitrary: n)
  case (Cons x xs)
  show ?case
  proof (cases n)
    case (Suc m)
    have "length (takeWhile P xs) = m"
      using Cons.prems(1,3) Cons.prems(2) [of "Suc i" for i] Suc by (intro Cons.IH) auto
    moreover have "P x" using Cons.prems(2) [of 0] Suc by simp
    ultimately show ?thesis using Suc by simp
  qed (use Cons.prems(3) in auto)
qed simp

subsection \<open>Positions in a circular array\<close>

lemma mod_add_left_cancel_nat:
  fixes h i j c :: nat
  assumes "(h + i) mod c = (h + j) mod c" and "i < c" and "j < c"
  shows "i = j"
proof -
  from assms(1) obtain p q where "h + i + c * p = h + j + c * q"
    by (auto simp: nat_mod_eq_iff)
  then have "i mod c = j mod c"
    by (auto simp: nat_mod_eq_iff)
  with assms(2,3) show ?thesis by simp
qed

lemma unat_Suc_less:
  assumes "x < (y :: 'a::len word)"
  shows "unat (x + 1) = unat x + 1"
proof -
  have "unat x + 1 < 2 ^ LENGTH('a)"
    using assms unsigned_less [of y, where ?'a = nat]
    by (simp add: word_less_nat_alt del: unsigned_less)
  then show ?thesis
    by (cases "LENGTH('a) = 0") (simp_all add: unat_word_ariths)
qed

lemma mod_window:
  fixes a b k :: nat
  assumes "a mod k = b mod k" "b \<le> a" "a < b + k"
  shows "a = b"
proof -
  have "k dvd a - b" using assms(1,2) by (simp add: mod_eq_dvd_iff_nat)
  moreover have "a - b < k" using assms(2,3) by linarith
  ultimately have "a - b = 0" using dvd_imp_le [of k "a - b"] by linarith
  then show ?thesis using assms(2) by simp
qed

subsection \<open>C division\<close>

text \<open>Division of C integers by a non-zero divisor truncates towards zero.\<close>

definition c_div :: "int \<Rightarrow> int \<Rightarrow> int" where
  "c_div a b = sgn a * sgn b * (\<bar>a\<bar> div \<bar>b\<bar>)"

lemma c_div_nonneg:
  assumes "0 \<le> a" "0 < b"
  shows "c_div a b = a div b"
proof (cases "a = 0")
  case False
  then show ?thesis using assms by (simp add: c_div_def)
qed (simp add: c_div_def)

subsection \<open>Simulations\<close>

text \<open>Every operation of the list is allowed in the abstract state it meets.\<close>

primrec ok_run :: "('o \<Rightarrow> 'a \<Rightarrow> bool) \<Rightarrow> ('o \<Rightarrow> 'a \<Rightarrow> 'a) \<Rightarrow> 'o list \<Rightarrow> 'a \<Rightarrow> bool" where
  "ok_run ok astep [] a = True"
| "ok_run ok astep (op # ops) a = (ok op a \<and> ok_run ok astep ops (astep op a))"

text \<open>
  A component whose operations refine those of an abstract specification: the
  relation is kept by every allowed operation, hence by every allowed sequence.
\<close>

locale simulation =
  fixes cstep :: "'o \<Rightarrow> 'c \<Rightarrow> 'c" and astep :: "'o \<Rightarrow> 'a \<Rightarrow> 'a"
    and ok :: "'o \<Rightarrow> 'a \<Rightarrow> bool" and sim :: "'c \<Rightarrow> 'a \<Rightarrow> bool"
  assumes step: "sim c a \<Longrightarrow> ok op a \<Longrightarrow> sim (cstep op c) (astep op a)"
begin

lemma run: "sim c a \<Longrightarrow> ok_run ok astep ops a \<Longrightarrow> sim (fold cstep ops c) (fold astep ops a)"
  by (induction ops arbitrary: c a) (simp_all add: step)

end

end
