(* ===== verification/Str_Format.thy ===== *)
theory Str_Format
  imports Prelude
begin

text \<open>
  Formatting and scanning of numbers and dates (\<^verbatim>\<open>lib/str-format.c\<close>).

  A pointer into a buffer is the list of the bytes that can be read from it on, so that
  advancing the pointer drops bytes and reading behind the last byte of the buffer is an abort.
  The number of bytes left is a \<open>gint\<close>.  A \<open>GString\<close> is its content.
\<close>

subsection \<open>Characters\<close>

definition mem_at :: "string \<Rightarrow> nat \<Rightarrow> char option" where
  "mem_at buf i = (if i < length buf then Some (buf ! i) else None)"

definition isdigit :: "char \<Rightarrow> bool" where
  "isdigit c \<longleftrightarrow> c \<in> set ''0123456789''"

definition digit_value :: "char \<Rightarrow> u32" where
  "digit_value c = of_char c - 48"

definition g_ascii_isspace :: "char \<Rightarrow> bool" where
  "g_ascii_isspace c \<longleftrightarrow> c \<in> {CHR '' '', CHR 0x0C, CHR 0x0A, CHR 0x0D, CHR 0x09}"

definition g_ascii_tolower :: "char \<Rightarrow> char" where
  "g_ascii_tolower c =
     (if 65 \<le> (of_char c :: nat) \<and> (of_char c :: nat) \<le> 90 then char_of (of_char c + 32 :: nat) else c)"

definition strncasecmp_eq :: "string \<Rightarrow> string \<Rightarrow> nat \<Rightarrow> bool" where
  "strncasecmp_eq a b n \<longleftrightarrow>
     map g_ascii_tolower (take n (takeWhile (\<lambda>c. c \<noteq> NUL) a)) = map g_ascii_tolower (take n b)"

subsection \<open>Formatting numbers\<close>

definition digits :: string where
  "digits = ''0123456789abcdef''"

text \<open>The digits written to the array \<open>result\<close>, lowest first; \<open>result_len\<close> is a \<open>gsize\<close>.\<close>

function format_uint64_base10_rev :: "u64 \<Rightarrow> u64 \<Rightarrow> string" where
  "format_uint64_base10_rev result_len val =
     (if result_len > 0 \<and> val > 0
      then digits ! unat (val mod 10) # format_uint64_base10_rev (result_len - 1) (val div 10)
      else [])"
  by pat_completeness auto
termination
  by (relation "measure (\<lambda>(result_len, val). unat val)")
    (auto simp: unat_div_distrib word_less_nat_alt unat_gt_0)

function format_uint64_base16_rev :: "u64 \<Rightarrow> u64 \<Rightarrow> string" where
  "format_uint64_base16_rev result_len val =
     (if result_len > 0 \<and> val > 0
      then digits ! unat (val AND 0x0F) # format_uint64_base16_rev (result_len - 1) (drop_bit 4 val)
      else [])"
  by pat_completeness auto
termination
  by (relation "measure (\<lambda>(result_len, val). unat val)")
    (auto simp: unat_drop_bit_eq drop_bit_eq_div unat_div_distrib word_less_nat_alt unat_gt_0)

function format_uint32_base10_rev_loop :: "bool \<Rightarrow> u64 \<Rightarrow> u32 \<Rightarrow> string" where
  "format_uint32_base10_rev_loop first result_len val =
     (if first \<or> (result_len > 0 \<and> val > 0)
      then digits ! unat (val mod 10) # format_uint32_base10_rev_loop False (result_len - 1) (val div 10)
      else [])"
  by pat_completeness auto
termination
  by (relation "measures [\<lambda>(first, result_len, val). if first then 1 else 0, \<lambda>(first, result_len, val). unat val]")
    (auto simp: unat_div_distrib word_less_nat_alt unat_gt_0)

definition format_uint32_base10_rev :: "u64 \<Rightarrow> u32 \<Rightarrow> string" where
  "format_uint32_base10_rev result_len val = format_uint32_base10_rev_loop True result_len val"

function format_uint32_base16_rev_loop :: "bool \<Rightarrow> u64 \<Rightarrow> u32 \<Rightarrow> string" where
  "format_uint32_base16_rev_loop first result_len val =
     (if first \<or> (result_len > 0 \<and> val > 0)
      then digits ! unat (val AND 0x0F) # format_uint32_base16_rev_loop False (result_len - 1) (drop_bit 4 val)
      else [])"
  by pat_completeness auto
termination
  by (relation "measures [\<lambda>(first, result_len, val). if first then 1 else 0, \<lambda>(first, result_len, val). unat val]")
    (auto simp: unat_drop_bit_eq drop_bit_eq_div unat_div_distrib word_less_nat_alt unat_gt_0)

definition format_uint32_base16_rev :: "u64 \<Rightarrow> u32 \<Rightarrow> string" where
  "format_uint32_base16_rev result_len val = format_uint32_base16_rev_loop True result_len val"

declare format_uint64_base10_rev.simps [simp del] format_uint64_base16_rev.simps [simp del]
  format_uint32_base10_rev_loop.simps [simp del] format_uint32_base16_rev_loop.simps [simp del]

text \<open>
  The common end of the two formatting functions: the field is at least as long as the number, the
  number stands at its right end.
\<close>

definition append_field :: "string \<Rightarrow> int \<Rightarrow> char \<Rightarrow> string \<Rightarrow> int \<times> string" where
  "append_field result field_len pad_char num =
     (let len = int (length num);
          field_len = (if field_len = 0 \<or> field_len < len then len else field_len)
      in (field_len, result @ replicate (nat (field_len - len)) pad_char @ rev num))"

definition format_uint32_padded :: "string \<Rightarrow> int \<Rightarrow> char \<Rightarrow> int \<Rightarrow> u32 \<Rightarrow> int \<times> string" where
  "format_uint32_padded result field_len pad_char base val =
     (if base = 10 then append_field result field_len pad_char (format_uint32_base10_rev 32 val)
      else if base = 16 then append_field result field_len pad_char (format_uint32_base16_rev 32 val)
      else (0, result))"

definition format_uint64_padded :: "string \<Rightarrow> int \<Rightarrow> char \<Rightarrow> int \<Rightarrow> u64 \<Rightarrow> int \<times> string" where
  "format_uint64_padded result field_len pad_char base val =
     (if base = 10 then append_field result field_len pad_char (format_uint64_base10_rev 64 val)
      else if base = 16 then append_field result field_len pad_char (format_uint64_base16_rev 64 val)
      else (0, result))"

subsection \<open>Scanning numbers\<close>

text \<open>The number found, if the function returns \<open>TRUE\<close>, the pointer and the bytes left.\<close>

function scan_uint32_loop :: "string \<Rightarrow> int \<Rightarrow> int \<Rightarrow> u32 \<Rightarrow> (u32 option \<times> string \<times> int) option" where
  "scan_uint32_loop buf left field_width result =
     (if left > 0 \<and> field_width > 0 then
        (case buf of
           [] \<Rightarrow> None
         | c # rest \<Rightarrow>
             if isdigit c then scan_uint32_loop rest (left - 1) (field_width - 1) (result * 10 + digit_value c)
             else if \<not> g_ascii_isspace c then Some (None, buf, left)
             else scan_uint32_loop rest (left - 1) (field_width - 1) result)
      else if field_width \<noteq> 0 then Some (None, buf, left)
      else Some (Some result, buf, left))"
  by pat_completeness auto
termination
  by (relation "measure (\<lambda>(buf, left, field_width, result). nat field_width)") auto

declare scan_uint32_loop.simps [simp del]

definition scan_uint32 :: "string \<Rightarrow> int \<Rightarrow> int \<Rightarrow> (u32 option \<times> string \<times> int) option" where
  "scan_uint32 buf left field_width = scan_uint32_loop buf left field_width 0"

definition scan_int :: "string \<Rightarrow> int \<Rightarrow> int \<Rightarrow> (int option \<times> string \<times> int) option" where
  "scan_int buf left field_width = do {
     (num, buf, left) \<leftarrow> scan_uint32 buf left field_width;
     Some (map_option sint num, buf, left)
   }"

definition scan_expect_char :: "string \<Rightarrow> int \<Rightarrow> char \<Rightarrow> (bool \<times> string \<times> int) option" where
  "scan_expect_char buf left val =
     (if left = 0 then Some (False, buf, left)
      else do {
        c \<leftarrow> mem_at buf 0;
        if c \<noteq> val then Some (False, buf, left)
        else Some (True, drop 1 buf, left - 1)
      })"

subsection \<open>Scanning dates\<close>

text \<open>The fields of \<^verbatim>\<open>struct tm\<close> that the sources use.\<close>

record tm =
  tm_sec :: int
  tm_min :: int
  tm_hour :: int
  tm_mday :: int
  tm_mon :: int
  tm_year :: int
  tm_isdst :: int
  tm_gmtoff :: int

text \<open>
  The first letter selects the names that are compared.  A known letter that starts none of the
  names is accepted as well; the result is then -1.
\<close>

definition scan_abbrev ::
    "(char \<Rightarrow> (string \<times> int) list option) \<Rightarrow> string \<Rightarrow> int \<Rightarrow> (bool \<times> int \<times> string \<times> int) option" where
  "scan_abbrev names buf left =
     (if left < 3 then Some (False, -1, buf, left)
      else do {
        c \<leftarrow> mem_at buf 0;
        case names c of
          None \<Rightarrow> Some (False, -1, buf, left)
        | Some alternatives \<Rightarrow>
            let val = (case find (\<lambda>(name, _). strncasecmp_eq buf name 3) alternatives of
                         Some (_, num) \<Rightarrow> num | None \<Rightarrow> -1)
            in Some (True, val, drop 3 buf, left - 3)
      })"

definition day_alternatives :: "char \<Rightarrow> (string \<times> int) list option" where
  "day_alternatives c =
     (if c = CHR ''S'' then Some [(''Sun'', 0), (''Sat'', 6)]
      else if c = CHR ''M'' then Some [(''Mon'', 1)]
      else if c = CHR ''T'' then Some [(''Tue'', 2), (''Thu'', 4)]
      else if c = CHR ''W'' then Some [(''Wed'', 3)]
      else if c = CHR ''F'' then Some [(''Fri'', 5)]
      else None)"

definition month_alternatives :: "char \<Rightarrow> (string \<times> int) list option" where
  "month_alternatives c =
     (if c = CHR ''J'' then Some [(''Jan'', 0), (''Jun'', 5), (''Jul'', 6)]
      else if c = CHR ''F'' then Some [(''Feb'', 1)]
      else if c = CHR ''M'' then Some [(''Mar'', 2), (''May'', 4)]
      else if c = CHR ''A'' then Some [(''Apr'', 3), (''Aug'', 7)]
      else if c = CHR ''S'' then Some [(''Sep'', 8)]
      else if c = CHR ''O'' then Some [(''Oct'', 9)]
      else if c = CHR ''N'' then Some [(''Nov'', 10)]
      else if c = CHR ''D'' then Some [(''Dec'', 11)]
      else None)"

definition scan_day_abbrev :: "string \<Rightarrow> int \<Rightarrow> (bool \<times> int \<times> string \<times> int) option" where
  "scan_day_abbrev buf left = scan_abbrev day_alternatives buf left"

definition scan_month_abbrev :: "string \<Rightarrow> int \<Rightarrow> (bool \<times> int \<times> string \<times> int) option" where
  "scan_month_abbrev buf left = scan_abbrev month_alternatives buf left"

text \<open>
  The four formats are chains of scanning steps joined by \<^verbatim>\<open>||\<close>: the first step that fails ends the
  chain.  Every step may have changed the pointer and the date.
\<close>

type_synonym scan_state = "string \<times> int \<times> tm"

fun scan_chain :: "(scan_state \<Rightarrow> (bool \<times> scan_state) option) list \<Rightarrow> scan_state \<Rightarrow> (bool \<times> scan_state) option" where
  "scan_chain [] s = Some (True, s)"
| "scan_chain (f # fs) s = do {
     (ok, s) \<leftarrow> f s;
     if ok then scan_chain fs s else Some (False, s)
   }"

definition int_step :: "((int \<Rightarrow> int) \<Rightarrow> tm \<Rightarrow> tm) \<Rightarrow> int \<Rightarrow> scan_state \<Rightarrow> (bool \<times> scan_state) option" where
  "int_step upd field_width s = do {
     let (buf, left, tm) = s;
     (num, buf, left) \<leftarrow> scan_int buf left field_width;
     case num of
       None \<Rightarrow> Some (False, buf, left, tm)
     | Some n \<Rightarrow> Some (True, buf, left, upd (\<lambda>_. n) tm)
   }"

definition char_step :: "char \<Rightarrow> scan_state \<Rightarrow> (bool \<times> scan_state) option" where
  "char_step c s = do {
     let (buf, left, tm) = s;
     (ok, buf, left) \<leftarrow> scan_expect_char buf left c;
     Some (ok, buf, left, tm)
   }"

definition month_step :: "scan_state \<Rightarrow> (bool \<times> scan_state) option" where
  "month_step s = do {
     let (buf, left, tm) = s;
     (ok, mon, buf, left) \<leftarrow> scan_month_abbrev buf left;
     Some (ok, buf, left, tm\<lparr>tm_mon := mon\<rparr>)
   }"

definition clock_steps :: "(scan_state \<Rightarrow> (bool \<times> scan_state) option) list" where
  "clock_steps = [int_step tm_hour_update 2, char_step CHR '':'', int_step tm_min_update 2, char_step CHR '':'',
                  int_step tm_sec_update 2]"

definition scan_iso_timestamp :: "scan_state \<Rightarrow> (bool \<times> scan_state) option" where
  "scan_iso_timestamp s = do {
     (ok, buf, left, tm) \<leftarrow> scan_chain
       ([int_step tm_year_update 4, char_step CHR ''-'', int_step tm_mon_update 2, char_step CHR ''-'',
         int_step tm_mday_update 2, char_step CHR ''T''] @ clock_steps) s;
     if ok then Some (True, buf, left, tm\<lparr>tm_year := tm_year tm - 1900, tm_mon := tm_mon tm - 1\<rparr>)
     else Some (False, buf, left, tm)
   }"

definition scan_pix_timestamp :: "scan_state \<Rightarrow> (bool \<times> scan_state) option" where
  "scan_pix_timestamp s = do {
     (ok, buf, left, tm) \<leftarrow> scan_chain
       ([month_step, char_step CHR '' '', int_step tm_mday_update 2, char_step CHR '' '',
         int_step tm_year_update 4, char_step CHR '' ''] @ clock_steps) s;
     if ok then Some (True, buf, left, tm\<lparr>tm_year := tm_year tm - 1900\<rparr>) else Some (False, buf, left, tm)
   }"

definition scan_linksys_timestamp :: "scan_state \<Rightarrow> (bool \<times> scan_state) option" where
  "scan_linksys_timestamp s = do {
     (ok, buf, left, tm) \<leftarrow> scan_chain
       ([month_step, char_step CHR '' '', int_step tm_mday_update 2, char_step CHR '' ''] @ clock_steps @
        [char_step CHR '' '', int_step tm_year_update 4]) s;
     if ok then Some (True, buf, left, tm\<lparr>tm_year := tm_year tm - 1900\<rparr>) else Some (False, buf, left, tm)
   }"

definition scan_bsd_timestamp :: "scan_state \<Rightarrow> (bool \<times> scan_state) option" where
  "scan_bsd_timestamp s = scan_chain
     ([month_step, char_step CHR '' '', int_step tm_mday_update 2, char_step CHR '' ''] @ clock_steps) s"

definition str_rtrim :: "string \<Rightarrow> string \<Rightarrow> string" where
  "str_rtrim s characters = rev (dropWhile (\<lambda>c. c \<in> set characters) (rev s))"

subsection \<open>The digits of a number\<close>

lemma digits_nth:
  assumes "n < 10"
  shows "isdigit (digits ! n)" "digit_value (digits ! n) = of_nat n"
proof -
  have "n \<in> {0, 1, 2, 3, 4, 5, 6, 7, 8, 9}" using assms by auto
  then show "isdigit (digits ! n)" "digit_value (digits ! n) = of_nat n"
    by (auto simp: digits_def isdigit_def digit_value_def)
qed

text \<open>The decimal digits of a number, lowest first.\<close>

fun dec_rev :: "nat \<Rightarrow> string" where
  "dec_rev n = (if n < 10 then [digits ! n] else digits ! (n mod 10) # dec_rev (n div 10))"

declare dec_rev.simps [simp del]

lemma dec_rev_digits: "c \<in> set (dec_rev n) \<Longrightarrow> isdigit c"
proof (induction n rule: dec_rev.induct)
  case (1 n)
  show ?case
  proof (cases "n < 10")
    case True
    then show ?thesis using "1.prems" by (simp add: dec_rev.simps [of n] digits_nth)
  next
    case False
    then have "c = digits ! (n mod 10) \<or> c \<in> set (dec_rev (n div 10))"
      using "1.prems" by (simp add: dec_rev.simps [of n])
    then show ?thesis using "1.IH" [OF False] digits_nth [of "n mod 10"] by auto
  qed
qed

lemma dec_rev_nonempty [simp]: "dec_rev n \<noteq> []"
  by (subst dec_rev.simps) simp

lemma dec_rev_length: "length (dec_rev n) \<le> k \<longleftrightarrow> n < 10 ^ k \<and> 0 < k"
proof (induction n arbitrary: k rule: dec_rev.induct)
  case (1 n)
  show ?case
  proof (cases k)
    case (Suc j)
    have "n div 10 < 10 ^ j \<longleftrightarrow> n < 10 ^ k" using Suc by (simp add: div_less_iff_less_mult mult.commute)
    moreover have "n < 10 ^ k" if "n < 10"
      using that less_le_trans [OF that, of "10 * 10 ^ j"] Suc by simp
    moreover have "j \<noteq> 0" if "n div 10 < 10 ^ j" "\<not> n < 10" using that by (cases j) auto
    ultimately show ?thesis using 1 [of j] Suc by (subst dec_rev.simps) auto
  qed simp
qed

definition number_of :: "u32 \<Rightarrow> string \<Rightarrow> u32" where
  "number_of acc ds = foldl (\<lambda>a c. a * 10 + digit_value c) acc ds"

lemma number_of_simps [simp]:
  "number_of acc [] = acc"
  "number_of acc (c # ds) = number_of (acc * 10 + digit_value c) ds"
  "number_of acc (ds @ ds') = number_of (number_of acc ds) ds'"
  by (simp_all add: number_of_def)

lemma number_of_dec_rev: "number_of 0 (rev (dec_rev n)) = of_nat n"
proof (induction n rule: dec_rev.induct)
  case (1 n)
  have "of_nat (n div 10) * 10 + of_nat (n mod 10) = (of_nat n :: u32)"
    using arg_cong [OF div_mult_mod_eq [of n 10], of "of_nat :: nat \<Rightarrow> u32"]
    by (simp only: of_nat_add of_nat_mult of_nat_numeral)
  then show ?case using 1 by (subst dec_rev.simps) (simp add: digits_nth)
qed

text \<open>The array is large enough for every number, so no digit is lost.\<close>

lemma base10_rev_loop:
  assumes "unat v < 10 ^ unat n"
  shows "format_uint32_base10_rev_loop False n v = (if v = 0 then [] else dec_rev (unat v))"
  using assms
proof (induction "unat v" arbitrary: n v rule: less_induct)
  case less
  show ?case
  proof (cases "v = 0")
    case True
    then show ?thesis by (subst format_uint32_base10_rev_loop.simps) simp
  next
    case False
    then have v: "0 < unat v" by (simp add: unat_gt_0)
    have n: "n > 0" using less.prems v by (cases "n = 0") (auto simp: word_neq_0_conv)
    then have n1: "unat n = Suc (unat (n - 1))" by (simp add: unat_minus_one unat_gt_0)
    have q: "unat (v div 10) = unat v div 10" "unat (v mod 10) = unat v mod 10"
      by (simp_all add: unat_div_distrib unat_mod_distrib)
    have "unat (v div 10) < 10 ^ unat (n - 1)" using less.prems by (simp add: q n1 div_less_iff_less_mult mult.commute)
    then have IH: "format_uint32_base10_rev_loop False (n - 1) (v div 10) =
        (if v div 10 = 0 then [] else dec_rev (unat (v div 10)))"
      using v by (intro less.hyps) (simp_all add: q)
    have z: "v div 10 = 0 \<longleftrightarrow> unat v < 10" using q(1) by (simp add: word_unat_eq_iff div_eq_0_iff)
    show ?thesis
      by (subst format_uint32_base10_rev_loop.simps, subst dec_rev.simps)
        (use False n IH z q in \<open>auto simp: word_neq_0_conv\<close>)
  qed
qed

lemma format_uint32_base10_rev_dec: "format_uint32_base10_rev 32 v = dec_rev (unat v)"
proof -
  have "unat v < 10 ^ 31 * 10" using unat_u32_less [of v] by simp
  then have "format_uint32_base10_rev_loop False 31 (v div 10) = (if v div 10 = 0 then [] else dec_rev (unat (v div 10)))"
    by (intro base10_rev_loop) (simp add: unat_div_distrib)
  moreover have "v div 10 = 0 \<longleftrightarrow> unat v < 10"
    by (simp add: word_unat_eq_iff unat_div_distrib div_eq_0_iff)
  ultimately show ?thesis
    by (simp add: format_uint32_base10_rev_def format_uint32_base10_rev_loop.simps [of True 32] dec_rev.simps [of "unat v"]
        unat_div_distrib unat_mod_distrib)
qed

text \<open>A number in a field of at least its length.\<close>

definition padded :: "nat \<Rightarrow> char \<Rightarrow> nat \<Rightarrow> string" where
  "padded w pad n = replicate (w - length (dec_rev n)) pad @ rev (dec_rev n)"

lemma format_uint32_padded_10:
  "format_uint32_padded result (int w) pad 10 v =
     (int (max w (length (dec_rev (unat v)))), result @ padded w pad (unat v))"
  by (auto simp: format_uint32_padded_def append_field_def format_uint32_base10_rev_dec padded_def Let_def nat_diff_distrib)

lemma padded_length: "length (padded w pad n) = max w (length (dec_rev n))"
  by (simp add: padded_def)

lemma scan_loop_digits:
  assumes "list_all isdigit ds" and "int (length ds) \<le> left"
  shows "scan_uint32_loop (ds @ rest) left (int (length ds)) acc = Some (Some (number_of acc ds), rest, left - int (length ds))"
  using assms
proof (induction ds arbitrary: acc left)
  case Nil
  then show ?case by (simp add: scan_uint32_loop.simps)
next
  case (Cons c ds)
  then have "scan_uint32_loop (ds @ rest) (left - 1) (int (length ds)) (acc * 10 + digit_value c) =
      Some (Some (number_of acc (c # ds)), rest, left - 1 - int (length ds))" by simp
  then show ?case using Cons.prems by (simp add: scan_uint32_loop.simps [of "c # ds @ rest"])
qed

lemma scan_loop_padding:
  assumes "pad = CHR '' '' \<or> pad = CHR ''0''" and "int (k + length ds) \<le> left" and "list_all isdigit ds"
  shows "scan_uint32_loop (replicate k pad @ ds @ rest) left (int (k + length ds)) 0 =
    Some (Some (number_of 0 ds), rest, left - int (k + length ds))"
  using assms
proof (induction k arbitrary: left)
  case 0
  then show ?case by (simp add: scan_loop_digits)
next
  case (Suc k)
  then have "scan_uint32_loop (replicate k pad @ ds @ rest) (left - 1) (int (k + length ds)) 0 =
    Some (Some (number_of 0 ds), rest, left - 1 - int (k + length ds))" by simp
  moreover have "g_ascii_isspace (CHR '' '')" "\<not> isdigit (CHR '' '')" "isdigit (CHR ''0'')" "digit_value (CHR ''0'') = 0"
    by (simp_all add: g_ascii_isspace_def isdigit_def digit_value_def)
  ultimately show ?case using Suc.prems
    by (auto simp: scan_uint32_loop.simps [of "pad # replicate k pad @ ds @ rest"])
qed

lemma scan_padded:
  assumes "pad = CHR '' '' \<or> pad = CHR ''0''" and "n < 10 ^ w" and "0 < w" and "int w \<le> left"
  shows "scan_uint32 (padded w pad n @ rest) left (int w) = Some (Some (of_nat n), rest, left - int w)"
proof -
  have l: "length (dec_rev n) \<le> w" using assms(2,3) by (simp add: dec_rev_length)
  have "list_all isdigit (rev (dec_rev n))" using dec_rev_digits by (auto simp: list_all_iff)
  moreover have "w - length (dec_rev n) + length (rev (dec_rev n)) = w" using l by simp
  ultimately show ?thesis
    using scan_loop_padding [of pad "w - length (dec_rev n)" "rev (dec_rev n)" left rest] assms(1,4) l
    by (simp add: scan_uint32_def padded_def number_of_dec_rev)
qed

lemma scan_int_padded:
  assumes "pad = CHR '' '' \<or> pad = CHR ''0''" and "n < 10 ^ w" and "0 < w" and "w \<le> 9" and "int w \<le> left"
  shows "scan_int (padded w pad n @ rest) left (int w) = Some (Some (int n), rest, left - int w)"
proof -
  have "n < 10 ^ 9" using assms(2) power_increasing [OF assms(4), of "10 :: nat"] by linarith
  then show ?thesis using scan_padded [OF assms(1-3,5)] by (simp add: scan_int_def sint_of_nat_i32)
qed

end
