(* ===== verification/Ring_Buffer.thy ===== *)
theory Ring_Buffer
  imports Prelude
begin

text \<open>
  The ring buffer of \<^verbatim>\<open>lib/ringbuffer.c\<close>: a preallocated array of \<open>capacity\<close>
  elements of \<open>element_size\<close> bytes, a \<open>head\<close>, a \<open>tail\<close> and a \<open>count\<close>, all of them
  \<open>guint32\<close>.

  A pointer into the buffer is the byte offset the code computes
  (\<open>index * element_size\<close>, a 32 bit product).  The elements themselves are a list;
  \<open>ring_buffer_load\<close> and \<open>ring_buffer_store\<close> are the accesses of the clients through such a
  pointer.  The buffer holds as many elements as fit in the bytes that were allocated, so that
  an overflow of the size computation is visible in the model.
\<close>

record 'a ring_buffer =
  rb_buffer :: "'a list option"
  rb_head :: u32
  rb_tail :: u32
  rb_count :: u32
  rb_capacity :: u32
  rb_element_size :: u32

definition ring_buffer_init :: "'a ring_buffer \<Rightarrow> 'a ring_buffer" where
  "ring_buffer_init self =
     self\<lparr>rb_head := 0, rb_tail := 0, rb_count := 0, rb_capacity := 0, rb_element_size := 0,
          rb_buffer := None\<rparr>"

text \<open>
  \<open>zero\<close> is the element whose bytes are all 0, as \<^verbatim>\<open>g_malloc0\<close> leaves them; a request for 0
  bytes gives NULL.
\<close>

definition ring_buffer_alloc ::
    "'a \<Rightarrow> 'a ring_buffer \<Rightarrow> u32 \<Rightarrow> u32 \<Rightarrow> 'a ring_buffer option" where
  "ring_buffer_alloc zero self element_size capacity = do {
     g_assert (capacity > 0);
     Some (self\<lparr>rb_head := 0, rb_tail := 0, rb_count := 0, rb_capacity := capacity,
                rb_element_size := element_size,
                rb_buffer :=
                  (if element_size * capacity = 0 then None
                   else Some (replicate (unat (element_size * capacity) div unat element_size)
                                zero))\<rparr>)
   }"

definition ring_buffer_is_allocated :: "'a ring_buffer \<Rightarrow> bool" where
  "ring_buffer_is_allocated self \<longleftrightarrow> rb_buffer self \<noteq> None"

definition ring_buffer_free :: "'a ring_buffer \<Rightarrow> 'a ring_buffer" where
  "ring_buffer_free self =
     self\<lparr>rb_head := 0, rb_tail := 0, rb_count := 0, rb_capacity := 0, rb_element_size := 0,
          rb_buffer := None\<rparr>"

definition ring_buffer_is_full :: "'a ring_buffer \<Rightarrow> bool" where
  "ring_buffer_is_full self \<longleftrightarrow> rb_capacity self = rb_count self"

definition ring_buffer_is_empty :: "'a ring_buffer \<Rightarrow> bool" where
  "ring_buffer_is_empty self \<longleftrightarrow> rb_count self = 0"

definition ring_buffer_tail :: "'a ring_buffer \<Rightarrow> u32 option option" where
  "ring_buffer_tail self = do {
     g_assert (rb_buffer self \<noteq> None);
     Some (if ring_buffer_is_full self then None
           else Some (rb_tail self * rb_element_size self))
   }"

definition ring_buffer_push :: "'a ring_buffer \<Rightarrow> (u32 option \<times> 'a ring_buffer) option" where
  "ring_buffer_push self = do {
     r \<leftarrow> ring_buffer_tail self;
     (case r of
        None \<Rightarrow> Some (None, self)
      | Some p \<Rightarrow>
          Some (Some p, self\<lparr>rb_count := rb_count self + 1,
                             rb_tail := (rb_tail self + 1) mod rb_capacity self\<rparr>))
   }"

definition ring_buffer_pop :: "'a ring_buffer \<Rightarrow> (u32 option \<times> 'a ring_buffer) option" where
  "ring_buffer_pop self = do {
     g_assert (rb_buffer self \<noteq> None);
     (if ring_buffer_is_empty self then Some (None, self)
      else Some (Some (rb_head self * rb_element_size self),
                 self\<lparr>rb_count := rb_count self - 1,
                      rb_head := (rb_head self + 1) mod rb_capacity self\<rparr>))
   }"

definition ring_buffer_capacity :: "'a ring_buffer \<Rightarrow> u32" where
  "ring_buffer_capacity self = (if rb_buffer self \<noteq> None then rb_capacity self else 0)"

definition ring_buffer_count :: "'a ring_buffer \<Rightarrow> u32" where
  "ring_buffer_count self = rb_count self"

definition ring_buffer_drop :: "'a ring_buffer \<Rightarrow> u32 \<Rightarrow> (bool \<times> 'a ring_buffer) option" where
  "ring_buffer_drop self n = do {
     g_assert (rb_buffer self \<noteq> None);
     (if ring_buffer_count self < n then Some (False, self)
      else Some (True, self\<lparr>rb_count := rb_count self - n,
                            rb_head := (rb_head self + n) mod rb_capacity self\<rparr>))
   }"

definition ring_buffer_element_at :: "'a ring_buffer \<Rightarrow> u32 \<Rightarrow> u32 option option" where
  "ring_buffer_element_at self idx = do {
     g_assert (rb_buffer self \<noteq> None);
     Some (if idx \<ge> rb_count self then None
           else Some (((rb_head self + idx) mod rb_capacity self) * rb_element_size self))
   }"

definition ring_buffer_load :: "'a ring_buffer \<Rightarrow> u32 \<Rightarrow> 'a option" where
  "ring_buffer_load self p =
     (case rb_buffer self of
        None \<Rightarrow> None
      | Some b \<Rightarrow>
          (let i = unat p div unat (rb_element_size self)
           in if i < length b then Some (b ! i) else None))"

definition ring_buffer_store :: "'a ring_buffer \<Rightarrow> u32 \<Rightarrow> 'a \<Rightarrow> 'a ring_buffer option" where
  "ring_buffer_store self p x =
     (case rb_buffer self of
        None \<Rightarrow> None
      | Some b \<Rightarrow>
          (let i = unat p div unat (rb_element_size self)
           in if i < length b then Some (self\<lparr>rb_buffer := Some (b[i := x])\<rparr>) else None))"

text \<open>The loop of \<^verbatim>\<open>ring_buffer_get_continual_range_length\<close>.\<close>

function continual_range_loop ::
    "('a \<Rightarrow> bool) \<Rightarrow> 'a ring_buffer \<Rightarrow> u32 \<Rightarrow> u32 \<Rightarrow> u32 option" where
  "continual_range_loop pred self i r =
     (if i < ring_buffer_count self then
        do {
          p \<leftarrow> ring_buffer_element_at self i;
          q \<leftarrow> p;
          x \<leftarrow> ring_buffer_load self q;
          (if \<not> pred x then Some r else continual_range_loop pred self (i + 1) (r + 1))
        }
      else Some r)"
  by pat_completeness auto
termination
proof (relation "measure (\<lambda>(pred, self, i, r). unat (rb_count self) - unat i)", goal_cases)
  case 1
  show ?case by simp
next
  case (2 pred self i r p q x)
  then have "unat i < unat (rb_count self)"
    by (simp add: ring_buffer_count_def word_less_nat_alt)
  moreover from this have "unat (i + 1) = unat i + 1"
    using unat_u32_less [of "rb_count self"] by (intro unat_add1_u32) simp
  ultimately show ?case by simp
qed

declare continual_range_loop.simps [simp del]

definition ring_buffer_get_continual_range_length ::
    "'a ring_buffer \<Rightarrow> ('a \<Rightarrow> bool) \<Rightarrow> u32 option" where
  "ring_buffer_get_continual_range_length self pred = do {
     g_assert (rb_buffer self \<noteq> None);
     continual_range_loop pred self 0 0
   }"

subsection \<open>Invariant and contents\<close>

text \<open>
  The indices stay inside the array and the tail is \<open>count\<close> positions after the head.  The
  size of the allocation fits 32 bits, and so does twice the capacity: \<open>head + idx\<close> is computed
  in \<open>guint32\<close> before it is reduced.
\<close>

definition rb_wf :: "'a ring_buffer \<Rightarrow> bool" where
  "rb_wf self \<longleftrightarrow>
     (\<exists>b. rb_buffer self = Some b \<and> length b = unat (rb_capacity self))
     \<and> 0 < unat (rb_element_size self)
     \<and> unat (rb_element_size self) * unat (rb_capacity self) < 2 ^ 32
     \<and> 2 * unat (rb_capacity self) \<le> 2 ^ 32
     \<and> unat (rb_head self) < unat (rb_capacity self)
     \<and> unat (rb_count self) \<le> unat (rb_capacity self)
     \<and> unat (rb_tail self) = (unat (rb_head self) + unat (rb_count self)) mod unat (rb_capacity self)"

definition rb_slot :: "'a ring_buffer \<Rightarrow> nat \<Rightarrow> nat" where
  "rb_slot self i = (unat (rb_head self) + i) mod unat (rb_capacity self)"

definition rb_contents :: "'a ring_buffer \<Rightarrow> 'a list" where
  "rb_contents self = map (\<lambda>i. the (rb_buffer self) ! rb_slot self i) [0..<unat (rb_count self)]"

lemma length_rb_contents [simp]: "length (rb_contents self) = unat (rb_count self)"
  by (simp add: rb_contents_def)

lemma rb_wfD:
  assumes "rb_wf self"
  shows "rb_buffer self = Some (the (rb_buffer self))"
    and "length (the (rb_buffer self)) = unat (rb_capacity self)"
    and "rb_buffer self \<noteq> None"
    and "0 < unat (rb_capacity self)"
    and "0 < unat (rb_element_size self)"
    and "unat (rb_tail self) < unat (rb_capacity self)"
  using assms by (auto simp: rb_wf_def)

lemma rb_slot_less: "rb_wf self \<Longrightarrow> rb_slot self i < unat (rb_capacity self)"
  by (auto simp: rb_slot_def rb_wf_def)

lemma rb_slot_count: "rb_wf self \<Longrightarrow> rb_slot self (unat (rb_count self)) = unat (rb_tail self)"
  by (auto simp: rb_slot_def rb_wf_def)

lemma rb_slot_inj:
  assumes "rb_slot self i = rb_slot self j"
    and "i < unat (rb_capacity self)" and "j < unat (rb_capacity self)"
  shows "i = j"
  using assms unfolding rb_slot_def by (rule mod_add_left_cancel_nat)

lemma rb_pointer:
  assumes "rb_wf self" and "i < unat (rb_capacity self)"
  shows "unat (of_nat i * rb_element_size self) = i * unat (rb_element_size self)"
proof -
  have "i < 2 ^ 32" using assms(2) unat_u32_less [of "rb_capacity self"] by simp
  moreover have "i * unat (rb_element_size self) < 2 ^ 32"
    using assms unfolding rb_wf_def
    by (metis le_less_trans less_imp_le_nat mult.commute mult_le_mono2)
  ultimately show ?thesis by (simp add: unat_word_ariths unsigned_of_nat take_bit_eq_mod)
qed

lemma ring_buffer_load_pointer:
  assumes "rb_wf self" and "unat w < unat (rb_capacity self)"
  shows "ring_buffer_load self (w * rb_element_size self) = Some (the (rb_buffer self) ! unat w)"
proof -
  have "unat (w * rb_element_size self) = unat w * unat (rb_element_size self)"
    using rb_pointer [OF assms] by simp
  then show ?thesis
    using assms rb_wfD [OF assms(1)] by (auto simp: ring_buffer_load_def Let_def split: option.split)
qed

lemma ring_buffer_store_pointer:
  assumes "rb_wf self" and "unat w < unat (rb_capacity self)"
  shows "ring_buffer_store self (w * rb_element_size self) x =
           Some (self\<lparr>rb_buffer := Some ((the (rb_buffer self))[unat w := x])\<rparr>)"
proof -
  have "unat (w * rb_element_size self) = unat w * unat (rb_element_size self)"
    using rb_pointer [OF assms] by simp
  then show ?thesis
    using assms rb_wfD [OF assms(1)] by (auto simp: ring_buffer_store_def Let_def split: option.split)
qed

lemma rb_index:
  assumes "rb_wf self" and "unat n \<le> unat (rb_count self)"
  shows "unat ((rb_head self + n) mod rb_capacity self) = rb_slot self (unat n)"
proof -
  have "unat (rb_head self) + unat n < 4294967296"
    using assms by (auto simp: rb_wf_def)
  then show ?thesis by (simp add: unat_mod_distrib unat_add_u32 rb_slot_def)
qed

subsection \<open>Functional behaviour of the operations\<close>

lemma ring_buffer_alloc_wf:
  assumes "0 < unat es" and "0 < unat cap" and "unat es * unat cap < 2 ^ 32"
    and "2 * unat cap \<le> 2 ^ 32"
  shows "\<exists>rb. ring_buffer_alloc zero self es cap = Some rb \<and> rb_wf rb \<and> rb_contents rb = []
           \<and> rb_capacity rb = cap \<and> rb_element_size rb = es"
proof -
  have m: "unat (es * cap) = unat es * unat cap"
    using assms(3) by (intro unat_mult_u32) simp
  then have "es * cap \<noteq> 0" using assms(1,2) by (metis mult_eq_0_iff less_not_refl unat_0)
  moreover have "cap > 0" using assms(2) by (simp add: word_less_nat_alt)
  ultimately show ?thesis
    using assms m by (auto simp: ring_buffer_alloc_def rb_wf_def rb_contents_def)
qed

lemma ring_buffer_element_at_contents:
  assumes "rb_wf self"
  shows "Option.bind (ring_buffer_element_at self i) (\<lambda>p. Option.bind p (ring_buffer_load self)) =
    (if unat i < unat (rb_count self) then Some (rb_contents self ! unat i) else None)"
proof (cases "unat i < unat (rb_count self)")
  case True
  have "unat ((rb_head self + i) mod rb_capacity self) = rb_slot self (unat i)"
    using assms True by (intro rb_index) simp_all
  then show ?thesis
    using True assms rb_slot_less [OF assms] rb_wfD(3) [OF assms]
    by (simp add: ring_buffer_element_at_def word_le_nat_alt ring_buffer_load_pointer rb_contents_def)
next
  case False
  then show ?thesis
    using rb_wfD(3) [OF assms] by (simp add: ring_buffer_element_at_def word_le_nat_alt)
qed

text \<open>
  The clients fill the element at the tail and then push it.  \<open>rb_append\<close> is that pair of
  steps, \<open>rb_discard\<close> a drop that succeeds.
\<close>

definition rb_append :: "'a \<Rightarrow> 'a ring_buffer \<Rightarrow> 'a ring_buffer option" where
  "rb_append x self = do {
     r \<leftarrow> ring_buffer_tail self;
     p \<leftarrow> r;
     self \<leftarrow> ring_buffer_store self p x;
     (_, self) \<leftarrow> ring_buffer_push self;
     Some self
   }"

definition rb_discard :: "nat \<Rightarrow> 'a ring_buffer \<Rightarrow> 'a ring_buffer option" where
  "rb_discard n self =
     (if unat (of_nat n :: u32) = n then
        do { (ok, self) \<leftarrow> ring_buffer_drop self (of_nat n); if ok then Some self else None }
      else None)"

definition rb_nth :: "'a ring_buffer \<Rightarrow> nat \<Rightarrow> 'a option" where
  "rb_nth self i =
     (if unat (of_nat i :: u32) = i then
        Option.bind (ring_buffer_element_at self (of_nat i))
          (\<lambda>p. Option.bind p (ring_buffer_load self))
      else None)"

lemma rb_nth_contents:
  assumes "rb_wf self"
  shows "rb_nth self i = (if i < length (rb_contents self) then Some (rb_contents self ! i) else None)"
proof (cases "i < 2 ^ 32")
  case True
  then have "unat (of_nat i :: u32) = i" by (simp add: unsigned_of_nat take_bit_eq_mod)
  with True show ?thesis
    using ring_buffer_element_at_contents [OF assms, of "of_nat i"] by (simp add: rb_nth_def)
next
  case False
  then show ?thesis using unat_u32_less [of "rb_count self"]
    by (simp add: rb_nth_def unat_of_nat_u32_iff)
qed

lemma ring_buffer_full_contents:
  "ring_buffer_is_full self \<longleftrightarrow> length (rb_contents self) = unat (rb_capacity self)"
  by (auto simp: ring_buffer_is_full_def word_unat_eq_iff)

lemma rb_append_full:
  "rb_wf self \<Longrightarrow> ring_buffer_is_full self \<Longrightarrow> rb_append x self = None"
  by (auto simp: rb_append_def ring_buffer_tail_def rb_wfD(3))

lemma rb_append_step:
  assumes "rb_wf self" and "\<not> ring_buffer_is_full self"
  shows "rb_append x self =
    Some (self\<lparr>rb_buffer := Some ((the (rb_buffer self))[unat (rb_tail self) := x]),
               rb_count := rb_count self + 1,
               rb_tail := (rb_tail self + 1) mod rb_capacity self\<rparr>)"
  using assms rb_wfD [OF assms(1)]
  by (simp add: rb_append_def ring_buffer_tail_def ring_buffer_push_def ring_buffer_store_pointer
      ring_buffer_is_full_def)

lemma rb_not_full:
  assumes "rb_wf self" and "\<not> ring_buffer_is_full self"
  shows "unat (rb_count self) < unat (rb_capacity self)"
    and "unat (rb_count self + 1) = unat (rb_count self) + 1"
proof -
  show lt: "unat (rb_count self) < unat (rb_capacity self)"
    using assms by (auto simp: rb_wf_def ring_buffer_is_full_def word_unat_eq_iff)
  show "unat (rb_count self + 1) = unat (rb_count self) + 1"
    using lt unat_u32_less [of "rb_capacity self"] by (intro unat_add1_u32) simp
qed

lemma rb_append_ok:
  assumes "rb_wf self" and "\<not> ring_buffer_is_full self"
  shows "\<exists>rb. rb_append x self = Some rb \<and> rb_wf rb \<and> rb_contents rb = rb_contents self @ [x]
           \<and> rb_capacity rb = rb_capacity self"
proof -
  let ?rb = "self\<lparr>rb_buffer := Some ((the (rb_buffer self))[unat (rb_tail self) := x]),
                  rb_count := rb_count self + 1,
                  rb_tail := (rb_tail self + 1) mod rb_capacity self\<rparr>"
  note wf = rb_wfD [OF assms(1)] and c = rb_not_full [OF assms]
  have "unat (rb_tail self + 1) = unat (rb_tail self) + 1"
    using wf(6) unat_u32_less [of "rb_capacity self"] by (intro unat_add1_u32) simp
  then have "unat ((rb_tail self + 1) mod rb_capacity self) =
      (unat (rb_head self) + unat (rb_count self + 1)) mod unat (rb_capacity self)"
    using assms(1) c by (simp add: unat_mod_distrib rb_wf_def mod_Suc_eq)
  then have "rb_wf ?rb" using assms(1) c by (auto simp: rb_wf_def)
  moreover have "rb_contents ?rb = rb_contents self @ [x]"
  proof (rule nth_equalityI)
    fix i assume "i < length (rb_contents ?rb)"
    then have "i < unat (rb_count self) \<or> i = unat (rb_count self)" using c by auto
    then show "rb_contents ?rb ! i = (rb_contents self @ [x]) ! i"
    proof
      assume i: "i < unat (rb_count self)"
      have "rb_slot self i \<noteq> rb_slot self (unat (rb_count self))"
        using i c(1) rb_slot_inj [of self i "unat (rb_count self)"] by auto
      then show ?thesis using i c
        by (simp add: rb_contents_def rb_slot_count [OF assms(1)] nth_append del: upt_Suc)
          (simp add: rb_slot_def)
    next
      assume i: "i = unat (rb_count self)"
      have "rb_slot ?rb i = unat (rb_tail self)"
        using rb_slot_count [OF assms(1)] i by (simp add: rb_slot_def)
      then show ?thesis using i c wf by (simp add: rb_contents_def nth_append del: upt_Suc)
    qed
  qed (simp add: c)
  ultimately show ?thesis using rb_append_step [OF assms] by simp
qed

lemma rb_discard_ok:
  assumes "rb_wf self" and "n \<le> length (rb_contents self)"
  shows "\<exists>rb. rb_discard n self = Some rb \<and> rb_wf rb \<and> rb_contents rb = drop n (rb_contents self)
           \<and> rb_capacity rb = rb_capacity self"
proof -
  let ?n = "of_nat n :: u32" and ?cap = "unat (rb_capacity self)"
  let ?rb = "self\<lparr>rb_count := rb_count self - ?n,
                  rb_head := (rb_head self + ?n) mod rb_capacity self\<rparr>"
  note wf = rb_wfD [OF assms(1)]
  have n32: "n < 2 ^ 32" using assms(2) unat_u32_less [of "rb_count self"] by simp
  then have n: "unat ?n = n" by (simp add: unsigned_of_nat take_bit_eq_mod)
  have le: "unat ?n \<le> unat (rb_count self)" using assms(2) n by simp
  have step: "rb_discard n self = Some ?rb"
    using n le wf(3) by (simp add: rb_discard_def ring_buffer_drop_def ring_buffer_count_def
        word_less_nat_alt)
  have head: "unat (rb_head ?rb) = (unat (rb_head self) + n) mod ?cap"
    using rb_index [OF assms(1) le] n by (simp add: rb_slot_def)
  have count: "unat (rb_count ?rb) = unat (rb_count self) - n"
    using unat_sub_u32 [OF le] n by simp
  have "((unat (rb_head self) + n) mod ?cap + (unat (rb_count self) - n)) mod ?cap =
      (unat (rb_head self) + n + (unat (rb_count self) - n)) mod ?cap"
    by (rule mod_add_left_eq)
  then have "unat (rb_tail self) =
      ((unat (rb_head self) + n) mod ?cap + (unat (rb_count self) - n)) mod ?cap"
    using assms by (simp add: rb_wf_def)
  then have "rb_wf ?rb" using assms head count wf(4) unfolding rb_wf_def by auto
  moreover have "rb_contents ?rb = drop n (rb_contents self)"
    using count head by (intro nth_equalityI)
      (simp_all add: rb_contents_def rb_slot_def mod_add_left_eq add.assoc less_diff_conv)
  ultimately show ?thesis using step by simp
qed

lemma rb_discard_too_many:
  assumes "rb_wf self" and "length (rb_contents self) < n"
  shows "rb_discard n self = None"
proof (cases "n < 2 ^ 32")
  case True
  then have "unat (of_nat n :: u32) = n" by (simp add: unsigned_of_nat take_bit_eq_mod)
  then show ?thesis
    using assms(2) rb_wfD(3) [OF assms(1)]
    by (simp add: rb_discard_def ring_buffer_drop_def ring_buffer_count_def word_less_nat_alt)
qed (simp add: rb_discard_def unat_of_nat_u32_iff)

subsection \<open>The interface: a bounded window\<close>

text \<open>
  What the acknowledgement trackers rely on: elements enter at the end while there is room,
  leave in blocks from the front, and are readable by position.
\<close>

datatype 'a window_op = Append 'a | Discard nat

fun run_window ::
    "('a \<Rightarrow> 'q \<Rightarrow> 'q option) \<Rightarrow> (nat \<Rightarrow> 'q \<Rightarrow> 'q option) \<Rightarrow> 'a window_op list \<Rightarrow> 'q \<Rightarrow> 'q option" where
  "run_window app dis [] q = Some q"
| "run_window app dis (Append x # ops) q = Option.bind (app x q) (run_window app dis ops)"
| "run_window app dis (Discard n # ops) q = Option.bind (dis n q) (run_window app dis ops)"

fun appended :: "'a window_op list \<Rightarrow> 'a list" where
  "appended [] = []"
| "appended (Append x # ops) = x # appended ops"
| "appended (Discard n # ops) = appended ops"

fun discarded :: "'a window_op list \<Rightarrow> nat" where
  "discarded [] = 0"
| "discarded (Append x # ops) = discarded ops"
| "discarded (Discard n # ops) = n + discarded ops"

locale bounded_window =
  fixes invar :: "'q \<Rightarrow> bool"
    and contents :: "'q \<Rightarrow> 'a list"
    and limit :: "'q \<Rightarrow> nat"
    and at :: "'q \<Rightarrow> nat \<Rightarrow> 'a option"
    and app :: "'a \<Rightarrow> 'q \<Rightarrow> 'q option"
    and dis :: "nat \<Rightarrow> 'q \<Rightarrow> 'q option"
  assumes contents_le: "invar q \<Longrightarrow> length (contents q) \<le> limit q"
    and at_contents: "invar q \<Longrightarrow>
      at q i = (if i < length (contents q) then Some (contents q ! i) else None)"
    and app_room: "invar q \<Longrightarrow> length (contents q) < limit q \<Longrightarrow>
      \<exists>q'. app x q = Some q' \<and> invar q' \<and> contents q' = contents q @ [x] \<and> limit q' = limit q"
    and app_full: "invar q \<Longrightarrow> length (contents q) = limit q \<Longrightarrow> app x q = None"
    and dis_ok: "invar q \<Longrightarrow> n \<le> length (contents q) \<Longrightarrow>
      \<exists>q'. dis n q = Some q' \<and> invar q' \<and> contents q' = drop n (contents q) \<and> limit q' = limit q"
    and dis_too_many: "invar q \<Longrightarrow> length (contents q) < n \<Longrightarrow> dis n q = None"
begin

lemma app_SomeD:
  assumes "invar q" and "app x q = Some q'"
  shows "invar q' \<and> contents q' = contents q @ [x] \<and> limit q' = limit q"
proof -
  have "length (contents q) \<noteq> limit q" using assms app_full by fastforce
  with contents_le [OF assms(1)] have "length (contents q) < limit q" by simp
  from app_room [OF assms(1) this, of x] assms(2) show ?thesis by auto
qed

lemma dis_SomeD:
  assumes "invar q" and "dis n q = Some q'"
  shows "n \<le> length (contents q) \<and> invar q' \<and> contents q' = drop n (contents q) \<and> limit q' = limit q"
proof -
  have "n \<le> length (contents q)"
    using assms dis_too_many [of q n] by (metis leI option.distinct(1))
  from this dis_ok [OF assms(1) this] assms(2) show ?thesis by auto
qed

lemma run_fifo:
  assumes "invar q" and "run_window app dis ops q = Some q'"
  shows "invar q' \<and> limit q' = limit q
    \<and> contents q' = drop (discarded ops) (contents q @ appended ops)"
  using assms
proof (induction ops arbitrary: q rule: appended.induct)
  case (2 x ops)
  then obtain q1 where q1: "app x q = Some q1" and r: "run_window app dis ops q1 = Some q'"
    by (auto simp: bind_eq_Some_conv)
  from app_SomeD [OF "2.prems"(1) q1] "2.IH" [OF _ r] show ?case by simp
next
  case (3 n ops)
  then obtain q1 where q1: "dis n q = Some q1" and r: "run_window app dis ops q1 = Some q'"
    by (auto simp: bind_eq_Some_conv)
  from dis_SomeD [OF "3.prems"(1) q1] "3.IH" [OF _ r] show ?case by (simp add: add.commute)
qed simp

lemma dis_takeWhile:
  assumes "invar q"
  shows "\<exists>q'. dis (length (takeWhile P (contents q))) q = Some q' \<and> invar q'
    \<and> contents q' = dropWhile P (contents q) \<and> limit q' = limit q"
  using dis_ok [OF assms length_takeWhile_le, of P] by (simp add: dropWhile_eq_drop)

end

interpretation rb: bounded_window rb_wf rb_contents "\<lambda>self. unat (rb_capacity self)" rb_nth
  rb_append rb_discard
proof (unfold_locales, goal_cases)
  case (1 q)
  then show ?case by (simp add: rb_wf_def)
next
  case (2 q i)
  then show ?case by (rule rb_nth_contents)
next
  case (3 q x)
  then have "\<not> ring_buffer_is_full q" by (simp add: ring_buffer_full_contents)
  from rb_append_ok [OF 3(1) this, of x] show ?case by auto
next
  case (4 q x)
  then show ?case by (simp add: rb_append_full ring_buffer_full_contents)
next
  case (5 q n)
  from rb_discard_ok [OF this] show ?case by auto
next
  case (6 q n)
  then show ?case by (rule rb_discard_too_many)
qed

lemma continual_range_loop_step:
  assumes "rb_wf self" and "unat i \<le> unat (rb_count self)"
  shows "continual_range_loop pred self i r =
    Some (r + of_nat (length (takeWhile pred (drop (unat i) (rb_contents self)))))"
  using assms
proof (induction pred self i r rule: continual_range_loop.induct)
  case (1 pred self i r)
  show ?case
  proof (cases "unat i < unat (rb_count self)")
    case True
    let ?xs = "rb_contents self"
    obtain p q where p: "ring_buffer_element_at self i = Some p" "p = Some q"
      and ld: "ring_buffer_load self q = Some (?xs ! unat i)"
      using ring_buffer_element_at_contents [OF "1.prems"(1), of i] True
      by (auto simp: bind_eq_Some_conv)
    have ds: "drop (unat i) ?xs = ?xs ! unat i # drop (Suc (unat i)) ?xs"
      using True by (intro Cons_nth_drop_Suc [symmetric]) simp
    have i1: "unat (i + 1) = Suc (unat i)"
      using True unat_u32_less [of "rb_count self"] unat_add1_u32 [of i] by simp
    have lt: "i < ring_buffer_count self"
      using True by (simp add: ring_buffer_count_def word_less_nat_alt)
    show ?thesis
    proof (cases "pred (?xs ! unat i)")
      case P: True
      have "continual_range_loop pred self (i + 1) (r + 1) =
          Some (r + 1 + of_nat (length (takeWhile pred (drop (unat (i + 1)) ?xs))))"
        using "1.IH" [OF lt p ld] "1.prems" True i1 P by simp
      then show ?thesis using lt p ld P ds i1
        by (subst continual_range_loop.simps) (simp add: algebra_simps)
    qed (use lt p ld ds in \<open>subst continual_range_loop.simps, simp\<close>)
  next
    case False
    then show ?thesis using "1.prems"(2)
      by (subst continual_range_loop.simps) (simp add: ring_buffer_count_def word_less_nat_alt)
  qed
qed

lemma continual_range_length:
  "rb_wf self \<Longrightarrow> ring_buffer_get_continual_range_length self pred =
     Some (of_nat (length (takeWhile pred (rb_contents self))))"
  by (simp add: ring_buffer_get_continual_range_length_def rb_wfD(3) continual_range_loop_step)

subsection \<open>Access through pointers\<close>

text \<open>
  The trackers keep pointers to elements while the window moves.  \<open>rb_ptr self i\<close> is the pointer
  to the \<open>i\<close>th element counted from the head, \<open>rb_cell self i\<close> what is stored there; both also
  make sense for the free elements after the tail.
\<close>

definition rb_ptr :: "'a ring_buffer \<Rightarrow> nat \<Rightarrow> u32" where
  "rb_ptr self i = of_nat (rb_slot self i) * rb_element_size self"

definition rb_cell :: "'a ring_buffer \<Rightarrow> nat \<Rightarrow> 'a" where
  "rb_cell self i = the (rb_buffer self) ! rb_slot self i"

lemma rb_contents_cell: "rb_contents self = map (rb_cell self) [0..<unat (rb_count self)]"
  by (simp add: rb_contents_def rb_cell_def)

lemma unat_rb_slot: "rb_wf self \<Longrightarrow> unat (of_nat (rb_slot self i) :: u32) = rb_slot self i"
  using rb_slot_less [of self i] unat_u32_less [of "rb_capacity self"]
  by (simp add: unsigned_of_nat take_bit_eq_mod)

lemma ring_buffer_load_ptr:
  "rb_wf self \<Longrightarrow> ring_buffer_load self (rb_ptr self i) = Some (rb_cell self i)"
  using ring_buffer_load_pointer [of self "of_nat (rb_slot self i)"]
  by (simp add: rb_ptr_def rb_cell_def unat_rb_slot rb_slot_less)

lemma ring_buffer_store_ptr:
  assumes "rb_wf self" and "i < unat (rb_capacity self)"
  obtains rb where "ring_buffer_store self (rb_ptr self i) x = Some rb"
    and "rb_wf rb" and "rb_count rb = rb_count self" and "rb_capacity rb = rb_capacity self"
    and "rb_ptr rb = rb_ptr self"
    and "\<And>j. j < unat (rb_capacity self) \<Longrightarrow> rb_cell rb j = (if j = i then x else rb_cell self j)"
proof -
  let ?rb = "self\<lparr>rb_buffer := Some ((the (rb_buffer self))[rb_slot self i := x])\<rparr>"
  show thesis
  proof (rule that)
    show "ring_buffer_store self (rb_ptr self i) x = Some ?rb"
      using ring_buffer_store_pointer [OF assms(1), of "of_nat (rb_slot self i)"]
      by (simp add: rb_ptr_def unat_rb_slot rb_slot_less assms(1))
    show "rb_wf ?rb" using assms(1) by (auto simp: rb_wf_def)
    show "rb_ptr ?rb = rb_ptr self" by (simp add: fun_eq_iff rb_ptr_def rb_slot_def)
    fix j assume j: "j < unat (rb_capacity self)"
    have "rb_slot self i = rb_slot self j \<longleftrightarrow> j = i"
      using rb_slot_inj [of self i j] assms(2) j by auto
    then show "rb_cell ?rb j = (if j = i then x else rb_cell self j)"
      using rb_wfD(2) [OF assms(1)] rb_slot_less [OF assms(1)]
      by (auto simp: rb_cell_def rb_slot_def)
  qed simp_all
qed

lemma ring_buffer_element_at_ptr:
  assumes "rb_wf self" and "unat i < unat (rb_count self)"
  shows "ring_buffer_element_at self i = Some (Some (rb_ptr self (unat i)))"
proof -
  have "unat ((rb_head self + i) mod rb_capacity self) = rb_slot self (unat i)"
    using assms by (intro rb_index) simp_all
  then have "(rb_head self + i) mod rb_capacity self = of_nat (rb_slot self (unat i))"
    using unat_rb_slot [OF assms(1), of "unat i"] by (simp add: word_unat_eq_iff)
  then show ?thesis
    using assms rb_wfD(3) [OF assms(1)]
    by (simp add: ring_buffer_element_at_def rb_ptr_def word_le_nat_alt)
qed

lemma ring_buffer_tail_ptr:
  assumes "rb_wf self" and "unat (rb_count self) < unat (rb_capacity self)"
  shows "ring_buffer_tail self = Some (Some (rb_ptr self (unat (rb_count self))))"
proof -
  have "rb_tail self = of_nat (rb_slot self (unat (rb_count self)))"
    using rb_slot_count [OF assms(1)] by simp
  then show ?thesis
    using assms rb_wfD(3) [OF assms(1)]
    by (auto simp: ring_buffer_tail_def ring_buffer_is_full_def rb_ptr_def)
qed

lemma ring_buffer_push_ptr:
  assumes "rb_wf self" and "unat (rb_count self) < unat (rb_capacity self)"
  obtains rb where "ring_buffer_push self = Some (Some (rb_ptr self (unat (rb_count self))), rb)"
    and "rb_wf rb" and "unat (rb_count rb) = unat (rb_count self) + 1"
    and "rb_capacity rb = rb_capacity self"
    and "rb_ptr rb = rb_ptr self" and "rb_cell rb = rb_cell self"
proof -
  let ?rb = "self\<lparr>rb_count := rb_count self + 1,
                  rb_tail := (rb_tail self + 1) mod rb_capacity self\<rparr>"
  have nf: "\<not> ring_buffer_is_full self" using assms(2) by (auto simp: ring_buffer_is_full_def)
  note c = rb_not_full [OF assms(1) nf]
  have "unat (rb_tail self + 1) = unat (rb_tail self) + 1"
    using rb_wfD(6) [OF assms(1)] unat_u32_less [of "rb_capacity self"]
    by (intro unat_add1_u32) simp
  then have "unat ((rb_tail self + 1) mod rb_capacity self) =
      (unat (rb_head self) + unat (rb_count self + 1)) mod unat (rb_capacity self)"
    using assms(1) c by (simp add: unat_mod_distrib rb_wf_def mod_Suc_eq)
  then have "rb_wf ?rb" using assms(1) c by (auto simp: rb_wf_def)
  then show thesis
    using ring_buffer_tail_ptr [OF assms] c
    by (intro that [of ?rb]) (simp_all add: ring_buffer_push_def fun_eq_iff rb_ptr_def rb_cell_def
        rb_slot_def)
qed

lemma ring_buffer_drop_ptr:
  assumes "rb_wf self" and "unat n \<le> unat (rb_count self)"
  obtains rb where "ring_buffer_drop self n = Some (True, rb)"
    and "rb_wf rb" and "unat (rb_count rb) = unat (rb_count self) - unat n"
    and "rb_capacity rb = rb_capacity self"
    and "\<And>i. rb_ptr rb i = rb_ptr self (unat n + i)" and "\<And>i. rb_cell rb i = rb_cell self (unat n + i)"
proof -
  let ?rb = "self\<lparr>rb_count := rb_count self - n,
                  rb_head := (rb_head self + n) mod rb_capacity self\<rparr>"
  have drop: "ring_buffer_drop self n = Some (True, ?rb)"
    using assms rb_wfD(3) [OF assms(1)]
    by (simp add: ring_buffer_drop_def ring_buffer_count_def word_less_nat_alt)
  have "rb_discard (unat n) self = Some ?rb"
    using drop by (simp add: rb_discard_def)
  then have wf: "rb_wf ?rb" using rb_discard_ok [OF assms(1), of "unat n"] assms(2) by auto
  have slot: "rb_slot ?rb i = rb_slot self (unat n + i)" for i
    using rb_index [OF assms] by (simp add: rb_slot_def mod_add_left_eq add.assoc)
  show thesis
    using assms by (intro that [OF drop wf]) (simp_all add: unat_sub_u32 rb_ptr_def rb_cell_def slot)
qed

subsection \<open>Properties\<close>

definition rb_demo :: "nat ring_buffer" where
  "rb_demo = \<lparr>rb_buffer = Some [0, 0, 0], rb_head = 0, rb_tail = 0, rb_count = 0, rb_capacity = 3,
              rb_element_size = 8\<rparr>"

lemma rb_demo_wf: "rb_wf rb_demo" and rb_demo_contents: "rb_contents rb_demo = []"
  by (simp_all add: rb_wf_def rb_demo_def rb_contents_def)

text \<open>
  C14: The ring buffer is a bounded first-in first-out window.  After any sequence of pushes and
  drops that it accepts, its contents are the initial contents followed by the pushed elements
  without as many leading elements as were dropped, and its capacity is unchanged; no element is
  lost, duplicated or reordered when the indices wrap around.
\<close>

theorem ring_buffer_fifo:
  assumes "rb_wf self" and "run_window rb_append rb_discard ops self = Some self'"
  shows "rb_wf self' \<and> rb_capacity self' = rb_capacity self
    \<and> rb_contents self' = drop (discarded ops) (rb_contents self @ appended ops)"
  using rb.run_fifo [OF assms] by (auto simp: word_unat_eq_iff)

theorem ring_buffer_fifo_witness:
  "\<exists>self'. run_window rb_append rb_discard
        [Append 1, Append 2, Append 3, Discard 2, Append 4] rb_demo = Some self'
     \<and> rb_contents self' = [3, 4]"
proof -
  let ?ops = "[Append 1, Append 2, Append 3, Discard 2, Append 4 :: nat window_op]"
  have "run_window rb_append rb_discard ?ops rb_demo \<noteq> None" by code_simp
  then obtain self' where r: "run_window rb_append rb_discard ?ops rb_demo = Some self'" by auto
  from ring_buffer_fifo [OF rb_demo_wf r] r show ?thesis by (simp add: rb_demo_contents)
qed

text \<open>
  C39: The pointers that \<open>ring_buffer_element_at\<close> hands out address distinct elements: for two
  different positions the byte ranges do not overlap, and both lie inside the allocation of
  \<open>element_size * capacity\<close> bytes.
\<close>

theorem ring_buffer_elements_disjoint:
  assumes "rb_wf self" and "i \<noteq> j"
    and "ring_buffer_element_at self i = Some (Some p)"
    and "ring_buffer_element_at self j = Some (Some q)"
  shows "{unat p..<unat p + unat (rb_element_size self)} \<inter>
           {unat q..<unat q + unat (rb_element_size self)} = {}
    \<and> unat p + unat (rb_element_size self) \<le> unat (rb_element_size self * rb_capacity self)"
proof -
  let ?e = "unat (rb_element_size self)" and ?c = "unat (rb_capacity self)"
  have lt: "unat i < unat (rb_count self)" "unat j < unat (rb_count self)"
    using assms(3,4) rb_wfD(3) [OF assms(1)]
    by (auto simp: ring_buffer_element_at_def word_le_nat_alt split: if_splits)
  have p: "unat p = rb_slot self (unat i) * ?e" and q: "unat q = rb_slot self (unat j) * ?e"
    using assms(1,3,4) lt rb_pointer [OF assms(1)] rb_slot_less [OF assms(1)]
    by (auto simp: ring_buffer_element_at_ptr rb_ptr_def)
  have "unat i \<noteq> unat j" using assms(2) by (metis word_unat_eq_iff)
  then have "rb_slot self (unat i) \<noteq> rb_slot self (unat j)"
    using rb_slot_inj [of self "unat i" "unat j"] lt assms(1) by (auto simp: rb_wf_def)
  then have "Suc (rb_slot self (unat i)) \<le> rb_slot self (unat j)
      \<or> Suc (rb_slot self (unat j)) \<le> rb_slot self (unat i)" by linarith
  then have "Suc (rb_slot self (unat i)) * ?e \<le> rb_slot self (unat j) * ?e
      \<or> Suc (rb_slot self (unat j)) * ?e \<le> rb_slot self (unat i) * ?e"
    using mult_le_mono1 by blast
  then have "{unat p..<unat p + ?e} \<inter> {unat q..<unat q + ?e} = {}"
    using p q by auto
  moreover have "unat p + ?e \<le> unat (rb_element_size self * rb_capacity self)"
  proof -
    have "Suc (rb_slot self (unat i)) * ?e \<le> ?c * ?e"
      using rb_slot_less [OF assms(1)] by (intro mult_le_mono1 Suc_leI)
    moreover have "unat (rb_element_size self * rb_capacity self) = ?e * ?c"
      using assms(1) by (intro unat_mult_u32) (simp add: rb_wf_def)
    ultimately show ?thesis using p by (simp add: mult.commute)
  qed
  ultimately show ?thesis ..
qed

theorem ring_buffer_elements_disjoint_witness:
  "let self = rb_demo\<lparr>rb_head := 2, rb_tail := 1, rb_count := 2\<rparr>
   in rb_wf self \<and> ring_buffer_element_at self 0 = Some (Some 16)
      \<and> ring_buffer_element_at self 1 = Some (Some 0)
      \<and> {unat (16 :: u32)..<unat (16 :: u32) + 8} \<inter> {unat (0 :: u32)..<unat (0 :: u32) + 8} = {}"
proof -
  let ?self = "rb_demo\<lparr>rb_head := 2, rb_tail := 1, rb_count := 2\<rparr>"
  have wf: "rb_wf ?self" by (simp add: rb_wf_def rb_demo_def)
  have e: "ring_buffer_element_at ?self 0 = Some (Some 16)"
    "ring_buffer_element_at ?self 1 = Some (Some 0)"
    by code_simp+
  from ring_buffer_elements_disjoint [OF wf _ e] wf e show ?thesis
    by (simp add: Let_def rb_demo_def)
qed

end
