(* ===== verification/Log_Source.thy ===== *)
theory Log_Source
  imports Prelude
begin

text \<open>
  The flow control state of a \<open>LogSource\<close> (\<^verbatim>\<open>lib/logsource.c\<close>, \<^verbatim>\<open>lib/logsource.h\<close>): the window
  of messages that may be in flight, the suspended flag, and the adaptive sleep that is computed
  from the acknowledgement rate.

  \<open>window_size\<close> and \<open>suspended\<close> are \<open>GAtomicCounter\<close>s (a \<open>gint\<close>).  The \<open>wakeup\<close> callback
  belongs to the derived class; the model records how often it is called.  The globals and the
  clock that \<open>_flow_control_rate_adjust\<close> reads are the record \<open>flow_env\<close>.
\<close>

datatype ack_type = AT_UNDEFINED | AT_PROCESSED | AT_ABORTED | AT_SUSPENDED

record timespec =
  tv_sec :: int
  tv_nsec :: int

record log_source =
  window_size :: i32
  suspended :: i32
  ack_count :: u32
  last_ack_count :: u32
  window_full_sleep_nsec :: int
  last_ack_rate_time :: timespec
  threaded :: bool
  is_external_ack_required :: bool
  init_window_size :: i32
  has_wakeup :: bool
  wakeup_calls :: nat

record flow_env =
  accurate_nanosleep :: bool
  monotonic_now :: timespec

definition timespec_diff_nsec :: "timespec \<Rightarrow> timespec \<Rightarrow> int" where
  "timespec_diff_nsec t1 t2 = (tv_sec t1 - tv_sec t2) * 1000000000 + (tv_nsec t1 - tv_nsec t2)"

definition log_source_suspend :: "log_source \<Rightarrow> log_source" where
  "log_source_suspend self = self\<lparr>suspended := 1\<rparr>"

definition log_source_is_suspended :: "log_source \<Rightarrow> bool" where
  "log_source_is_suspended self \<longleftrightarrow> suspended self = 1"

definition log_source_is_window_full :: "log_source \<Rightarrow> bool" where
  "log_source_is_window_full self \<longleftrightarrow> sint (window_size self) \<le> 0"

definition log_source_free_to_send :: "log_source \<Rightarrow> bool" where
  "log_source_free_to_send self \<longleftrightarrow>
     \<not> (log_source_is_window_full self \<or> log_source_is_suspended self)"

definition log_source_wakeup :: "log_source \<Rightarrow> log_source" where
  "log_source_wakeup self =
     (let self = self\<lparr>suspended := 0\<rparr>
      in if has_wakeup self then self\<lparr>wakeup_calls := wakeup_calls self + 1\<rparr> else self)"

definition flow_control_window_size_adjust :: "log_source \<Rightarrow> u32 \<Rightarrow> log_source" where
  "flow_control_window_size_adjust self window_size_increment =
     (let old_window_size = window_size self;
          self = self\<lparr>window_size := window_size self + window_size_increment\<rparr>
      in if old_window_size = 0 \<or> log_source_is_suspended self then log_source_wakeup self
         else self)"

text \<open>
  \<^verbatim>\<open>/\<close> on \<open>glong\<close> truncates towards zero, and a zero divisor kills the process.
\<close>

definition glong_div :: "int \<Rightarrow> int \<Rightarrow> int option" where
  "glong_div a b = (if b = 0 then None else Some (sgn a * sgn b * (\<bar>a\<bar> div \<bar>b\<bar>)))"

definition flow_control_rate_adjust :: "flow_env \<Rightarrow> log_source \<Rightarrow> log_source option" where
  "flow_control_rate_adjust env self =
     (if accurate_nanosleep env \<and> threaded self then
        (let self = self\<lparr>ack_count := ack_count self + 1\<rparr>;
             cur_ack_count = ack_count self
         in if cur_ack_count AND 0x3FFF = 0 then
              (let last = last_ack_count self
               in if last < cur_ack_count - 16383 then
                    (let now = monotonic_now env
                     in if tv_sec now > tv_sec (last_ack_rate_time self) + 6 then
                          Some (self\<lparr>window_full_sleep_nsec := 0, last_ack_rate_time := now\<rparr>)
                        else
                          do {
                            nsec \<leftarrow> glong_div (timespec_diff_nsec now (last_ack_rate_time self))
                                      (uint (cur_ack_count - last));
                            let nsec =
                              (if nsec > 1000000 then 0
                               else if nsec * 8 > 100000 then 100000 else nsec * 8);
                            Some (self\<lparr>window_full_sleep_nsec := nsec,
                                       last_ack_count := cur_ack_count,
                                       last_ack_rate_time := now\<rparr>)
                          })
                  else Some self)
            else Some self)
      else Some self)"

definition log_source_flow_control_adjust ::
    "flow_env \<Rightarrow> log_source \<Rightarrow> u32 \<Rightarrow> log_source option" where
  "log_source_flow_control_adjust env self window_size_increment = do {
     let self = flow_control_window_size_adjust self window_size_increment;
     self \<leftarrow> flow_control_rate_adjust env self;
     Some (if is_external_ack_required self then log_source_wakeup self else self)
   }"

definition log_source_flow_control_suspend :: "flow_env \<Rightarrow> log_source \<Rightarrow> log_source option" where
  "log_source_flow_control_suspend env self = do {
     let self = flow_control_window_size_adjust self 1;
     let self = log_source_suspend self;
     flow_control_rate_adjust env self
   }"

text \<open>
  The window part of \<^verbatim>\<open>log_source_queue\<close>: one slot is taken for the message, and a window that
  was already exhausted aborts.
\<close>

definition log_source_take_window :: "log_source \<Rightarrow> log_source option" where
  "log_source_take_window self = do {
     let old_window_size = window_size self;
     let self = self\<lparr>window_size := window_size self - 1\<rparr>;
     g_assert (sint old_window_size > 0);
     Some self
   }"

text \<open>
  \<^verbatim>\<open>log_source_set_options\<close> on the window: it is initialised once, from the value \<open>-1\<close>
  \<^verbatim>\<open>log_source_init_instance\<close> leaves there.
\<close>

definition log_source_init_window :: "log_source \<Rightarrow> i32 \<Rightarrow> log_source" where
  "log_source_init_window self n =
     (let self = (if window_size self = -1 then self\<lparr>window_size := n\<rparr> else self)
      in self\<lparr>init_window_size := n\<rparr>)"

text \<open>A freshly initialised source, used to instantiate the theorems.\<close>

definition fresh_source :: "i32 \<Rightarrow> log_source" where
  "fresh_source n =
     \<lparr>window_size = n, suspended = 0, ack_count = 0, last_ack_count = 0,
      window_full_sleep_nsec = 0, last_ack_rate_time = \<lparr>tv_sec = 0, tv_nsec = 0\<rparr>,
      threaded = True, is_external_ack_required = False, init_window_size = n,
      has_wakeup = True, wakeup_calls = 0\<rparr>"

definition fresh_env :: flow_env where
  "fresh_env = \<lparr>accurate_nanosleep = True, monotonic_now = \<lparr>tv_sec = 1, tv_nsec = 0\<rparr>\<rparr>"

subsection \<open>How the operations change the window\<close>

lemma log_source_wakeup_simps [state_simps, simp]:
  "window_size (log_source_wakeup self) = window_size self"
  "suspended (log_source_wakeup self) = 0"
  "ack_count (log_source_wakeup self) = ack_count self"
  "last_ack_count (log_source_wakeup self) = last_ack_count self"
  "window_full_sleep_nsec (log_source_wakeup self) = window_full_sleep_nsec self"
  "last_ack_rate_time (log_source_wakeup self) = last_ack_rate_time self"
  "threaded (log_source_wakeup self) = threaded self"
  "init_window_size (log_source_wakeup self) = init_window_size self"
  "is_external_ack_required (log_source_wakeup self) = is_external_ack_required self"
  by (simp_all add: log_source_wakeup_def Let_def)

lemma flow_control_window_size_adjust_simps [state_simps, simp]:
  "window_size (flow_control_window_size_adjust self n) = window_size self + n"
  "ack_count (flow_control_window_size_adjust self n) = ack_count self"
  "last_ack_count (flow_control_window_size_adjust self n) = last_ack_count self"
  "window_full_sleep_nsec (flow_control_window_size_adjust self n) = window_full_sleep_nsec self"
  "last_ack_rate_time (flow_control_window_size_adjust self n) = last_ack_rate_time self"
  "threaded (flow_control_window_size_adjust self n) = threaded self"
  "init_window_size (flow_control_window_size_adjust self n) = init_window_size self"
  "is_external_ack_required (flow_control_window_size_adjust self n) = is_external_ack_required self"
  by (simp_all add: flow_control_window_size_adjust_def Let_def)

lemma flow_control_window_size_adjust_suspended [simp]:
  "suspended (flow_control_window_size_adjust self n) =
     (if window_size self = 0 \<or> suspended self = 1 then 0 else suspended self)"
  by (simp add: flow_control_window_size_adjust_def Let_def log_source_is_suspended_def)

lemma flow_control_rate_adjust_frame:
  assumes "flow_control_rate_adjust env self = Some self'"
  shows "window_size self' = window_size self" and "suspended self' = suspended self"
    and "threaded self' = threaded self" and "init_window_size self' = init_window_size self"
    and "is_external_ack_required self' = is_external_ack_required self"
    and "wakeup_calls self' = wakeup_calls self" and "has_wakeup self' = has_wakeup self"
  using assms
  by (auto simp: flow_control_rate_adjust_def Let_def bind_eq_Some_conv split: if_splits)

lemma flow_control_adjust_window:
  assumes "log_source_flow_control_adjust env self n = Some self'"
  shows "window_size self' = window_size self + n" and "init_window_size self' = init_window_size self"
    and "threaded self' = threaded self"
  using assms
  by (auto simp: log_source_flow_control_adjust_def bind_eq_Some_conv
      dest: flow_control_rate_adjust_frame split: if_splits)

lemma flow_control_suspend_window:
  assumes "log_source_flow_control_suspend env self = Some self'"
  shows "window_size self' = window_size self + 1" and "log_source_is_suspended self'"
    and "init_window_size self' = init_window_size self"
    and "threaded self' = threaded self"
  using assms
  by (auto simp: log_source_flow_control_suspend_def log_source_suspend_def
      log_source_is_suspended_def dest: flow_control_rate_adjust_frame)

text \<open>The rate measurement is skipped altogether in sources that are not threaded.\<close>

lemma flow_control_rate_adjust_unthreaded:
  "\<not> (accurate_nanosleep env \<and> threaded self) \<Longrightarrow> flow_control_rate_adjust env self = Some self"
  by (auto simp: flow_control_rate_adjust_def)

subsection \<open>The adaptive sleep\<close>

lemma low_bits_zero_small:
  fixes w :: u32
  assumes "w AND 0x3FFF = 0" and "unat w < 16384"
  shows "w = 0"
proof -
  have "w AND mask 14 = 0" using assms(1) by (simp add: mask_eq_exp_minus_1)
  then have "unat w mod 2 ^ 14 = 0"
    by (metis take_bit_eq_mask take_bit_eq_mod unsigned_take_bit_eq unat_0 take_bit_of_nat
        unsigned_0)
  then show ?thesis using assms(2) by (simp add: word_unat_eq_iff)
qed

lemma rate_span_zero:
  fixes cur last :: u32
  assumes "cur AND 0x3FFF = 0"
  shows "last < cur - 16383 \<and> cur - last = 0 \<longleftrightarrow> cur = 0 \<and> last = 0"
proof
  assume a: "last < cur - 16383 \<and> cur - last = 0"
  then have eq: "last = cur" by simp
  have "unat cur < 16383"
  proof (rule ccontr)
    assume "\<not> unat cur < 16383"
    then have "unat (cur - 16383) = unat cur - 16383" by (intro unat_sub_u32 [THEN trans]) simp_all
    with a eq show False by (simp add: word_less_nat_alt)
  qed
  then have "unat cur < 16384" by linarith
  with assms have "cur = 0" by (rule low_bits_zero_small)
  with eq show "cur = 0 \<and> last = 0" by simp
next
  assume "cur = 0 \<and> last = 0"
  then show "last < cur - 16383 \<and> cur - last = 0" by (simp add: word_gt_0)
qed

text \<open>
  C23: The rate measurement divides by the number of acknowledgements since the previous
  measurement.  The guard \<open>last_ack_count < cur_ack_count - 16383\<close> keeps that number away from
  0 with one exception: when the 32 bit acknowledgement counter wraps to 0 while
  \<open>last_ack_count\<close> is still 0, and the previous measurement is at most 6 seconds old, the
  division is by zero.
\<close>

theorem rate_adjust_divides_by_zero_iff:
  "flow_control_rate_adjust env self = None \<longleftrightarrow>
     accurate_nanosleep env \<and> threaded self
     \<and> ack_count self = 0xFFFFFFFF \<and> last_ack_count self = 0
     \<and> tv_sec (monotonic_now env) \<le> tv_sec (last_ack_rate_time self) + 6"
proof -
  have z: "ack_count self + 1 AND 0x3FFF = 0 \<Longrightarrow>
      last_ack_count self < ack_count self + 1 - 16383 \<and> uint (ack_count self + 1 - last_ack_count self) = 0
      \<longleftrightarrow> ack_count self + 1 = 0 \<and> last_ack_count self = 0"
    using rate_span_zero [of "ack_count self + 1" "last_ack_count self"] by (simp add: uint_0_iff)
  show ?thesis
    unfolding flow_control_rate_adjust_def Let_def
    using z u32_wraps_to_0 [of "ack_count self"] by (auto simp: glong_div_def)
qed

lemma glong_div_nonneg:
  "glong_div a b = Some q \<Longrightarrow> 0 \<le> a \<Longrightarrow> 0 \<le> b \<Longrightarrow> 0 \<le> q"
  by (auto simp: glong_div_def sgn_if pos_imp_zdiv_nonneg_iff split: if_splits)

text \<open>
  C40: The sleep that is used when the window is full never exceeds 0.1 milliseconds, and is
  never negative, as long as the monotonic clock does not go backwards.
\<close>

theorem rate_adjust_sleep_bounds:
  assumes "flow_control_rate_adjust env self = Some self'"
    and "0 \<le> window_full_sleep_nsec self" and "window_full_sleep_nsec self \<le> 100000"
    and "0 \<le> timespec_diff_nsec (monotonic_now env) (last_ack_rate_time self)"
  shows "0 \<le> window_full_sleep_nsec self' \<and> window_full_sleep_nsec self' \<le> 100000"
proof -
  have "0 \<le> nsec" if "glong_div (timespec_diff_nsec (monotonic_now env) (last_ack_rate_time self))
      (uint w) = Some nsec" for nsec and w :: u32
    using that assms(4) uint_ge_0 by (rule glong_div_nonneg)
  then show ?thesis
    using assms(1-3)
    by (auto simp: flow_control_rate_adjust_def Let_def bind_eq_Some_conv split: if_splits)
qed

theorem rate_adjust_sleep_bounds_witness:
  "\<exists>self'. flow_control_rate_adjust fresh_env ((fresh_source 100)\<lparr>ack_count := 16383\<rparr>) = Some self'
     \<and> 0 \<le> window_full_sleep_nsec self' \<and> window_full_sleep_nsec self' \<le> 100000"
proof -
  let ?s = "(fresh_source 100)\<lparr>ack_count := 16383\<rparr>"
  obtain self' where r: "flow_control_rate_adjust fresh_env ?s = Some self'"
    by (simp add: flow_control_rate_adjust_def glong_div_def timespec_diff_nsec_def
        fresh_source_def fresh_env_def Let_def)
  have "0 \<le> window_full_sleep_nsec self' \<and> window_full_sleep_nsec self' \<le> 100000"
    by (rule rate_adjust_sleep_bounds [OF r])
      (simp_all add: fresh_source_def fresh_env_def timespec_diff_nsec_def)
  with r show ?thesis by blast
qed

text \<open>
  C38: A source that stopped reading because its window was used up or because it was suspended
  may read again after an acknowledgement returned slots to the window: the adjustment clears
  the suspended flag and leaves a positive window.
\<close>

theorem flow_control_adjust_resumes:
  assumes "log_source_flow_control_adjust env self n = Some self'"
    and "0 \<le> sint (window_size self)" and "0 < n"
    and "sint (window_size self) + int (unat n) < 2 ^ 31"
  shows "log_source_free_to_send self'"
proof -
  have w: "window_size self' = window_size self + n"
    using assms(1) by (rule flow_control_adjust_window)
  have lt: "sint (window_size self) + int (unat n) < 2147483648" using assms(4) by simp
  have n: "sint n = int (unat n)" using assms(2) lt by (intro sint_u32) linarith
  have "sint (window_size self + n) = sint (window_size self) + sint n"
    using assms(2) lt n by (intro sint_add_i32) linarith+
  moreover have "0 < unat n" using assms(3) by (simp add: word_less_nat_alt)
  then have "0 < sint n" using n by linarith
  moreover have "suspended self' \<noteq> 1"
    using assms(1) by (auto simp: log_source_flow_control_adjust_def bind_eq_Some_conv
        dest: flow_control_rate_adjust_frame split: if_splits)
  ultimately show ?thesis
    using assms(2) w by (simp add: log_source_free_to_send_def log_source_is_window_full_def
        log_source_is_suspended_def)
qed

theorem flow_control_adjust_resumes_witness:
  "\<exists>self'. log_source_flow_control_adjust fresh_env ((fresh_source 0)\<lparr>suspended := 1\<rparr>) 3 = Some self'
     \<and> log_source_free_to_send self'"
proof -
  let ?s = "(fresh_source 0)\<lparr>suspended := 1\<rparr>"
  obtain self' where r: "log_source_flow_control_adjust fresh_env ?s 3 = Some self'"
    by (simp add: log_source_flow_control_adjust_def flow_control_rate_adjust_def
        flow_control_window_size_adjust_def log_source_wakeup_def log_source_is_suspended_def
        fresh_source_def fresh_env_def Let_def)
  have "log_source_free_to_send self'"
    by (rule flow_control_adjust_resumes [OF r]) (simp_all add: fresh_source_def)
  with r show ?thesis by blast
qed

end
