(* ===== verification/Ack_Tracker.thy ===== *)
theory Ack_Tracker
  imports Ring_Buffer Log_Source
begin

text \<open>
  The acknowledgement trackers (\<^verbatim>\<open>lib/late_ack_tracker.c\<close>, \<^verbatim>\<open>lib/early_ack_tracker.c\<close>,
  \<^verbatim>\<open>lib/ack_tracker.h\<close>, \<^verbatim>\<open>lib/bookmark.h\<close>).  A source asks its tracker for a bookmark, fills it with
  the position of the message it reads, and hands the message over; destinations acknowledge
  messages in any order.  The late tracker saves the bookmark of the newest message before which
  everything is acknowledged.

  The trackers own their source, so the record of the tracker holds the source's flow control
  state.  The \<open>save\<close> and \<open>destroy\<close> callbacks of a bookmark belong to the protocol; a bookmark
  records whether they are set, and the tracker records for which positions they were called, in
  order.  References taken on the source pipe and references dropped on messages are counted.
\<close>

record 'b bookmark =
  bm_persist_state :: "nat option"
  bm_save :: bool
  bm_destroy :: bool
  bm_container :: 'b

definition bookmark_init :: "'b bookmark \<Rightarrow> 'b bookmark" where
  "bookmark_init self = self\<lparr>bm_persist_state := None, bm_save := False, bm_destroy := False\<rparr>"

record 'b late_ack_record =
  lar_tracker :: bool
  lar_acked :: bool
  lar_bookmark :: "'b bookmark"

record 'b late_ack_tracker =
  source :: log_source
  pending_ack_record :: "u32 option"
  ack_record_storage :: "'b late_ack_record ring_buffer"
  source_refs :: int
  msg_unrefs :: nat
  saved :: "'b list"
  destroyed :: "'b list"

definition ack_range_is_continuous :: "'b late_ack_record \<Rightarrow> bool" where
  "ack_range_is_continuous ack_rec = lar_acked ack_rec"

definition get_continuous_range_length :: "'b late_ack_tracker \<Rightarrow> u32 option" where
  "get_continuous_range_length self =
     ring_buffer_get_continual_range_length (ack_record_storage self) ack_range_is_continuous"

definition late_ack_record_destroy :: "'b late_ack_record \<Rightarrow> 'b list \<Rightarrow> 'b list" where
  "late_ack_record_destroy ack_rec log =
     (if bm_destroy (lar_bookmark ack_rec) then log @ [bm_container (lar_bookmark ack_rec)] else log)"

function drop_range_loop ::
    "'b late_ack_tracker \<Rightarrow> u32 \<Rightarrow> u32 \<Rightarrow> 'b late_ack_tracker option" where
  "drop_range_loop self n i =
     (if i < n then
        do {
          q \<leftarrow> ring_buffer_element_at (ack_record_storage self) i;
          p \<leftarrow> q;
          ack_rec \<leftarrow> ring_buffer_load (ack_record_storage self) p;
          let log = late_ack_record_destroy ack_rec (destroyed self);
          rb \<leftarrow> ring_buffer_store (ack_record_storage self) p
                 (ack_rec\<lparr>lar_acked := False,
                          lar_bookmark := (lar_bookmark ack_rec)\<lparr>bm_save := False, bm_destroy := False\<rparr>\<rparr>);
          drop_range_loop (self\<lparr>ack_record_storage := rb, destroyed := log\<rparr>) n (i + 1)
        }
      else Some self)"
  by pat_completeness auto
termination
proof (relation "measure (\<lambda>(self, n, i). unat n - unat i)", goal_cases)
  case (2 self n i)
  then have "unat i < unat n" by (simp add: word_less_nat_alt)
  moreover from this have "unat (i + 1) = unat i + 1"
    using unat_u32_less [of n] by (intro unat_add1_u32) simp
  ultimately show ?case by simp
qed simp

declare drop_range_loop.simps [simp del]

definition drop_range :: "'b late_ack_tracker \<Rightarrow> u32 \<Rightarrow> 'b late_ack_tracker option" where
  "drop_range self n = do {
     self \<leftarrow> drop_range_loop self n 0;
     (_, rb) \<leftarrow> ring_buffer_drop (ack_record_storage self) n;
     Some (self\<lparr>ack_record_storage := rb\<rparr>)
   }"

text \<open>The first component of the result is the \<open>ack_record\<close> pointer of the message.\<close>

definition late_ack_tracker_track_msg ::
    "'b late_ack_tracker \<Rightarrow> (u32 \<times> 'b late_ack_tracker) option" where
  "late_ack_tracker_track_msg self = do {
     p \<leftarrow> pending_ack_record self;
     let self = self\<lparr>source_refs := source_refs self + 1\<rparr>;
     (ack_rec, rb) \<leftarrow> ring_buffer_push (ack_record_storage self);
     g_assert (ack_rec = Some p);
     Some (p, self\<lparr>ack_record_storage := rb, pending_ack_record := None\<rparr>)
   }"

definition late_ack_tracker_manage_msg_ack ::
    "flow_env \<Rightarrow> 'b late_ack_tracker \<Rightarrow> u32 \<Rightarrow> ack_type \<Rightarrow> 'b late_ack_tracker option" where
  "late_ack_tracker_manage_msg_ack env self ack_record ack_type = do {
     ack_rec \<leftarrow> ring_buffer_load (ack_record_storage self) ack_record;
     rb \<leftarrow> ring_buffer_store (ack_record_storage self) ack_record (ack_rec\<lparr>lar_acked := True\<rparr>);
     let self = self\<lparr>ack_record_storage := rb\<rparr>;
     ack_range_length \<leftarrow> get_continuous_range_length self;
     self \<leftarrow>
       (if ack_range_length > 0 then
          do {
            last_in_range \<leftarrow> ring_buffer_element_at (ack_record_storage self) (ack_range_length - 1);
            self \<leftarrow>
              (if ack_type \<noteq> AT_ABORTED then
                 do {
                   p \<leftarrow> last_in_range;
                   ack_rec \<leftarrow> ring_buffer_load (ack_record_storage self) p;
                   g_assert (bm_save (lar_bookmark ack_rec));
                   Some (self\<lparr>saved := saved self @ [bm_container (lar_bookmark ack_rec)]\<rparr>)
                 }
               else Some self);
            self \<leftarrow> drop_range self ack_range_length;
            src \<leftarrow>
              (if ack_type = AT_SUSPENDED then log_source_flow_control_suspend env (source self)
               else log_source_flow_control_adjust env (source self) ack_range_length);
            Some (self\<lparr>source := src\<rparr>)
          }
        else Some self);
     Some (self\<lparr>msg_unrefs := msg_unrefs self + 1, source_refs := source_refs self - 1\<rparr>)
   }"

text \<open>\<open>state\<close> is the persist state of the configuration.\<close>

definition late_ack_tracker_request_bookmark ::
    "nat \<Rightarrow> 'b late_ack_tracker \<Rightarrow> (u32 option \<times> 'b late_ack_tracker) option" where
  "late_ack_tracker_request_bookmark state self = do {
     r \<leftarrow> ring_buffer_tail (ack_record_storage self);
     let self = self\<lparr>pending_ack_record := r\<rparr>;
     (case pending_ack_record self of
        Some p \<Rightarrow>
          do {
            ack_rec \<leftarrow> ring_buffer_load (ack_record_storage self) p;
            rb \<leftarrow> ring_buffer_store (ack_record_storage self) p
                   (ack_rec\<lparr>lar_bookmark := (lar_bookmark ack_rec)\<lparr>bm_persist_state := Some state\<rparr>,
                            lar_tracker := True\<rparr>);
            Some (Some p, self\<lparr>ack_record_storage := rb\<rparr>)
          }
      | None \<Rightarrow> Some (None, self))
   }"

text \<open>\<^verbatim>\<open>sizeof(LateAckRecord)\<close> with 8 byte pointers.\<close>

definition late_ack_record_size :: u32 where
  "late_ack_record_size = 168"

definition late_ack_record_zero :: "'b \<Rightarrow> 'b late_ack_record" where
  "late_ack_record_zero z =
     \<lparr>lar_tracker = False, lar_acked = False,
      lar_bookmark = \<lparr>bm_persist_state = None, bm_save = False, bm_destroy = False, bm_container = z\<rparr>\<rparr>"

definition ring_buffer_zero :: "'a ring_buffer" where
  "ring_buffer_zero =
     \<lparr>rb_buffer = None, rb_head = 0, rb_tail = 0, rb_count = 0, rb_capacity = 0, rb_element_size = 0\<rparr>"

definition late_ack_tracker_new :: "'b \<Rightarrow> log_source \<Rightarrow> 'b late_ack_tracker option" where
  "late_ack_tracker_new z src = do {
     rb \<leftarrow> ring_buffer_alloc (late_ack_record_zero z) ring_buffer_zero late_ack_record_size
            (init_window_size src);
     Some \<lparr>source = src, pending_ack_record = None, ack_record_storage = rb,
           source_refs = 0, msg_unrefs = 0, saved = [], destroyed = []\<rparr>
   }"

definition late_ack_tracker_free :: "'b late_ack_tracker \<Rightarrow> 'b late_ack_tracker option" where
  "late_ack_tracker_free self = do {
     self \<leftarrow> drop_range self (ring_buffer_count (ack_record_storage self));
     Some (self\<lparr>ack_record_storage := ring_buffer_free (ack_record_storage self)\<rparr>)
   }"

subsection \<open>The early tracker\<close>

text \<open>
  It has one acknowledgement record, whose bookmark is never saved: an acknowledgement only
  gives back one slot of the window.
\<close>

record early_ack_tracker =
  early_source :: log_source
  early_source_refs :: int
  early_msg_unrefs :: nat

definition early_ack_tracker_track_msg :: "early_ack_tracker \<Rightarrow> early_ack_tracker" where
  "early_ack_tracker_track_msg self = self\<lparr>early_source_refs := early_source_refs self + 1\<rparr>"

definition early_ack_tracker_manage_msg_ack ::
    "flow_env \<Rightarrow> early_ack_tracker \<Rightarrow> ack_type \<Rightarrow> early_ack_tracker option" where
  "early_ack_tracker_manage_msg_ack env self ack_type = do {
     src \<leftarrow>
       (if ack_type = AT_SUSPENDED then log_source_flow_control_suspend env (early_source self)
        else log_source_flow_control_adjust env (early_source self) 1);
     Some (self\<lparr>early_source := src, early_msg_unrefs := early_msg_unrefs self + 1,
                early_source_refs := early_source_refs self - 1\<rparr>)
   }"

definition early_ack_tracker_new :: "log_source \<Rightarrow> early_ack_tracker" where
  "early_ack_tracker_new src = \<lparr>early_source = src, early_source_refs = 0, early_msg_unrefs = 0\<rparr>"

text \<open>
  The part of \<^verbatim>\<open>log_source_queue\<close> that deals with flow control: the tracker registers the
  message, then a window slot is taken.
\<close>

definition late_source_queue :: "'b late_ack_tracker \<Rightarrow> (u32 \<times> 'b late_ack_tracker) option" where
  "late_source_queue self = do {
     (ack_record, self) \<leftarrow> late_ack_tracker_track_msg self;
     src \<leftarrow> log_source_take_window (source self);
     Some (ack_record, self\<lparr>source := src\<rparr>)
   }"

definition early_source_queue :: "early_ack_tracker \<Rightarrow> early_ack_tracker option" where
  "early_source_queue self = do {
     let self = early_ack_tracker_track_msg self;
     src \<leftarrow> log_source_take_window (early_source self);
     Some (self\<lparr>early_source := src\<rparr>)
   }"

text \<open>
  What a protocol does with the bookmark it is given: store the position of the message and set
  the callbacks.
\<close>

definition fill_bookmark ::
    "'b late_ack_tracker \<Rightarrow> u32 \<Rightarrow> 'b \<Rightarrow> bool \<Rightarrow> 'b late_ack_tracker option" where
  "fill_bookmark self p b d = do {
     ack_rec \<leftarrow> ring_buffer_load (ack_record_storage self) p;
     rb \<leftarrow> ring_buffer_store (ack_record_storage self) p
            (ack_rec\<lparr>lar_bookmark := (lar_bookmark ack_rec)
                       \<lparr>bm_container := b, bm_save := True, bm_destroy := d\<rparr>\<rparr>);
     Some (self\<lparr>ack_record_storage := rb\<rparr>)
   }"

text \<open>One message from the protocol to the pipeline.\<close>

definition late_receive ::
    "nat \<Rightarrow> 'b late_ack_tracker \<Rightarrow> 'b \<Rightarrow> bool \<Rightarrow> (u32 \<times> 'b late_ack_tracker) option" where
  "late_receive state self b d = do {
     (r, self) \<leftarrow> late_ack_tracker_request_bookmark state self;
     p \<leftarrow> r;
     self \<leftarrow> fill_bookmark self p b d;
     late_source_queue self
   }"

subsection \<open>Releasing a range of records\<close>

definition reset_record :: "'b late_ack_record \<Rightarrow> 'b late_ack_record" where
  "reset_record r =
     r\<lparr>lar_acked := False, lar_bookmark := (lar_bookmark r)\<lparr>bm_save := False, bm_destroy := False\<rparr>\<rparr>"

lemma reset_record_acked [simp]: "lar_acked (reset_record r) = False"
  by (simp add: reset_record_def)

definition destroy_log :: "'b late_ack_record list \<Rightarrow> 'b list" where
  "destroy_log rs = map (bm_container \<circ> lar_bookmark) (filter (bm_destroy \<circ> lar_bookmark) rs)"

lemma destroy_log_Cons: "log @ destroy_log (r # rs) = late_ack_record_destroy r log @ destroy_log rs"
  by (simp add: destroy_log_def late_ack_record_destroy_def)

definition storage_agrees :: "'a ring_buffer \<Rightarrow> 'a ring_buffer \<Rightarrow> bool" where
  "storage_agrees rb rb' \<longleftrightarrow>
     rb_wf rb' \<and> rb_count rb' = rb_count rb \<and> rb_capacity rb' = rb_capacity rb \<and> rb_ptr rb' = rb_ptr rb"

lemma drop_range_loop_ok:
  assumes "rb_wf (ack_record_storage self)"
    and "unat i \<le> unat n" and "unat n \<le> unat (rb_count (ack_record_storage self))"
  shows "\<exists>rb. drop_range_loop self n i =
      Some (self\<lparr>ack_record_storage := rb,
                 destroyed := destroyed self
                   @ destroy_log (map (rb_cell (ack_record_storage self)) [unat i..<unat n])\<rparr>)
    \<and> storage_agrees (ack_record_storage self) rb
    \<and> (\<forall>j < unat (rb_capacity (ack_record_storage self)).
         rb_cell rb j = (if unat i \<le> j \<and> j < unat n then reset_record (rb_cell (ack_record_storage self) j)
                         else rb_cell (ack_record_storage self) j))"
  using assms
proof (induction self n i rule: drop_range_loop.induct)
  case (1 self n i)
  let ?st = "ack_record_storage self"
  show ?case
  proof (cases "unat i < unat n")
    case True
    then have lt: "i < n" by (simp add: word_less_nat_alt)
    have i1: "unat (i + 1) = unat i + 1"
      using True unat_u32_less [of n] by (intro unat_add1_u32) simp
    have cap: "unat i < unat (rb_capacity ?st)"
      using True "1.prems" by (auto simp: rb_wf_def)
    have el: "ring_buffer_element_at ?st i = Some (Some (rb_ptr ?st (unat i)))"
      using True "1.prems" by (intro ring_buffer_element_at_ptr) auto
    have ld: "ring_buffer_load ?st (rb_ptr ?st (unat i)) = Some (rb_cell ?st (unat i))"
      using "1.prems"(1) by (rule ring_buffer_load_ptr)
    obtain rb1 where st: "ring_buffer_store ?st (rb_ptr ?st (unat i)) (reset_record (rb_cell ?st (unat i))) = Some rb1"
      and wf1: "rb_wf rb1" and c1: "rb_count rb1 = rb_count ?st" "rb_capacity rb1 = rb_capacity ?st"
        "rb_ptr rb1 = rb_ptr ?st"
      and cell1: "\<And>j. j < unat (rb_capacity ?st) \<Longrightarrow>
        rb_cell rb1 j = (if j = unat i then reset_record (rb_cell ?st (unat i)) else rb_cell ?st j)"
      using ring_buffer_store_ptr [OF "1.prems"(1) cap] by metis
    let ?self1 = "self\<lparr>ack_record_storage := rb1,
        destroyed := late_ack_record_destroy (rb_cell ?st (unat i)) (destroyed self)\<rparr>"
    have step: "drop_range_loop self n i = drop_range_loop ?self1 n (i + 1)"
      using lt el ld st by (subst drop_range_loop.simps) (simp add: reset_record_def)
    have IH: "\<exists>rb. drop_range_loop ?self1 n (i + 1) =
        Some (?self1\<lparr>ack_record_storage := rb,
                destroyed := destroyed ?self1 @ destroy_log (map (rb_cell rb1) [unat (i + 1)..<unat n])\<rparr>)
      \<and> storage_agrees rb1 rb
      \<and> (\<forall>j < unat (rb_capacity rb1).
           rb_cell rb j = (if unat (i + 1) \<le> j \<and> j < unat n then reset_record (rb_cell rb1 j)
                           else rb_cell rb1 j))"
      using "1.IH" [OF lt el refl ld refl, of rb1] st "1.prems" wf1 c1 i1 True
      by (simp add: reset_record_def cong: if_cong)
    have cells: "map (rb_cell rb1) [unat (i + 1)..<unat n] = map (rb_cell ?st) [unat (i + 1)..<unat n]"
      using cell1 "1.prems" i1 by (intro map_cong) (auto simp: rb_wf_def)
    have range: "[unat i..<unat n] = unat i # [unat (i + 1)..<unat n]"
      using True i1 by (simp add: upt_conv_Cons)
    have log: "destroyed ?self1 @ destroy_log (map (rb_cell rb1) [unat (i + 1)..<unat n]) =
        destroyed self @ destroy_log (map (rb_cell ?st) [unat i..<unat n])"
      unfolding cells range by (simp add: destroy_log_Cons)
    from IH obtain rb where "drop_range_loop ?self1 n (i + 1) =
        Some (self\<lparr>ack_record_storage := rb,
                   destroyed := destroyed self @ destroy_log (map (rb_cell ?st) [unat i..<unat n])\<rparr>)"
      and "storage_agrees rb1 rb"
      and "\<And>j. j < unat (rb_capacity rb1) \<Longrightarrow>
        rb_cell rb j = (if unat (i + 1) \<le> j \<and> j < unat n then reset_record (rb_cell rb1 j)
                        else rb_cell rb1 j)"
      unfolding log by auto
    then show ?thesis
      unfolding step using c1 cell1 i1 True
      by (intro exI [of _ rb]) (auto simp: storage_agrees_def)
  next
    case False
    then show ?thesis
      using "1.prems" by (subst drop_range_loop.simps)
        (auto simp: word_less_nat_alt storage_agrees_def destroy_log_def
         intro!: exI [of _ "ack_record_storage self"])
  qed
qed

lemma rb_cell_periodic: "rb_cell self (i + unat (rb_capacity self)) = rb_cell self i"
  by (simp add: rb_cell_def rb_slot_def add.assoc [symmetric])

text \<open>
  The storage between two calls: free records are not marked as acknowledged, and the records in
  use have a filled bookmark.
\<close>

definition late_storage_ok :: "'b late_ack_record ring_buffer \<Rightarrow> bool" where
  "late_storage_ok st \<longleftrightarrow>
     rb_wf st
     \<and> (\<forall>j. unat (rb_count st) \<le> j \<and> j < unat (rb_capacity st) \<longrightarrow> \<not> lar_acked (rb_cell st j))
     \<and> (\<forall>r \<in> set (rb_contents st). bm_save (lar_bookmark r))"

lemma storage_agrees_contents:
  assumes "storage_agrees st st'"
    and "\<And>j. j < unat (rb_count st) \<Longrightarrow> rb_cell st' j = f (rb_cell st j) j"
  shows "rb_contents st' = map (\<lambda>j. f (rb_contents st ! j) j) [0..<unat (rb_count st)]"
  using assms by (auto simp: rb_contents_cell storage_agrees_def)

lemma drop_range_ok:
  fixes self n
  defines "st \<equiv> ack_record_storage self"
  assumes wf: "rb_wf st" and n: "unat n \<le> unat (rb_count st)"
    and free: "\<forall>j. unat (rb_count st) \<le> j \<and> j < unat (rb_capacity st) \<longrightarrow> \<not> lar_acked (rb_cell st j)"
  shows "\<exists>rb. drop_range self n =
      Some (self\<lparr>ack_record_storage := rb,
                 destroyed := destroyed self @ destroy_log (take (unat n) (rb_contents st))\<rparr>)
    \<and> rb_wf rb \<and> rb_capacity rb = rb_capacity st
    \<and> rb_contents rb = drop (unat n) (rb_contents st)
    \<and> (\<forall>i. rb_ptr rb i = rb_ptr st (unat n + i))
    \<and> (\<forall>j. unat (rb_count rb) \<le> j \<and> j < unat (rb_capacity rb) \<longrightarrow> \<not> lar_acked (rb_cell rb j))"
proof -
  obtain rb1 where loop: "drop_range_loop self n 0 =
      Some (self\<lparr>ack_record_storage := rb1,
                 destroyed := destroyed self @ destroy_log (map (rb_cell st) [0..<unat n])\<rparr>)"
    and ag: "storage_agrees st rb1"
    and c1: "\<And>j. j < unat (rb_capacity st) \<Longrightarrow>
      rb_cell rb1 j = (if j < unat n then reset_record (rb_cell st j) else rb_cell st j)"
    using drop_range_loop_ok [of self 0 n] wf n by (auto simp: st_def)
  have n1: "unat n \<le> unat (rb_count rb1)" and wf1: "rb_wf rb1"
    using ag n by (simp_all add: storage_agrees_def)
  obtain rb where drop: "ring_buffer_drop rb1 n = Some (True, rb)"
    and wf2: "rb_wf rb" and cnt: "unat (rb_count rb) = unat (rb_count rb1) - unat n"
    and cap: "rb_capacity rb = rb_capacity rb1"
    and ptr: "\<And>i. rb_ptr rb i = rb_ptr rb1 (unat n + i)"
    and cell: "\<And>i. rb_cell rb i = rb_cell rb1 (unat n + i)"
    using ring_buffer_drop_ptr [OF wf1 n1] by blast
  have agD: "rb_count rb1 = rb_count st" "rb_capacity rb1 = rb_capacity st" "rb_ptr rb1 = rb_ptr st"
    using ag by (simp_all add: storage_agrees_def)
  have le: "unat (rb_count st) \<le> unat (rb_capacity st)" using wf by (simp add: rb_wf_def)
  have "rb_contents rb = drop (unat n) (rb_contents st)"
    using agD cnt cell c1 le
    by (intro nth_equalityI) (simp_all add: rb_contents_cell less_diff_conv)
  moreover have "\<not> lar_acked (rb_cell rb j)"
    if j: "unat (rb_count rb) \<le> j" "j < unat (rb_capacity rb)" for j
  proof (cases "unat n + j < unat (rb_capacity st)")
    case True
    then show ?thesis using j cell c1 free cnt agD by auto
  next
    case False
    then obtain m where m: "unat n + j = m + unat (rb_capacity rb1)"
      using agD by (metis add.commute le_Suc_ex not_less)
    then have "m < unat n" using j cap agD by simp
    then have "\<not> lar_acked (rb_cell rb1 m)" using c1 [of m] n le by simp
    then show ?thesis using cell [of j] m rb_cell_periodic [of rb1 m] by simp
  qed
  moreover have "take (unat n) (rb_contents st) = map (rb_cell st) [0..<unat n]"
    using n by (simp add: rb_contents_cell take_map)
  ultimately show ?thesis
    using loop drop wf2 cap ptr agD by (intro exI [of _ rb]) (auto simp: drop_range_def)
qed

subsection \<open>What an acknowledgement and a new message do\<close>

lemma ack_range_is_continuous_eq: "ack_range_is_continuous = lar_acked"
  by (simp add: fun_eq_iff ack_range_is_continuous_def)

definition mark_acked :: "'b late_ack_record list \<Rightarrow> nat \<Rightarrow> 'b late_ack_record list" where
  "mark_acked rs k = rs[k := (rs ! k)\<lparr>lar_acked := True\<rparr>]"

definition released :: "'b late_ack_record list \<Rightarrow> nat" where
  "released rs = length (takeWhile lar_acked rs)"

text \<open>The flow control call that follows the release of \<open>n\<close> records.\<close>

definition late_flow_control ::
    "flow_env \<Rightarrow> log_source \<Rightarrow> ack_type \<Rightarrow> nat \<Rightarrow> log_source option" where
  "late_flow_control env src t n =
     (if n = 0 then Some src
      else if t = AT_SUSPENDED then log_source_flow_control_suspend env src
      else log_source_flow_control_adjust env src (of_nat n))"

lemma store_acked:
  assumes ok: "late_storage_ok st" and k: "k < unat (rb_count st)"
  obtains st' where "ring_buffer_store st (rb_ptr st k) ((rb_cell st k)\<lparr>lar_acked := True\<rparr>) = Some st'"
    and "late_storage_ok st'" and "rb_contents st' = mark_acked (rb_contents st) k"
    and "storage_agrees st st'"
proof -
  have wf: "rb_wf st" and le: "unat (rb_count st) \<le> unat (rb_capacity st)"
    using ok by (simp_all add: late_storage_ok_def rb_wf_def)
  have kc: "k < unat (rb_capacity st)" using k le by simp
  obtain st' where st: "ring_buffer_store st (rb_ptr st k) ((rb_cell st k)\<lparr>lar_acked := True\<rparr>) = Some st'"
    and ag: "storage_agrees st st'"
    and c: "\<And>j. j < unat (rb_capacity st) \<Longrightarrow>
      rb_cell st' j = (if j = k then (rb_cell st k)\<lparr>lar_acked := True\<rparr> else rb_cell st j)"
    using ring_buffer_store_ptr [OF wf kc] unfolding storage_agrees_def by metis
  have cont: "rb_contents st' = mark_acked (rb_contents st) k"
    using ag c k le by (intro nth_equalityI)
      (auto simp: rb_contents_cell storage_agrees_def mark_acked_def nth_list_update)
  have "bm_save (lar_bookmark r)" if "r \<in> set (rb_contents st')" for r
    using that ok k
    by (auto simp: cont mark_acked_def late_storage_ok_def all_set_conv_all_nth in_set_conv_nth
        nth_list_update)
  moreover have "\<not> lar_acked (rb_cell st' j)"
    if "unat (rb_count st') \<le> j" and "j < unat (rb_capacity st')" for j
    using that ag c k ok by (auto simp: storage_agrees_def late_storage_ok_def)
  ultimately have "late_storage_ok st'" using ag by (auto simp: late_storage_ok_def storage_agrees_def)
  then show thesis using that st cont ag by blast
qed

lemma manage_msg_ack_ok:
  fixes self k
  defines "st \<equiv> ack_record_storage self"
  defines "rs \<equiv> mark_acked (rb_contents st) k"
  assumes ok: "late_storage_ok st" and k: "k < unat (rb_count st)"
  shows "\<exists>self'. late_ack_tracker_manage_msg_ack env self (rb_ptr st k) t =
        map_option (\<lambda>src. self'\<lparr>source := src\<rparr>)
          (late_flow_control env (source self) t (released rs))
    \<and> late_storage_ok (ack_record_storage self')
    \<and> rb_capacity (ack_record_storage self') = rb_capacity st
    \<and> rb_contents (ack_record_storage self') = drop (released rs) rs
    \<and> (\<forall>i. rb_ptr (ack_record_storage self') i = rb_ptr st (released rs + i))
    \<and> saved self' = saved self @
        (if released rs = 0 \<or> t = AT_ABORTED then []
         else [bm_container (lar_bookmark (rs ! (released rs - 1)))])
    \<and> destroyed self' = destroyed self @ destroy_log (take (released rs) rs)
    \<and> msg_unrefs self' = msg_unrefs self + 1 \<and> source_refs self' = source_refs self - 1"
proof -
  obtain st1 where store: "ring_buffer_store st (rb_ptr st k) ((rb_cell st k)\<lparr>lar_acked := True\<rparr>) = Some st1"
    and ok1: "late_storage_ok st1" and cont1: "rb_contents st1 = rs" and ag: "storage_agrees st st1"
    using store_acked [OF ok k] unfolding rs_def by blast
  let ?n = "released rs"
  let ?self1 = "self\<lparr>ack_record_storage := st1\<rparr>"
  have wf1: "rb_wf st1" using ok1 by (simp add: late_storage_ok_def)
  have load: "ring_buffer_load st (rb_ptr st k) = Some (rb_cell st k)"
    using ok by (intro ring_buffer_load_ptr) (simp add: late_storage_ok_def)
  have range: "get_continuous_range_length ?self1 = Some (of_nat ?n)"
    using continual_range_length [OF wf1] cont1
    by (simp add: get_continuous_range_length_def released_def ack_range_is_continuous_eq)
  have len: "length rs = unat (rb_count st1)" using cont1 by (metis length_rb_contents)
  have nle: "?n \<le> unat (rb_count st1)"
    unfolding len [symmetric] released_def by (rule length_takeWhile_le)
  have n32: "?n < 2 ^ 32" using nle unat_u32_less [of "rb_count st1"] by simp
  then have un: "unat (of_nat ?n :: u32) = ?n" by (simp add: unsigned_of_nat take_bit_eq_mod)
  show ?thesis
  proof (cases "?n = 0")
    case True
    let ?self' = "self\<lparr>ack_record_storage := st1, msg_unrefs := msg_unrefs self + 1,
        source_refs := source_refs self - 1\<rparr>"
    show ?thesis
      using True load store range ok1 cont1 ag
      by (intro exI [of _ ?self']) (auto simp: late_ack_tracker_manage_msg_ack_def st_def
          late_flow_control_def storage_agrees_def destroy_log_def)
  next
    case False
    have last: "unat (of_nat ?n - 1 :: u32) = ?n - 1"
      using un False by (subst unat_sub_u32) simp_all
    have el: "ring_buffer_element_at st1 (of_nat ?n - 1) = Some (Some (rb_ptr st1 (?n - 1)))"
      using ring_buffer_element_at_ptr [OF wf1, of "of_nat ?n - 1"] last nle False by simp
    have cell: "rb_cell st1 (?n - 1) = rs ! (?n - 1)"
      using cont1 nle False by (auto simp: rb_contents_cell)
    have save: "bm_save (lar_bookmark (rs ! (?n - 1)))"
      using ok1 cont1 nle False len by (auto simp: late_storage_ok_def)
    let ?sv = "saved self @ (if t = AT_ABORTED then [] else [bm_container (lar_bookmark (rs ! (?n - 1)))])"
    have "\<exists>rb. drop_range (?self1\<lparr>saved := ?sv\<rparr>) (of_nat ?n) =
        Some (?self1\<lparr>saved := ?sv, ack_record_storage := rb,
                     destroyed := destroyed self @ destroy_log (take ?n rs)\<rparr>)
      \<and> rb_wf rb \<and> rb_capacity rb = rb_capacity st1 \<and> rb_contents rb = drop ?n rs
      \<and> (\<forall>i. rb_ptr rb i = rb_ptr st1 (?n + i))
      \<and> (\<forall>j. unat (rb_count rb) \<le> j \<and> j < unat (rb_capacity rb) \<longrightarrow> \<not> lar_acked (rb_cell rb j))"
      using drop_range_ok [of "?self1\<lparr>saved := ?sv\<rparr>" "of_nat ?n"] ok1 un nle cont1
      by (auto simp: late_storage_ok_def)
    then obtain rb where drop: "drop_range (?self1\<lparr>saved := ?sv\<rparr>) (of_nat ?n) =
        Some (?self1\<lparr>saved := ?sv, ack_record_storage := rb,
                     destroyed := destroyed self @ destroy_log (take ?n rs)\<rparr>)"
      and rb: "rb_wf rb" "rb_capacity rb = rb_capacity st1" "rb_contents rb = drop ?n rs"
        "\<And>i. rb_ptr rb i = rb_ptr st1 (?n + i)"
        "\<And>j. unat (rb_count rb) \<le> j \<Longrightarrow> j < unat (rb_capacity rb) \<Longrightarrow> \<not> lar_acked (rb_cell rb j)"
      by auto
    have okr: "late_storage_ok rb"
      using rb ok1 cont1 by (auto simp: late_storage_ok_def dest: in_set_dropD)
    have pos: "(0 :: u32) < of_nat ?n" using un False by (simp add: word_less_nat_alt)
    let ?self' = "?self1\<lparr>saved := ?sv, ack_record_storage := rb,
        destroyed := destroyed self @ destroy_log (take ?n rs),
        msg_unrefs := msg_unrefs self + 1, source_refs := source_refs self - 1\<rparr>"
    have "late_ack_tracker_manage_msg_ack env self (rb_ptr st k) t =
        map_option (\<lambda>src. ?self'\<lparr>source := src\<rparr>) (late_flow_control env (source self) t ?n)"
      using load store range el cell save drop False pos ring_buffer_load_ptr [OF wf1]
      by (cases "late_flow_control env (source self) t ?n")
        (auto simp: late_ack_tracker_manage_msg_ack_def st_def late_flow_control_def
           split: if_splits)
    then show ?thesis using okr rb ag False
      by (intro exI [of _ ?self']) (auto simp: storage_agrees_def)
  qed
qed

lemma update_free_record:
  assumes ok: "late_storage_ok st" and room: "unat (rb_count st) < unat (rb_capacity st)"
    and r: "lar_acked r = lar_acked (rb_cell st (unat (rb_count st)))"
  obtains st' where "ring_buffer_store st (rb_ptr st (unat (rb_count st))) r = Some st'"
    and "late_storage_ok st'" and "rb_contents st' = rb_contents st" and "storage_agrees st st'"
    and "rb_cell st' (unat (rb_count st)) = r"
proof -
  have wf: "rb_wf st" using ok by (simp add: late_storage_ok_def)
  obtain st' where st: "ring_buffer_store st (rb_ptr st (unat (rb_count st))) r = Some st'"
    and ag: "storage_agrees st st'"
    and c: "\<And>j. j < unat (rb_capacity st) \<Longrightarrow>
      rb_cell st' j = (if j = unat (rb_count st) then r else rb_cell st j)"
    using ring_buffer_store_ptr [OF wf room] unfolding storage_agrees_def by metis
  have cont: "rb_contents st' = rb_contents st"
    using ag c room by (intro nth_equalityI) (auto simp: rb_contents_cell storage_agrees_def)
  have "\<not> lar_acked (rb_cell st' j)"
    if "unat (rb_count st') \<le> j" and "j < unat (rb_capacity st')" for j
    using that ag c r ok by (auto simp: storage_agrees_def late_storage_ok_def)
  then have "late_storage_ok st'"
    using ag ok by (auto simp: late_storage_ok_def storage_agrees_def cont)
  then show thesis using that st cont ag c [OF room] by simp
qed

lemma late_receive_ok:
  fixes self
  defines "st \<equiv> ack_record_storage self"
  assumes ok: "late_storage_ok st" and room: "unat (rb_count st) < unat (rb_capacity st)"
    and win: "0 < sint (window_size (source self))"
  shows "\<exists>self' r. late_receive ps self b d = Some (rb_ptr st (unat (rb_count st)), self')
    \<and> late_storage_ok (ack_record_storage self')
    \<and> rb_capacity (ack_record_storage self') = rb_capacity st
    \<and> rb_contents (ack_record_storage self') = rb_contents st @ [r]
    \<and> \<not> lar_acked r \<and> bm_container (lar_bookmark r) = b \<and> bm_save (lar_bookmark r)
    \<and> rb_ptr (ack_record_storage self') = rb_ptr st
    \<and> source self' = (source self)\<lparr>window_size := window_size (source self) - 1\<rparr>
    \<and> saved self' = saved self \<and> source_refs self' = source_refs self + 1"
proof -
  let ?c = "unat (rb_count st)" and ?p = "rb_ptr st (unat (rb_count st))"
  have wf: "rb_wf st" using ok by (simp add: late_storage_ok_def)
  let ?r1 = "(rb_cell st ?c)\<lparr>lar_bookmark := (lar_bookmark (rb_cell st ?c))\<lparr>bm_persist_state := Some ps\<rparr>,
                            lar_tracker := True\<rparr>"
  obtain st1 where s1: "ring_buffer_store st ?p ?r1 = Some st1"
    and ok1: "late_storage_ok st1" and c1: "rb_contents st1 = rb_contents st"
    and a1: "storage_agrees st st1" and e1: "rb_cell st1 ?c = ?r1"
    using update_free_record [OF ok room, of ?r1] by auto
  let ?r2 = "?r1\<lparr>lar_bookmark := (lar_bookmark ?r1)\<lparr>bm_container := b, bm_save := True, bm_destroy := d\<rparr>\<rparr>"
  have cc: "rb_count st1 = rb_count st" "rb_capacity st1 = rb_capacity st" "rb_ptr st1 = rb_ptr st"
    using a1 by (simp_all add: storage_agrees_def)
  obtain st2 where s2: "ring_buffer_store st1 ?p ?r2 = Some st2"
    and ok2: "late_storage_ok st2" and c2: "rb_contents st2 = rb_contents st"
    and a2: "storage_agrees st st2" and e2: "rb_cell st2 ?c = ?r2"
    using update_free_record [OF ok1, of ?r2] room cc c1 a1 e1
    by (auto simp: storage_agrees_def)
  have wf1: "rb_wf st1" and wf2: "rb_wf st2" using ok1 ok2 by (simp_all add: late_storage_ok_def)
  have room2: "unat (rb_count st2) < unat (rb_capacity st2)" and cnt2: "rb_count st2 = rb_count st"
    and ptr2: "rb_ptr st2 = rb_ptr st" and cap2: "rb_capacity st2 = rb_capacity st"
    using a2 room by (simp_all add: storage_agrees_def)
  obtain st3 where push: "ring_buffer_push st2 = Some (Some ?p, st3)"
    and wf3: "rb_wf st3" and cnt3: "unat (rb_count st3) = ?c + 1"
    and cap3: "rb_capacity st3 = rb_capacity st" and ptr3: "rb_ptr st3 = rb_ptr st"
    and cell3: "rb_cell st3 = rb_cell st2"
    using ring_buffer_push_ptr [OF wf2 room2] cnt2 ptr2 cap2 by metis
  have cont3: "rb_contents st3 = rb_contents st @ [?r2]"
    using c2 cnt2 cnt3 cell3 e2 by (simp add: rb_contents_cell)
  have ok3: "late_storage_ok st3"
    using ok2 wf3 cnt2 cnt3 cap2 cap3 cell3 cont3 c2 by (auto simp: late_storage_ok_def)
  have tail: "ring_buffer_tail st = Some (Some ?p)"
    using wf room by (rule ring_buffer_tail_ptr)
  have nack: "\<not> lar_acked (rb_cell st ?c)" using ok room by (auto simp: late_storage_ok_def)
  show ?thesis
    using tail s1 s2 push win ok3 cap3 ptr3 cont3 nack e1 cc
      ring_buffer_load_ptr [OF wf] ring_buffer_load_ptr [OF wf1, of ?c]
    by (simp add: late_receive_def late_ack_tracker_request_bookmark_def fill_bookmark_def
        late_source_queue_def late_ack_tracker_track_msg_def log_source_take_window_def st_def Let_def)
qed

subsection \<open>A source with a late tracker as a state machine\<close>

text \<open>
  The reader fetches a message only while the source is free to send
  (\<open>log_source_free_to_send\<close>); any message that was handed over may be acknowledged next, once,
  with any acknowledgement type.  \<open>history\<close> holds the positions of all messages received so far,
  \<open>ack_records\<close> the pointers they were given, \<open>acked_msgs\<close> which of them are acknowledged.
\<close>

record 'b late_system =
  tracker :: "'b late_ack_tracker"
  ack_records :: "u32 list"
  history :: "'b list"
  acked_msgs :: "nat set"

definition late_system_init :: "'b late_ack_tracker \<Rightarrow> 'b late_system" where
  "late_system_init tr = \<lparr>tracker = tr, ack_records = [], history = [], acked_msgs = {}\<rparr>"

inductive late_step :: "'b late_system \<Rightarrow> 'b late_system \<Rightarrow> bool" where
  receive: "late_step s (s\<lparr>tracker := tr, ack_records := ack_records s @ [p], history := history s @ [b]\<rparr>)"
    if "log_source_free_to_send (source (tracker s))"
      and "late_receive ps (tracker s) b d = Some (p, tr)"
| ack: "late_step s (s\<lparr>tracker := tr, acked_msgs := insert k (acked_msgs s)\<rparr>)"
    if "k < length (ack_records s)" and "k \<notin> acked_msgs s"
      and "late_ack_tracker_manage_msg_ack env (tracker s) (ack_records s ! k) t = Some tr"

inductive late_reachable :: "'b \<Rightarrow> log_source \<Rightarrow> 'b late_system \<Rightarrow> bool" for z src where
  start: "late_ack_tracker_new z src = Some tr \<Longrightarrow> late_reachable z src (late_system_init tr)"
| step: "late_reachable z src s \<Longrightarrow> late_step s t \<Longrightarrow> late_reachable z src t"

definition in_flight :: "'b late_system \<Rightarrow> 'b late_ack_record list" where
  "in_flight s = rb_contents (ack_record_storage (tracker s))"

definition base :: "'b late_system \<Rightarrow> nat" where
  "base s = length (history s) - length (in_flight s)"

text \<open>
  The invariant: the records in flight are the last messages of the history, in order; every
  older message is acknowledged and the oldest one in flight is not; what was saved are positions
  of released messages in increasing order; the window and the messages in flight together never
  exceed the capacity.
\<close>

definition late_inv :: "'b late_system \<Rightarrow> bool" where
  "late_inv s \<longleftrightarrow>
     late_storage_ok (ack_record_storage (tracker s))
     \<and> length (ack_records s) = length (history s)
     \<and> length (in_flight s) \<le> length (history s)
     \<and> (\<forall>i < length (in_flight s).
          ack_records s ! (base s + i) = rb_ptr (ack_record_storage (tracker s)) i
          \<and> bm_container (lar_bookmark (in_flight s ! i)) = history s ! (base s + i)
          \<and> (lar_acked (in_flight s ! i) \<longleftrightarrow> base s + i \<in> acked_msgs s))
     \<and> {..<base s} \<subseteq> acked_msgs s \<and> acked_msgs s \<subseteq> {..<length (history s)}
     \<and> (in_flight s \<noteq> [] \<longrightarrow> \<not> lar_acked (hd (in_flight s)))
     \<and> (\<exists>idx. saved (tracker s) = map (nth (history s)) idx \<and> sorted_wrt (<) idx
              \<and> set idx \<subseteq> {..<base s})"

definition late_window_ok :: "'b late_system \<Rightarrow> bool" where
  "late_window_ok s \<longleftrightarrow>
     0 \<le> sint (window_size (source (tracker s)))
     \<and> sint (window_size (source (tracker s))) + int (length (in_flight s))
         \<le> int (unat (rb_capacity (ack_record_storage (tracker s))))"

lemma late_new_ok:
  assumes "late_ack_tracker_new z src = Some tr"
    and "0 < sint (init_window_size src)" and "sint (init_window_size src) < 2 ^ 24"
  shows "late_storage_ok (ack_record_storage tr)" and "rb_contents (ack_record_storage tr) = []"
    and "rb_capacity (ack_record_storage tr) = init_window_size src"
    and "source tr = src" and "saved tr = []"
proof -
  have u: "int (unat (init_window_size src)) = sint (init_window_size src)"
    using assms(2) by (intro unat_i32) simp
  have "sint (init_window_size src) < 16777216" using assms(3) by simp
  with u have b: "0 < unat (init_window_size src)" "unat (init_window_size src) < 16777216"
    using assms(2) by linarith+
  obtain rb where rb: "ring_buffer_alloc (late_ack_record_zero z) ring_buffer_zero late_ack_record_size
        (init_window_size src) = Some rb" "rb_wf rb" "rb_contents rb = []"
      "rb_capacity rb = init_window_size src" "rb_element_size rb = late_ack_record_size"
    using ring_buffer_alloc_wf [of late_ack_record_size "init_window_size src"
        "late_ack_record_zero z" ring_buffer_zero] b
    by (auto simp: late_ack_record_size_def)
  have buf: "the (rb_buffer rb) = replicate (unat (init_window_size src)) (late_ack_record_zero z)"
    using rb(1,2,4) rb_wfD(2,3) [OF rb(2)]
    by (auto simp: ring_buffer_alloc_def split: if_splits)
  have "\<not> lar_acked (rb_cell rb j)" for j
    using buf rb_slot_less [OF rb(2), of j] rb(4) by (simp add: rb_cell_def late_ack_record_zero_def)
  then show "late_storage_ok (ack_record_storage tr)" and "rb_contents (ack_record_storage tr) = []"
    and "rb_capacity (ack_record_storage tr) = init_window_size src"
    and "source tr = src" and "saved tr = []"
    using assms(1) rb by (auto simp: late_ack_tracker_new_def late_storage_ok_def)
qed

lemma late_init_inv:
  assumes "late_ack_tracker_new z src = Some tr"
    and "0 < sint (init_window_size src)" and "sint (init_window_size src) < 2 ^ 24"
  shows "late_inv (late_system_init tr)"
  using late_new_ok [OF assms] by (simp add: late_inv_def late_system_init_def in_flight_def base_def)

lemma late_receive_contents:
  assumes inv: "late_inv s" and win: "late_window_ok s"
    and free: "log_source_free_to_send (source (tracker s))"
    and rec: "late_receive ps (tracker s) b d = Some (p, tr)"
  shows "\<exists>r. rb_contents (ack_record_storage tr) = in_flight s @ [r]"
proof -
  have w: "0 < sint (window_size (source (tracker s)))"
    using free by (simp add: log_source_free_to_send_def log_source_is_window_full_def)
  have "unat (rb_count (ack_record_storage (tracker s))) < unat (rb_capacity (ack_record_storage (tracker s)))"
    using win w unfolding late_window_ok_def in_flight_def length_rb_contents by linarith
  then show ?thesis
    using late_receive_ok [OF _ _ w, of ps b d] inv rec by (auto simp: late_inv_def in_flight_def)
qed

lemma late_receive_inv:
  assumes inv: "late_inv s" and win: "late_window_ok s"
    and free: "log_source_free_to_send (source (tracker s))"
    and rec: "late_receive ps (tracker s) b d = Some (p, tr)"
  defines "t \<equiv> s\<lparr>tracker := tr, ack_records := ack_records s @ [p], history := history s @ [b]\<rparr>"
  shows "late_inv t" and "late_window_ok t"
    and "rb_capacity (ack_record_storage tr) = rb_capacity (ack_record_storage (tracker s))"
proof -
  let ?st = "ack_record_storage (tracker s)"
  have w: "0 < sint (window_size (source (tracker s)))"
    using free by (simp add: log_source_free_to_send_def log_source_is_window_full_def)
  have ok: "late_storage_ok ?st" using inv by (simp add: late_inv_def)
  have room: "unat (rb_count ?st) < unat (rb_capacity ?st)"
    using win w unfolding late_window_ok_def in_flight_def length_rb_contents by linarith
  obtain r where p: "p = rb_ptr ?st (unat (rb_count ?st))"
    and ok': "late_storage_ok (ack_record_storage tr)"
    and cap: "rb_capacity (ack_record_storage tr) = rb_capacity ?st"
    and cont: "rb_contents (ack_record_storage tr) = rb_contents ?st @ [r]"
    and r: "\<not> lar_acked r" "bm_container (lar_bookmark r) = b"
    and ptr: "rb_ptr (ack_record_storage tr) = rb_ptr ?st"
    and src: "source tr = (source (tracker s))\<lparr>window_size := window_size (source (tracker s)) - 1\<rparr>"
    and sv: "saved tr = saved (tracker s)"
    using late_receive_ok [OF ok room w, of ps b d] rec by auto
  show "rb_capacity (ack_record_storage tr) = rb_capacity ?st" by (rule cap)
  have fl: "in_flight t = in_flight s @ [r]" and base: "base t = base s"
    using cont by (simp_all add: t_def in_flight_def base_def)
  have len: "base s + length (in_flight s) = length (history s)"
    using inv by (simp add: late_inv_def base_def)
  have idx: "\<exists>idx. saved (tracker t) = map (nth (history t)) idx \<and> sorted_wrt (<) idx \<and> set idx \<subseteq> {..<base t}"
  proof -
    obtain idx where "saved (tracker s) = map (nth (history s)) idx" "sorted_wrt (<) idx"
      "set idx \<subseteq> {..<base s}" using inv by (auto simp: late_inv_def)
    moreover from this have "map (nth (history s)) idx = map (nth (history s @ [b])) idx"
      using len by (intro map_cong) (auto simp: nth_append)
    ultimately show ?thesis using sv base by (auto simp: t_def)
  qed
  have elems: "ack_records t ! (base t + i) = rb_ptr (ack_record_storage tr) i
      \<and> bm_container (lar_bookmark (in_flight t ! i)) = history t ! (base t + i)
      \<and> (lar_acked (in_flight t ! i) \<longleftrightarrow> base t + i \<in> acked_msgs t)"
    if "i < length (in_flight t)" for i
  proof (cases "i < length (in_flight s)")
    case True
    then show ?thesis using inv len fl base ptr by (auto simp: late_inv_def t_def nth_append)
  next
    case False
    then have i: "i = length (in_flight s)" using that fl by simp
    have "length (history s) \<notin> acked_msgs s" using inv by (auto simp: late_inv_def)
    then show ?thesis using inv len fl base ptr p r i
      by (auto simp: late_inv_def t_def nth_append in_flight_def)
  qed
  show "late_inv t"
    using inv ok' cont fl base idx elems len r
    by (auto simp: late_inv_def t_def hd_append)
  have "sint (window_size (source (tracker s)) - 1) = sint (window_size (source (tracker s))) - 1"
    using w sint_range_i32 [of "window_size (source (tracker s))"]
    by (subst sint_diff_i32) simp_all
  then show "late_window_ok t" using win w fl src cap by (simp add: late_window_ok_def t_def)
qed

lemma late_flow_control_window:
  assumes "late_flow_control env src t n = Some src'" and "n < 2 ^ 24"
    and "0 \<le> sint (window_size src)" and "sint (window_size src) < 2 ^ 24"
  shows "sint (window_size src') = sint (window_size src) +
    (if n = 0 then 0 else if t = AT_SUSPENDED then 1 else int n)"
proof -
  let ?k = "if n = 0 then 0 else if t = AT_SUSPENDED then 1 else n"
  have "window_size src' = window_size src + of_nat ?k"
    using assms(1) flow_control_adjust_window(1) flow_control_suspend_window(1)
    by (auto simp: late_flow_control_def split: if_splits)
  moreover have "sint (of_nat ?k :: i32) = int ?k" using assms(2) by (intro sint_of_nat_i32) simp
  moreover have "sint (window_size src + of_nat ?k) = sint (window_size src) + sint (of_nat ?k :: i32)"
    using assms(2-4) calculation(2) by (intro sint_add_i32) simp_all
  ultimately show ?thesis by simp
qed

lemma in_flight_index:
  assumes inv: "late_inv s" and k: "k < length (ack_records s)" and new: "k \<notin> acked_msgs s"
  obtains i where "k = base s + i" and "i < length (in_flight s)"
    and "ack_records s ! k = rb_ptr (ack_record_storage (tracker s)) i"
proof -
  have "base s \<le> k" using inv new by (auto simp: late_inv_def not_less [symmetric])
  then obtain i where i: "k = base s + i" by (auto simp: le_iff_add)
  have "base s + length (in_flight s) = length (history s)"
    using inv by (simp add: late_inv_def base_def)
  with i k inv have "i < length (in_flight s)" by (simp add: late_inv_def)
  with i inv that show thesis by (simp add: late_inv_def)
qed

lemma late_ack_inv:
  assumes inv: "late_inv s" and k: "k < length (ack_records s)" and new: "k \<notin> acked_msgs s"
    and ret: "late_ack_tracker_manage_msg_ack env (tracker s) (ack_records s ! k) ty = Some tr"
  defines "t \<equiv> s\<lparr>tracker := tr, acked_msgs := insert k (acked_msgs s)\<rparr>"
  defines "n \<equiv> released (mark_acked (in_flight s) (k - base s))"
  shows "late_inv t" and "late_flow_control env (source (tracker s)) ty n = Some (source tr)"
    and "n + length (in_flight t) = length (in_flight s)"
    and "rb_capacity (ack_record_storage tr) = rb_capacity (ack_record_storage (tracker s))"
    and "base t = base s + n"
proof -
  let ?st = "ack_record_storage (tracker s)"
  obtain i where i: "k = base s + i" "i < length (in_flight s)"
    and ptr_k: "ack_records s ! k = rb_ptr ?st i"
    using in_flight_index [OF inv k new] .
  let ?rs = "mark_acked (in_flight s) i"
  have n: "n = released ?rs" using i by (simp add: n_def)
  have ok: "late_storage_ok ?st" and ic: "i < unat (rb_count ?st)"
    using inv i by (simp_all add: late_inv_def in_flight_def)
  have eq: "mark_acked (rb_contents ?st) i = ?rs" by (simp add: in_flight_def)
  obtain self' where m: "late_ack_tracker_manage_msg_ack env (tracker s) (rb_ptr ?st i) ty =
        map_option (\<lambda>src. self'\<lparr>source := src\<rparr>) (late_flow_control env (source (tracker s)) ty n)"
    and ok1: "late_storage_ok (ack_record_storage self')"
    and cap1: "rb_capacity (ack_record_storage self') = rb_capacity ?st"
    and cont1: "rb_contents (ack_record_storage self') = drop n ?rs"
    and ptr1: "\<And>j. rb_ptr (ack_record_storage self') j = rb_ptr ?st (n + j)"
    and sv1: "saved self' = saved (tracker s) @
        (if n = 0 \<or> ty = AT_ABORTED then [] else [bm_container (lar_bookmark (?rs ! (n - 1)))])"
    using manage_msg_ack_ok [OF ok ic, of env ty] unfolding eq n [symmetric] by blast
  from ret m ptr_k obtain src
    where fc: "late_flow_control env (source (tracker s)) ty n = Some src"
      and tr: "tr = self'\<lparr>source := src\<rparr>" by auto
  have src: "source tr = src" and ok': "late_storage_ok (ack_record_storage tr)"
    and cap: "rb_capacity (ack_record_storage tr) = rb_capacity ?st"
    and cont: "in_flight t = drop n ?rs"
    and ptr: "\<And>j. rb_ptr (ack_record_storage tr) j = rb_ptr ?st (n + j)"
    and sv: "saved tr = saved (tracker s) @
        (if n = 0 \<or> ty = AT_ABORTED then [] else [bm_container (lar_bookmark (?rs ! (n - 1)))])"
    using tr ok1 cap1 cont1 ptr1 sv1 by (simp_all add: t_def in_flight_def)
  show "late_flow_control env (source (tracker s)) ty n = Some (source tr)" using fc src by simp
  show "rb_capacity (ack_record_storage tr) = rb_capacity ?st" by (rule cap)
  have lrs: "length ?rs = length (in_flight s)" by (simp add: mark_acked_def)
  have nle: "n \<le> length (in_flight s)"
    unfolding n released_def lrs [symmetric] by (rule length_takeWhile_le)
  then show len: "n + length (in_flight t) = length (in_flight s)" using cont lrs by simp
  have tot: "base s + length (in_flight s) = length (history s)"
    using inv by (simp add: late_inv_def base_def)
  show base: "base t = base s + n" using len tot by (simp add: base_def t_def)
  have acked_rs: "lar_acked (?rs ! j) \<longleftrightarrow> base s + j \<in> insert k (acked_msgs s)"
    and cont_rs: "bm_container (lar_bookmark (?rs ! j)) = history s ! (base s + j)"
    if "j < length (in_flight s)" for j
    using inv i that by (auto simp: late_inv_def mark_acked_def nth_list_update)
  have taken: "base s + j \<in> insert k (acked_msgs s)" if "j < n" for j
  proof -
    have "lar_acked (takeWhile lar_acked ?rs ! j)"
      using that set_takeWhileD [of "takeWhile lar_acked ?rs ! j" lar_acked ?rs]
      by (auto simp: n released_def)
    then have "lar_acked (?rs ! j)" using that by (simp add: n released_def takeWhile_nth)
    then show ?thesis using acked_rs that nle by simp
  qed
  have "\<not> lar_acked (hd (in_flight t))" if "in_flight t \<noteq> []"
  proof -
    have "in_flight t = dropWhile lar_acked ?rs"
      by (simp add: cont n released_def dropWhile_eq_drop)
    then show ?thesis using that hd_dropWhile [of lar_acked ?rs] by simp
  qed
  moreover have "{..<base t} \<subseteq> acked_msgs t"
  proof
    fix m assume "m \<in> {..<base t}"
    then have "m < base s \<or> (\<exists>j < n. m = base s + j)"
      unfolding base by (cases "m < base s") (auto intro!: exI [of _ "m - base s"])
    then show "m \<in> acked_msgs t" using taken inv by (auto simp: late_inv_def t_def)
  qed
  moreover have "\<exists>idx. saved (tracker t) = map (nth (history t)) idx \<and> sorted_wrt (<) idx
      \<and> set idx \<subseteq> {..<base t}"
  proof -
    obtain idx where idx: "saved (tracker s) = map (nth (history s)) idx" "sorted_wrt (<) idx"
      "set idx \<subseteq> {..<base s}" using inv by (auto simp: late_inv_def)
    show ?thesis
    proof (cases "n = 0 \<or> ty = AT_ABORTED")
      case True
      then show ?thesis using idx sv base by (auto simp: t_def intro!: exI [of _ idx])
    next
      case False
      then have "saved tr = map (nth (history s)) (idx @ [base s + (n - 1)])"
        using idx sv cont_rs [of "n - 1"] nle by (cases n) simp_all
      moreover have "sorted_wrt (<) (idx @ [base s + (n - 1)])"
        using idx by (auto simp: sorted_wrt_append)
      moreover have "set (idx @ [base s + (n - 1)]) \<subseteq> {..<base t}"
        using idx False base by auto
      ultimately show ?thesis
        by (intro exI [of _ "idx @ [base s + (n - 1)]"]) (simp add: t_def)
    qed
  qed
  moreover have "ack_records t ! (base t + j) = rb_ptr (ack_record_storage tr) j
      \<and> bm_container (lar_bookmark (in_flight t ! j)) = history t ! (base t + j)
      \<and> (lar_acked (in_flight t ! j) \<longleftrightarrow> base t + j \<in> acked_msgs t)"
    if "j < length (in_flight t)" for j
    using that len inv cont ptr acked_rs [of "n + j"] cont_rs [of "n + j"] lrs
    unfolding base by (simp add: late_inv_def t_def add.assoc)
  ultimately show "late_inv t"
    using ok' inv len k by (auto simp: late_inv_def t_def)
qed

text \<open>
  The window lies between 0 and the capacity, and with the messages in flight it stays within
  the capacity: an acknowledgement gives back at most as many slots as it releases records.
\<close>

lemma late_ack_window:
  assumes inv: "late_inv s" and win: "late_window_ok s"
    and small: "unat (rb_capacity (ack_record_storage (tracker s))) < 2 ^ 24"
    and k: "k < length (ack_records s)" "k \<notin> acked_msgs s"
    and ret: "late_ack_tracker_manage_msg_ack env (tracker s) (ack_records s ! k) ty = Some tr"
  defines "t \<equiv> s\<lparr>tracker := tr, acked_msgs := insert k (acked_msgs s)\<rparr>"
  defines "n \<equiv> released (mark_acked (in_flight s) (k - base s))"
  shows "late_window_ok t"
    and "sint (window_size (source tr)) + int (length (in_flight t)) =
      sint (window_size (source (tracker s))) + int (length (in_flight s))
      - (if ty = AT_SUSPENDED \<and> n > 0 then int n - 1 else 0)"
proof -
  note a = late_ack_inv [OF inv k ret, folded t_def n_def]
  let ?cap = "int (unat (rb_capacity (ack_record_storage (tracker s))))"
  have "unat (rb_capacity (ack_record_storage (tracker s))) < 16777216" using small by simp
  then have c: "?cap < 16777216" by linarith
  have w: "0 \<le> sint (window_size (source (tracker s)))"
    and wl: "sint (window_size (source (tracker s))) + int (length (in_flight s)) \<le> ?cap"
    using win by (simp_all add: late_window_ok_def)
  have "sint (window_size (source tr)) = sint (window_size (source (tracker s))) +
      (if n = 0 then 0 else if ty = AT_SUSPENDED then 1 else int n)"
  proof (rule late_flow_control_window [OF a(2)])
    show "n < 2 ^ 24" and "sint (window_size (source (tracker s))) < 2 ^ 24"
      using wl w c a(3) by simp_all
  qed (rule w)
  moreover have "int n + int (length (in_flight t)) = int (length (in_flight s))"
    using a(3) by linarith
  ultimately show eq: "sint (window_size (source tr)) + int (length (in_flight t)) =
      sint (window_size (source (tracker s))) + int (length (in_flight s))
      - (if ty = AT_SUSPENDED \<and> n > 0 then int n - 1 else 0)"
    and "late_window_ok t"
    using a(4) w wl by (auto simp: late_window_ok_def t_def split: if_splits)
qed

definition late_inv_full :: "nat \<Rightarrow> 'b late_system \<Rightarrow> bool" where
  "late_inv_full n s \<longleftrightarrow>
     late_inv s \<and> late_window_ok s \<and> unat (rb_capacity (ack_record_storage (tracker s))) = n"

lemma late_step_inv:
  assumes "late_step s t" and "late_inv_full n s" and "n < 2 ^ 24"
  shows "late_inv_full n t"
  using assms(1)
proof cases
  case (receive ps b d p tr)
  then show ?thesis
    using late_receive_inv [of s ps b d p tr] assms(2) by (simp add: late_inv_full_def)
next
  case (ack k env ty tr)
  then show ?thesis
    using late_ack_inv [of s k env ty tr] late_ack_window [of s k env ty tr] assms(2,3)
    by (simp add: late_inv_full_def)
qed

lemma late_reachable_inv:
  assumes "late_reachable z src s"
    and "0 < sint (init_window_size src)" and "sint (init_window_size src) < 2 ^ 24"
    and "window_size src = init_window_size src"
  shows "late_inv_full (unat (init_window_size src)) s"
  using assms(1)
proof (induction rule: late_reachable.induct)
  case (start tr)
  have "int (unat (init_window_size src)) = sint (init_window_size src)"
    using assms(2) by (intro unat_i32) simp
  then show ?case
    using late_init_inv [OF start assms(2,3)] late_new_ok [OF start assms(2,3)] assms(2,4)
    by (auto simp: late_inv_full_def late_window_ok_def late_system_init_def in_flight_def)
next
  case (step s t)
  have "int (unat (init_window_size src)) = sint (init_window_size src)"
    using assms(2) by (intro unat_i32) simp
  moreover have "sint (init_window_size src) < 16777216" using assms(3) by simp
  ultimately have "unat (init_window_size src) < 16777216" by linarith
  then show ?case using late_step_inv [OF step.hyps(2) step.IH] by simp
qed

lemma late_capacity_small:
  assumes "late_reachable z src s"
    and "0 < sint (init_window_size src)" and "sint (init_window_size src) < 2 ^ 24"
    and "window_size src = init_window_size src"
  shows "unat (rb_capacity (ack_record_storage (tracker s))) < 2 ^ 24"
proof -
  have "int (unat (init_window_size src)) = sint (init_window_size src)"
    using assms(2) by (intro unat_i32) simp
  moreover have "sint (init_window_size src) < 16777216" using assms(3) by simp
  ultimately have "unat (init_window_size src) < 16777216" by linarith
  then show ?thesis using late_reachable_inv [OF assms] by (simp add: late_inv_full_def)
qed

subsection \<open>Executions\<close>

datatype 'b late_event = Receive 'b bool | Ack nat ack_type

fun late_exec :: "nat \<Rightarrow> flow_env \<Rightarrow> 'b late_system \<Rightarrow> 'b late_event \<Rightarrow> 'b late_system option" where
  "late_exec ps env s (Receive b d) =
     (if log_source_free_to_send (source (tracker s)) then
        do {
          (p, tr) \<leftarrow> late_receive ps (tracker s) b d;
          Some (s\<lparr>tracker := tr, ack_records := ack_records s @ [p], history := history s @ [b]\<rparr>)
        }
      else None)"
| "late_exec ps env s (Ack k t) =
     (if k < length (ack_records s) \<and> k \<notin> acked_msgs s then
        do {
          tr \<leftarrow> late_ack_tracker_manage_msg_ack env (tracker s) (ack_records s ! k) t;
          Some (s\<lparr>tracker := tr, acked_msgs := insert k (acked_msgs s)\<rparr>)
        }
      else None)"

fun late_run :: "nat \<Rightarrow> flow_env \<Rightarrow> 'b late_system \<Rightarrow> 'b late_event list \<Rightarrow> 'b late_system option" where
  "late_run ps env s [] = Some s"
| "late_run ps env s (e # es) = Option.bind (late_exec ps env s e) (\<lambda>s. late_run ps env s es)"

definition late_demo :: "i32 \<Rightarrow> nat late_event list \<Rightarrow> nat late_system option" where
  "late_demo w es = do {
     tr \<leftarrow> late_ack_tracker_new 0 (fresh_source w);
     late_run 0 fresh_env (late_system_init tr) es
   }"

lemma late_exec_step: "late_exec ps env s e = Some t \<Longrightarrow> late_step s t"
  by (cases e) (auto simp: bind_eq_Some_conv intro: late_step.intros split: if_splits)

lemma late_run_reachable:
  "late_run ps env s es = Some t \<Longrightarrow> late_reachable z src s \<Longrightarrow> late_reachable z src t"
proof (induction es arbitrary: s)
  case (Cons e es)
  then obtain s' where ex: "late_exec ps env s e = Some s'" and run: "late_run ps env s' es = Some t"
    by (auto simp: bind_eq_Some_conv)
  have "late_reachable z src s'"
    using Cons.prems(2) late_exec_step [OF ex] by (rule late_reachable.step)
  with run show ?case by (rule Cons.IH)
qed simp

lemma late_demo_reachable:
  "late_demo w es = Some s \<Longrightarrow> late_reachable 0 (fresh_source w) s"
  by (auto simp: late_demo_def bind_eq_Some_conv intro: late_run_reachable late_reachable.start)

subsection \<open>Properties of the late tracker\<close>

lemma fresh_source_window:
  "init_window_size (fresh_source n) = n" "window_size (fresh_source n) = n"
  by (simp_all add: fresh_source_def)

text \<open>
  C1: The position that is persisted never passes a message that is not acknowledged yet.  The
  bookmarks saved so far are those of messages with increasing index in the order of reception,
  and when the bookmark of message \<open>i\<close> has been saved, all messages up to and including \<open>i\<close> are
  acknowledged, whatever the order in which the destinations acknowledge.
\<close>

theorem late_saves_only_acknowledged_prefixes:
  assumes "late_reachable z src s"
    and "0 < sint (init_window_size src)" and "sint (init_window_size src) < 2 ^ 24"
    and "window_size src = init_window_size src"
  shows "\<exists>idx. saved (tracker s) = map (nth (history s)) idx \<and> sorted_wrt (<) idx
    \<and> (\<forall>i \<in> set idx. i < length (history s) \<and> {..i} \<subseteq> acked_msgs s)"
proof -
  have inv: "late_inv s" using late_reachable_inv [OF assms] by (simp add: late_inv_full_def)
  then obtain idx where "saved (tracker s) = map (nth (history s)) idx" "sorted_wrt (<) idx"
    and sub: "set idx \<subseteq> {..<base s}" by (auto simp: late_inv_def)
  moreover have "i < length (history s) \<and> {..i} \<subseteq> acked_msgs s" if "i \<in> set idx" for i
  proof -
    have acked: "{..<base s} \<subseteq> acked_msgs s" "acked_msgs s \<subseteq> {..<length (history s)}"
      using inv by (simp_all add: late_inv_def)
    have "{..i} \<subseteq> {..<base s}" using that sub by auto
    then show ?thesis using acked by blast
  qed
  ultimately show ?thesis by blast
qed

theorem late_saves_only_acknowledged_prefixes_witness:
  "\<exists>s idx. late_demo 3 [Receive 10 False, Receive 11 False, Receive 12 False,
               Ack 1 AT_PROCESSED, Ack 0 AT_PROCESSED] = Some s
     \<and> saved (tracker s) = [11] \<and> saved (tracker s) = map (nth (history s)) idx
     \<and> sorted_wrt (<) idx \<and> (\<forall>i \<in> set idx. i < length (history s) \<and> {..i} \<subseteq> acked_msgs s)"
proof -
  let ?es = "[Receive 10 False, Receive 11 False, Receive 12 False,
              Ack 1 AT_PROCESSED, Ack 0 AT_PROCESSED]"
  have "map_option (\<lambda>s. saved (tracker s)) (late_demo 3 ?es) = Some [11]" by code_simp
  then obtain s where s: "late_demo 3 ?es = Some s" and sv: "saved (tracker s) = [11]" by auto
  have "\<exists>idx. saved (tracker s) = map (nth (history s)) idx \<and> sorted_wrt (<) idx
      \<and> (\<forall>i \<in> set idx. i < length (history s) \<and> {..i} \<subseteq> acked_msgs s)"
    by (rule late_saves_only_acknowledged_prefixes [OF late_demo_reachable [OF s]])
      (simp_all add: fresh_source_window)
  with s sv show ?thesis by blast
qed

text \<open>
  C8: The window of a source with a late tracker is never negative and, together with the
  messages in flight, never exceeds its initial size.
\<close>

theorem late_window_bounded:
  assumes "late_reachable z src s"
    and "0 < sint (init_window_size src)" and "sint (init_window_size src) < 2 ^ 24"
    and "window_size src = init_window_size src"
  shows "0 \<le> sint (window_size (source (tracker s)))
    \<and> sint (window_size (source (tracker s))) + int (length (in_flight s)) \<le> sint (init_window_size src)"
proof -
  have "int (unat (init_window_size src)) = sint (init_window_size src)"
    using assms(2) by (intro unat_i32) simp
  moreover have "unat (rb_capacity (ack_record_storage (tracker s))) = unat (init_window_size src)"
    and "late_window_ok s"
    using late_reachable_inv [OF assms] by (simp_all add: late_inv_full_def)
  ultimately show ?thesis unfolding late_window_ok_def by linarith
qed

theorem late_window_bounded_witness:
  "\<exists>s. late_demo 2 [Receive 10 False] = Some s
     \<and> 0 \<le> sint (window_size (source (tracker s)))
     \<and> sint (window_size (source (tracker s))) + int (length (in_flight s)) \<le> 2"
proof -
  have "map_option (\<lambda>s. saved (tracker s)) (late_demo 2 [Receive 10 False]) = Some []" by code_simp
  then obtain s where s: "late_demo 2 [Receive 10 False] = Some s" by auto
  from late_window_bounded [OF late_demo_reachable [OF s]] s show ?thesis
    by (auto simp: fresh_source_window)
qed

text \<open>
  C10: While the source is free to send, receiving a message succeeds: the tracker has a free
  record for its bookmark and none of the assertions of \<open>late_ack_tracker_track_msg\<close> and
  \<open>log_source_queue\<close> fails.
\<close>

theorem late_receive_never_aborts:
  assumes "late_reachable z src s"
    and "0 < sint (init_window_size src)" and "sint (init_window_size src) < 2 ^ 24"
    and "window_size src = init_window_size src"
    and "log_source_free_to_send (source (tracker s))"
  shows "\<exists>p tr. late_receive ps (tracker s) b d = Some (p, tr)"
proof -
  have inv: "late_inv s" and win: "late_window_ok s"
    using late_reachable_inv [OF assms(1-4)] by (simp_all add: late_inv_full_def)
  have w: "0 < sint (window_size (source (tracker s)))"
    using assms(5) by (simp add: log_source_free_to_send_def log_source_is_window_full_def)
  have "unat (rb_count (ack_record_storage (tracker s))) < unat (rb_capacity (ack_record_storage (tracker s)))"
    using win w unfolding late_window_ok_def in_flight_def length_rb_contents by linarith
  then show ?thesis
    using late_receive_ok [OF _ _ w, of ps b d] inv by (auto simp: late_inv_def)
qed

theorem late_receive_never_aborts_witness:
  "\<exists>s p tr. late_demo 2 [Receive 10 False] = Some s \<and> late_receive 0 (tracker s) 11 True = Some (p, tr)"
proof -
  have "map_option (\<lambda>s. log_source_free_to_send (source (tracker s))) (late_demo 2 [Receive 10 False]) = Some True"
    by code_simp
  then obtain s where s: "late_demo 2 [Receive 10 False] = Some s"
    and free: "log_source_free_to_send (source (tracker s))" by auto
  from late_receive_never_aborts [OF late_demo_reachable [OF s], of 0 11 True] free s show ?thesis
    by (auto simp: fresh_source_window)
qed

text \<open>
  C6: What one acknowledgement does to the window.  For processed and aborted messages exactly
  the released records are returned, so the window and the messages in flight keep their sum.  For
  a suspended message only one slot is returned although the whole continuous range is released:
  \<open>n - 1\<close> slots of the window are lost for good.
\<close>

theorem late_ack_window_accounting:
  assumes "late_reachable z src s"
    and "0 < sint (init_window_size src)" and "sint (init_window_size src) < 2 ^ 24"
    and "window_size src = init_window_size src"
    and "k < length (ack_records s)" and "k \<notin> acked_msgs s"
    and "late_ack_tracker_manage_msg_ack env (tracker s) (ack_records s ! k) ty = Some tr"
    and "n = released (mark_acked (in_flight s) (k - base s))"
  shows "sint (window_size (source tr)) + int (length (rb_contents (ack_record_storage tr))) =
      sint (window_size (source (tracker s))) + int (length (in_flight s))
      - (if ty = AT_SUSPENDED \<and> n > 0 then int n - 1 else 0)"
proof -
  have "late_inv s" and "late_window_ok s"
    using late_reachable_inv [OF assms(1-4)] by (simp_all add: late_inv_full_def)
  from late_ack_window(2) [OF this late_capacity_small [OF assms(1-4)] assms(5-7)] assms(8)
  show ?thesis by (simp add: in_flight_def cong: if_cong)
qed

theorem late_ack_window_accounting_witness:
  "\<exists>s tr. late_demo 2 [Receive 10 False, Receive 11 False, Ack 1 AT_PROCESSED] = Some s
     \<and> late_ack_tracker_manage_msg_ack fresh_env (tracker s) (ack_records s ! 0) AT_SUSPENDED = Some tr
     \<and> sint (window_size (source (tracker s))) + int (length (in_flight s)) = 2
     \<and> sint (window_size (source tr)) + int (length (rb_contents (ack_record_storage tr))) = 1"
proof -
  let ?d = "late_demo 2 [Receive 10 False, Receive 11 False, Ack 1 AT_PROCESSED]"
  have "map_option (\<lambda>s. (0 < length (ack_records s), 0 \<in> acked_msgs s,
      sint (window_size (source (tracker s))) + int (length (in_flight s)),
      late_ack_tracker_manage_msg_ack fresh_env (tracker s) (ack_records s ! 0) AT_SUSPENDED = None,
      released (mark_acked (in_flight s) (0 - base s)))) ?d = Some (True, False, 2, False, 2)"
    by code_simp
  then obtain s tr where s: "?d = Some s"
    and l: "0 < length (ack_records s)" "0 \<notin> acked_msgs s"
    and w: "sint (window_size (source (tracker s))) + int (length (in_flight s)) = 2"
    and tr: "late_ack_tracker_manage_msg_ack fresh_env (tracker s) (ack_records s ! 0) AT_SUSPENDED = Some tr"
    and n: "2 = released (mark_acked (in_flight s) (0 - base s))" by auto
  from late_ack_window_accounting [OF late_demo_reachable [OF s] _ _ _ l tr n] w s tr show ?thesis
    by (auto simp: fresh_source_window)
qed

lemma late_ack_releases_window:
  assumes inv: "late_inv s" and win: "late_window_ok s"
    and small: "unat (rb_capacity (ack_record_storage (tracker s))) < 2 ^ 24"
    and k: "k < length (ack_records s)" "k \<notin> acked_msgs s"
    and ret: "late_ack_tracker_manage_msg_ack env (tracker s) (ack_records s ! k) ty = Some tr"
    and empty: "rb_contents (ack_record_storage tr) = []"
  shows "0 < sint (window_size (source tr))"
proof -
  obtain i where i: "i < length (in_flight s)" using in_flight_index [OF inv k] by blast
  define n where "n = released (mark_acked (in_flight s) (k - base s))"
  have "n + 0 = length (in_flight s)"
    using late_ack_inv(3) [OF inv k ret] empty by (simp add: n_def in_flight_def)
  moreover have "sint (window_size (source tr)) =
      sint (window_size (source (tracker s))) + int (length (in_flight s))
      - (if ty = AT_SUSPENDED \<and> n > 0 then int n - 1 else 0)"
    using late_ack_window(2) [OF inv win small k ret] empty by (simp add: n_def in_flight_def)
  ultimately show ?thesis using i win by (auto simp: late_window_ok_def split: if_splits)
qed

text \<open>
  C24: The window does not close for good: whenever no message is in flight, at least one slot is
  available, so a source that is not suspended can go on reading.
\<close>

theorem late_window_reopens:
  assumes "late_reachable z src s"
    and "0 < sint (init_window_size src)" and "sint (init_window_size src) < 2 ^ 24"
    and "window_size src = init_window_size src"
    and "in_flight s = []"
  shows "0 < sint (window_size (source (tracker s)))"
  using assms(1,5)
proof (induction rule: late_reachable.induct)
  case (start tr)
  then show ?case using late_new_ok [OF start(1) assms(2,3)] assms(2,4) by (simp add: late_system_init_def)
next
  case (step s t)
  have inv: "late_inv s" "late_window_ok s"
    using late_reachable_inv [OF step.hyps(1) assms(2-4)] by (simp_all add: late_inv_full_def)
  note small = late_capacity_small [OF step.hyps(1) assms(2-4)]
  from step.hyps(2) show ?case
  proof cases
    case (receive ps b d p tr)
    then obtain r where "rb_contents (ack_record_storage tr) = in_flight s @ [r]"
      using late_receive_contents [OF inv receive(2,3)] by blast
    then show ?thesis using receive step.prems by (simp add: in_flight_def)
  next
    case (ack k env ty tr)
    then show ?thesis
      using late_ack_releases_window [OF inv small] step.prems by (auto simp: in_flight_def)
  qed
qed

theorem late_window_reopens_witness:
  "\<exists>s. late_demo 2 [Receive 10 False, Receive 11 False, Ack 1 AT_PROCESSED, Ack 0 AT_SUSPENDED] = Some s
     \<and> in_flight s = [] \<and> 0 < sint (window_size (source (tracker s)))"
proof -
  let ?d = "late_demo 2 [Receive 10 False, Receive 11 False, Ack 1 AT_PROCESSED, Ack 0 AT_SUSPENDED]"
  have "map_option (\<lambda>s. in_flight s = []) ?d = Some True" by code_simp
  then obtain s where s: "?d = Some s" and e: "in_flight s = []" by auto
  from late_window_reopens [OF late_demo_reachable [OF s] _ _ _ e] s e show ?thesis
    by (auto simp: fresh_source_window)
qed

subsection \<open>Properties of the early tracker\<close>

datatype early_event = Queue | Early_Ack ack_type

fun early_run :: "flow_env \<Rightarrow> early_ack_tracker \<Rightarrow> early_event list \<Rightarrow> early_ack_tracker option" where
  "early_run env tr [] = Some tr"
| "early_run env tr (Queue # es) = Option.bind (early_source_queue tr) (\<lambda>tr. early_run env tr es)"
| "early_run env tr (Early_Ack t # es) =
     Option.bind (early_ack_tracker_manage_msg_ack env tr t) (\<lambda>tr. early_run env tr es)"

fun outstanding :: "early_event list \<Rightarrow> int" where
  "outstanding [] = 0"
| "outstanding (Queue # es) = 1 + outstanding es"
| "outstanding (Early_Ack t # es) = outstanding es - 1"

lemma early_queue_window:
  "early_source_queue tr = Some tr' \<Longrightarrow>
     window_size (early_source tr') = window_size (early_source tr) - 1
     \<and> early_source_refs tr' = early_source_refs tr + 1"
  by (auto simp: early_source_queue_def early_ack_tracker_track_msg_def log_source_take_window_def)

lemma early_ack_window:
  "early_ack_tracker_manage_msg_ack env tr t = Some tr' \<Longrightarrow>
     window_size (early_source tr') = window_size (early_source tr) + 1
     \<and> early_source_refs tr' = early_source_refs tr - 1"
  by (auto simp: early_ack_tracker_manage_msg_ack_def bind_eq_Some_conv
      flow_control_adjust_window flow_control_suspend_window split: if_splits)

text \<open>
  C28: A source with an early tracker never loses window slots: after any sequence of messages
  and acknowledgements, of any type, the window is the initial window minus the messages that
  are not acknowledged, and the references held on the source are exactly those messages.
\<close>

theorem early_window_conserved:
  assumes "early_run env tr es = Some tr'"
  shows "window_size (early_source tr') = window_size (early_source tr) - of_int (outstanding es)
    \<and> early_source_refs tr' = early_source_refs tr + outstanding es"
  using assms
proof (induction env tr es rule: early_run.induct)
  case (2 env tr es)
  then obtain tr1 where "early_source_queue tr = Some tr1" and "early_run env tr1 es = Some tr'"
    by (auto simp: bind_eq_Some_conv)
  with "2.IH" show ?case by (auto dest: early_queue_window)
next
  case (3 env tr t es)
  then obtain tr1 where "early_ack_tracker_manage_msg_ack env tr t = Some tr1"
    and "early_run env tr1 es = Some tr'"
    by (auto simp: bind_eq_Some_conv)
  with "3.IH" show ?case by (auto dest: early_ack_window)
qed simp

theorem early_window_conserved_witness:
  "\<exists>tr. early_run fresh_env (early_ack_tracker_new (fresh_source 5))
         [Queue, Queue, Early_Ack AT_SUSPENDED] = Some tr
     \<and> window_size (early_source tr) = 4 \<and> early_source_refs tr = 1"
proof -
  let ?es = "[Queue, Queue, Early_Ack AT_SUSPENDED]"
  have "early_run fresh_env (early_ack_tracker_new (fresh_source 5)) ?es \<noteq> None" by code_simp
  then obtain tr where r: "early_run fresh_env (early_ack_tracker_new (fresh_source 5)) ?es = Some tr"
    by auto
  from early_window_conserved [OF r] r show ?thesis
    by (auto simp: early_ack_tracker_new_def fresh_source_def)
qed

end
