(* ===== verification/Log_Queue.thy ===== *)
theory Log_Queue
  imports Log_Source "HOL-Library.Multiset"
begin

text \<open>
  The destination queue of lib/logqueue.h, lib/logqueue.c and
  lib/logqueue-fifo.c: per-thread input queues, the locked wait queue, the
  output queue and the backlog, with the virtual methods of the base class and
  the throttle.  Intrusive lists are lists of nodes; the length counters the
  code keeps beside them are separate fields, the 16 bit one of an input queue
  at its width.  Calls into other objects (reference and acknowledgement
  operations on messages, notifications, callback registration) are recorded
  in order in the field \<open>queue_calls\<close>.  The mutex is not modelled: each
  method is one atomic step.
\<close>

subsection \<open>State\<close>

record path_options =
  po_ack_needed :: bool
  po_flow_control_requested :: bool

record 'm queue_node =
  node_msg :: 'm
  node_ack_needed :: bool
  node_flow_control_requested :: bool

record 'm input_queue =
  inq_items :: "'m queue_node list"
  inq_len :: u16
  inq_finish_cb_registered :: bool

datatype 'm queue_call =
    Msg_ref 'm
  | Msg_unref 'm
  | Msg_ack 'm bool ack_type
  | Register_batch_callback nat
  | Call_notify nat "nat option"
  | Call_destroy nat nat
  | Queue_freed

record gtimeval =
  gtv_sec :: int
  gtv_usec :: int

record 'm log_queue =
  queue_ref_cnt :: int
  use_backlog :: bool
  throttle :: int
  throttle_buckets :: int
  last_throttle_check :: gtimeval
  stored_messages :: "u32 option"
  dropped_messages :: "u32 option"
  parallel_push_notify :: "nat option"
  parallel_push_data :: "nat option"
  parallel_push_data_destroy :: "nat option"
  qoverflow_output :: "'m queue_node list"
  qoverflow_wait :: "'m queue_node list"
  qoverflow_wait_len :: int
  qoverflow_output_len :: int
  qoverflow_size :: int
  qbacklog :: "'m queue_node list"
  qbacklog_len :: int
  qoverflow_input :: "'m input_queue list"
  queue_calls :: "'m queue_call list"

definition calls :: "'m queue_call list \<Rightarrow> 'm log_queue \<Rightarrow> 'm log_queue" where
  "calls cs self = self\<lparr>queue_calls := queue_calls self @ cs\<rparr>"

text \<open>The value of a 64 bit expression assigned to a \<open>gint\<close>.\<close>

definition to_gint :: "int \<Rightarrow> int" where
  "to_gint x = signed_take_bit 31 x"

definition stats_counter_add :: "u32 option \<Rightarrow> int \<Rightarrow> u32 option" where
  "stats_counter_add counter a = map_option (\<lambda>v. v + of_int a) counter"

definition stats_counter_inc :: "u32 option \<Rightarrow> u32 option" where
  "stats_counter_inc counter = map_option (\<lambda>v. v + 1) counter"

definition stats_counter_dec :: "u32 option \<Rightarrow> u32 option" where
  "stats_counter_dec counter = map_option (\<lambda>v. v - 1) counter"

definition stats_counter_set :: "u32 option \<Rightarrow> u32 \<Rightarrow> u32 option" where
  "stats_counter_set counter value = map_option (\<lambda>_. value) counter"

definition g_time_val_diff :: "gtimeval \<Rightarrow> gtimeval \<Rightarrow> int" where
  "g_time_val_diff t1 t2 =
     (gtv_sec t1 - gtv_sec t2) * 1000000 + (gtv_usec t1 - gtv_usec t2)"

text \<open>
  A queue node takes a reference to the message; where the node lives (inside
  the message or on the heap) is not modelled.
\<close>

definition log_msg_init_queue_node :: "'m \<Rightarrow> path_options \<Rightarrow> 'm queue_node" where
  "log_msg_init_queue_node msg po =
     \<lparr>node_msg = msg, node_ack_needed = po_ack_needed po,
      node_flow_control_requested = po_flow_control_requested po\<rparr>"

definition log_msg_drop_calls :: "'m \<Rightarrow> bool \<Rightarrow> ack_type \<Rightarrow> 'm queue_call list" where
  "log_msg_drop_calls msg ack_needed t = [Msg_ack msg ack_needed t, Msg_unref msg]"

subsection \<open>The FIFO queue\<close>

definition log_queue_fifo_get_length :: "'m log_queue \<Rightarrow> int" where
  "log_queue_fifo_get_length self = qoverflow_wait_len self + qoverflow_output_len self"

definition log_queue_fifo_is_empty_racy :: "'m log_queue \<Rightarrow> bool" where
  "log_queue_fifo_is_empty_racy self =
     (\<not> (if log_queue_fifo_get_length self > 0 then True
         else list_ex inq_finish_cb_registered (qoverflow_input self)))"

definition log_queue_fifo_keep_on_reload :: "'m log_queue \<Rightarrow> bool" where
  "log_queue_fifo_keep_on_reload self =
     (log_queue_fifo_get_length self > 0 \<or> qbacklog_len self > 0)"

text \<open>Dropping the first \<open>n\<close> messages of an input queue that does not fit.\<close>

fun drop_input ::
  "nat \<Rightarrow> nat \<Rightarrow> 'm log_queue \<Rightarrow> 'm log_queue option" where
  "drop_input 0 tid self = Some self"
| "drop_input (Suc n) tid self =
     (case inq_items (qoverflow_input self ! tid) of
        [] \<Rightarrow> None
      | node # rest \<Rightarrow>
          let inq = qoverflow_input self ! tid;
              self = self\<lparr>qoverflow_input := (qoverflow_input self)
                [tid := inq\<lparr>inq_items := rest, inq_len := inq_len inq - 1\<rparr>],
                dropped_messages := stats_counter_inc (dropped_messages self)\<rparr>
          in drop_input n tid
               (calls (log_msg_drop_calls (node_msg node) (node_ack_needed node)
                  (if node_flow_control_requested node then AT_SUSPENDED else AT_PROCESSED))
                  self))"

text \<open>Splicing an input queue to the end of the wait queue.\<close>

definition splice_input :: "'m log_queue \<Rightarrow> nat \<Rightarrow> 'm log_queue" where
  "splice_input self tid =
     (let inq = qoverflow_input self ! tid
      in self\<lparr>
        stored_messages := stats_counter_add (stored_messages self) (int (unat (inq_len inq))),
        qoverflow_wait := qoverflow_wait self @ inq_items inq,
        qoverflow_wait_len := qoverflow_wait_len self + int (unat (inq_len inq)),
        qoverflow_input := (qoverflow_input self)
          [tid := inq\<lparr>inq_items := [], inq_len := 0\<rparr>]\<rparr>)"

definition log_queue_fifo_move_input_unlocked ::
    "'m log_queue \<Rightarrow> nat \<Rightarrow> 'm log_queue option" where
  "log_queue_fifo_move_input_unlocked self tid =
     (if tid < length (qoverflow_input self) then
        let queue_len = log_queue_fifo_get_length self;
            len = int (unat (inq_len (qoverflow_input self ! tid)))
        in do {
          self \<leftarrow> (if queue_len + len > qoverflow_size self
                   then drop_input (nat (len - max 0 (qoverflow_size self - queue_len))) tid self
                   else Some self);
          Some (splice_input self tid)
        }
      else None)"

definition log_queue_push_notify :: "'m log_queue \<Rightarrow> 'm log_queue" where
  "log_queue_push_notify self =
     (case parallel_push_notify self of
        None \<Rightarrow> self
      | Some func \<Rightarrow>
          let destroy = parallel_push_data_destroy self;
              user_data = parallel_push_data self;
              self = self\<lparr>parallel_push_data := None, parallel_push_data_destroy := None,
                          parallel_push_notify := None\<rparr>
          in calls (Call_notify func user_data #
               (case (destroy, user_data) of
                  (Some d, Some u) \<Rightarrow> [Call_destroy d u] | _ \<Rightarrow> [])) self)"

definition free_queue_calls :: "'m queue_node list \<Rightarrow> 'm queue_call list" where
  "free_queue_calls q = concat (map (\<lambda>node.
     [Msg_ack (node_msg node) (node_ack_needed node) AT_ABORTED, Msg_unref (node_msg node)]) q)"

definition log_queue_fifo_free :: "'m log_queue \<Rightarrow> 'm log_queue" where
  "log_queue_fifo_free self =
     calls (concat (map (\<lambda>inq. free_queue_calls (inq_items inq)) (qoverflow_input self))
            @ free_queue_calls (qoverflow_wait self) @ free_queue_calls (qoverflow_output self)
            @ free_queue_calls (qbacklog self) @ [Queue_freed])
       (self\<lparr>qoverflow_input := map (\<lambda>inq. inq\<lparr>inq_items := []\<rparr>) (qoverflow_input self),
             qoverflow_wait := [], qoverflow_output := [], qbacklog := []\<rparr>)"

definition log_queue_ref :: "'m log_queue \<Rightarrow> 'm log_queue option" where
  "log_queue_ref self = do {
     g_assert (queue_ref_cnt self > 0);
     Some (self\<lparr>queue_ref_cnt := queue_ref_cnt self + 1\<rparr>)
   }"

definition log_queue_unref :: "'m log_queue \<Rightarrow> 'm log_queue option" where
  "log_queue_unref self = do {
     g_assert (queue_ref_cnt self \<noteq> 0);
     let self' = self\<lparr>queue_ref_cnt := queue_ref_cnt self - 1\<rparr>;
     Some (if queue_ref_cnt self = 1 then log_queue_fifo_free self' else self')
   }"

text \<open>The batch callback that runs when an input thread finishes its job.\<close>

definition log_queue_fifo_move_input :: "'m log_queue \<Rightarrow> int \<Rightarrow> 'm log_queue option" where
  "log_queue_fifo_move_input self thread_id = do {
     g_assert (thread_id \<ge> 0);
     let tid = nat thread_id;
     self \<leftarrow> log_queue_fifo_move_input_unlocked self tid;
     let self = log_queue_push_notify self;
     let inq = qoverflow_input self ! tid;
     log_queue_unref (self\<lparr>qoverflow_input := (qoverflow_input self)
       [tid := inq\<lparr>inq_finish_cb_registered := False\<rparr>]\<rparr>)
   }"

definition log_queue_fifo_push_tail ::
    "'m log_queue \<Rightarrow> int \<Rightarrow> 'm \<Rightarrow> path_options \<Rightarrow> 'm log_queue option" where
  "log_queue_fifo_push_tail self thread_id msg po = do {
     g_assert (thread_id < 0 \<or> int (length (qoverflow_input self)) > thread_id);
     let tid = nat thread_id;
     let node = log_msg_init_queue_node msg po;
     if thread_id \<ge> 0 then do {
       self \<leftarrow> (if \<not> inq_finish_cb_registered (qoverflow_input self ! tid)
                then log_queue_ref (calls [Register_batch_callback tid]
                       (self\<lparr>qoverflow_input := (qoverflow_input self)
                         [tid := (qoverflow_input self ! tid)\<lparr>inq_finish_cb_registered := True\<rparr>]\<rparr>))
                else Some self);
       let inq = qoverflow_input self ! tid;
       Some (calls [Msg_ref msg, Msg_unref msg]
         (self\<lparr>qoverflow_input := (qoverflow_input self)
           [tid := inq\<lparr>inq_items := inq_items inq @ [node], inq_len := inq_len inq + 1\<rparr>]\<rparr>))
     } else if log_queue_fifo_get_length self < qoverflow_size self then
       let self = calls [Msg_ref msg] self;
           self = log_queue_push_notify (self\<lparr>qoverflow_wait := qoverflow_wait self @ [node],
                    qoverflow_wait_len := qoverflow_wait_len self + 1\<rparr>)
       in Some (calls [Msg_unref msg]
            (self\<lparr>stored_messages := stats_counter_inc (stored_messages self)\<rparr>))
     else
       Some (calls (log_msg_drop_calls msg (po_ack_needed po)
               (if po_flow_control_requested po then AT_SUSPENDED else AT_PROCESSED))
         (self\<lparr>dropped_messages := stats_counter_inc (dropped_messages self)\<rparr>))
   }"

definition log_queue_fifo_push_head ::
    "'m log_queue \<Rightarrow> 'm \<Rightarrow> path_options \<Rightarrow> 'm log_queue" where
  "log_queue_fifo_push_head self msg po =
     calls [Msg_ref msg] (self\<lparr>
       qoverflow_output := log_msg_init_queue_node msg po # qoverflow_output self,
       qoverflow_output_len := qoverflow_output_len self + 1,
       stored_messages := stats_counter_inc (stored_messages self)\<rparr>)"

text \<open>When the output queue is depleted, the whole wait queue moves there.\<close>

definition refill_output :: "'m log_queue \<Rightarrow> 'm log_queue" where
  "refill_output self =
     (if qoverflow_output_len self = 0 then
        self\<lparr>qoverflow_output := qoverflow_output self @ qoverflow_wait self,
             qoverflow_wait := [],
             qoverflow_output_len := qoverflow_wait_len self,
             qoverflow_wait_len := 0\<rparr>
      else self)"

text \<open>The message and the acknowledgement flag for the caller, or None.\<close>

definition log_queue_fifo_pop_head ::
    "'m log_queue \<Rightarrow> ('m log_queue \<times> ('m \<times> bool) option) option" where
  "log_queue_fifo_pop_head self =
     (let self = refill_output self
      in if qoverflow_output_len self > 0 then
           (case qoverflow_output self of
              [] \<Rightarrow> None
            | node # rest \<Rightarrow>
                let self = self\<lparr>qoverflow_output_len := qoverflow_output_len self - 1,
                                qoverflow_output := rest,
                                stored_messages := stats_counter_dec (stored_messages self)\<rparr>;
                    self = (if use_backlog self then
                              calls [Msg_ref (node_msg node)]
                                (self\<lparr>qbacklog := qbacklog self @ [node],
                                      qbacklog_len := qbacklog_len self + 1\<rparr>)
                            else self)
                in Some (self, Some (node_msg node, node_ack_needed node)))
         else Some (self, None))"

fun ack_backlog_loop :: "nat \<Rightarrow> 'm log_queue \<Rightarrow> 'm log_queue option" where
  "ack_backlog_loop 0 self = Some self"
| "ack_backlog_loop (Suc n) self =
     (if qbacklog_len self > 0 then
        (case qbacklog self of
           [] \<Rightarrow> None
         | node # rest \<Rightarrow>
             ack_backlog_loop n
               (calls [Msg_ack (node_msg node) (node_ack_needed node) AT_PROCESSED,
                       Msg_unref (node_msg node)]
                 (self\<lparr>qbacklog := rest, qbacklog_len := qbacklog_len self - 1\<rparr>)))
      else Some self)"

definition log_queue_fifo_ack_backlog :: "'m log_queue \<Rightarrow> u32 \<Rightarrow> 'm log_queue option" where
  "log_queue_fifo_ack_backlog self rewind_count = ack_backlog_loop (unat rewind_count) self"

definition log_queue_fifo_rewind_backlog_all :: "'m log_queue \<Rightarrow> 'm log_queue" where
  "log_queue_fifo_rewind_backlog_all self =
     self\<lparr>qoverflow_output := qoverflow_output self @ qbacklog self,
          qbacklog := [],
          qoverflow_output_len := qoverflow_output_len self + qbacklog_len self,
          stored_messages := stats_counter_add (stored_messages self) (qbacklog_len self),
          qbacklog_len := 0\<rparr>"

fun rewind_backlog_loop :: "nat \<Rightarrow> 'm log_queue \<Rightarrow> 'm log_queue option" where
  "rewind_backlog_loop 0 self = Some self"
| "rewind_backlog_loop (Suc n) self =
     (if qbacklog self = [] then None
      else rewind_backlog_loop n
        (self\<lparr>qoverflow_output := last (qbacklog self) # qoverflow_output self,
              qbacklog := butlast (qbacklog self),
              qbacklog_len := qbacklog_len self - 1,
              qoverflow_output_len := qoverflow_output_len self + 1,
              stored_messages := stats_counter_inc (stored_messages self)\<rparr>))"

definition log_queue_fifo_rewind_backlog :: "'m log_queue \<Rightarrow> u32 \<Rightarrow> 'm log_queue option" where
  "log_queue_fifo_rewind_backlog self rewind_count =
     (let rewind_count = (if rewind_count > of_int (qbacklog_len self)
                          then of_int (qbacklog_len self) else rewind_count)
      in rewind_backlog_loop (unat rewind_count) self)"

definition log_queue_fifo_new :: "nat \<Rightarrow> int \<Rightarrow> 'm log_queue" where
  "log_queue_fifo_new max_threads fifo_size =
     \<lparr>queue_ref_cnt = 1, use_backlog = False, throttle = 0, throttle_buckets = 0,
      last_throttle_check = \<lparr>gtv_sec = 0, gtv_usec = 0\<rparr>,
      stored_messages = None, dropped_messages = None,
      parallel_push_notify = None, parallel_push_data = None, parallel_push_data_destroy = None,
      qoverflow_output = [], qoverflow_wait = [], qoverflow_wait_len = 0,
      qoverflow_output_len = 0, qoverflow_size = fifo_size, qbacklog = [], qbacklog_len = 0,
      qoverflow_input = replicate max_threads
        \<lparr>inq_items = [], inq_len = 0, inq_finish_cb_registered = False\<rparr>,
      queue_calls = []\<rparr>"

subsection \<open>The base class\<close>

definition log_queue_pop_head ::
    "'m log_queue \<Rightarrow> ('m log_queue \<times> ('m \<times> bool) option) option" where
  "log_queue_pop_head self =
     (if throttle self \<noteq> 0 \<and> throttle_buckets self = 0 then Some (self, None)
      else do {
        (self, msg) \<leftarrow> log_queue_fifo_pop_head self;
        Some (if msg \<noteq> None \<and> throttle_buckets self > 0
              then self\<lparr>throttle_buckets := throttle_buckets self - 1\<rparr> else self, msg)
      })"

definition log_queue_rewind_backlog :: "'m log_queue \<Rightarrow> u32 \<Rightarrow> 'm log_queue option" where
  "log_queue_rewind_backlog self n =
     (if \<not> use_backlog self then Some self else log_queue_fifo_rewind_backlog self n)"

definition log_queue_rewind_backlog_all :: "'m log_queue \<Rightarrow> 'm log_queue" where
  "log_queue_rewind_backlog_all self =
     (if \<not> use_backlog self then self else log_queue_fifo_rewind_backlog_all self)"

definition log_queue_ack_backlog :: "'m log_queue \<Rightarrow> u32 \<Rightarrow> 'm log_queue option" where
  "log_queue_ack_backlog self n =
     (if \<not> use_backlog self then Some self else log_queue_fifo_ack_backlog self n)"

definition log_queue_set_throttle :: "'m log_queue \<Rightarrow> int \<Rightarrow> 'm log_queue" where
  "log_queue_set_throttle self t = self\<lparr>throttle := t, throttle_buckets := t\<rparr>"

definition log_queue_set_use_backlog :: "'m log_queue \<Rightarrow> bool \<Rightarrow> 'm log_queue" where
  "log_queue_set_use_backlog self b = self\<lparr>use_backlog := b\<rparr>"

definition log_queue_reset_parallel_push :: "'m log_queue \<Rightarrow> 'm log_queue" where
  "log_queue_reset_parallel_push self =
     self\<lparr>parallel_push_notify := None, parallel_push_data := None\<rparr>"

definition log_queue_set_parallel_push ::
    "'m log_queue \<Rightarrow> nat option \<Rightarrow> nat option \<Rightarrow> nat option \<Rightarrow> 'm log_queue" where
  "log_queue_set_parallel_push self notify user_data destroy =
     self\<lparr>parallel_push_notify := notify, parallel_push_data := user_data,
          parallel_push_data_destroy := destroy\<rparr>"

definition log_queue_set_counters ::
    "'m log_queue \<Rightarrow> u32 option \<Rightarrow> u32 option \<Rightarrow> 'm log_queue" where
  "log_queue_set_counters self stored dropped =
     self\<lparr>stored_messages := stats_counter_set stored (of_int (log_queue_fifo_get_length self)),
          dropped_messages := dropped\<rparr>"

text \<open>Replenishing the throttle buckets at time \<open>now\<close>.\<close>

definition recalculate_buckets :: "gtimeval \<Rightarrow> 'm log_queue \<Rightarrow> 'm log_queue" where
  "recalculate_buckets now self =
     (let (diff, self) =
            (if gtv_sec (last_throttle_check self) \<noteq> 0
             then (g_time_val_diff now (last_throttle_check self), self)
             else (0, self\<lparr>last_throttle_check := now\<rparr>));
          new_buckets = to_gint (c_div (throttle self * diff) 1000000)
      in if new_buckets \<noteq> 0 then
           self\<lparr>throttle_buckets := min (throttle self) (to_gint (throttle_buckets self + new_buckets)),
                last_throttle_check := now\<rparr>
         else self)"

definition destroy_calls :: "nat option \<Rightarrow> nat option \<Rightarrow> 'm queue_call list" where
  "destroy_calls destroy user_data =
     (case (destroy, user_data) of (Some d, Some u) \<Rightarrow> [Call_destroy d u] | _ \<Rightarrow> [])"

text \<open>Returns the new state, the result and the value stored in \<open>*timeout\<close>.\<close>

definition log_queue_check_items ::
    "'m log_queue \<Rightarrow> gtimeval \<Rightarrow> nat option \<Rightarrow> nat option \<Rightarrow> nat option
     \<Rightarrow> 'm log_queue \<times> bool \<times> int option" where
  "log_queue_check_items self now notify user_data destroy =
     (let self = calls (destroy_calls (parallel_push_data_destroy self) (parallel_push_data self)) self;
          num_elements = log_queue_fifo_get_length self
      in if num_elements = 0 then
           (self\<lparr>parallel_push_notify := notify, parallel_push_data := user_data,
                 parallel_push_data_destroy := destroy\<rparr>, False, None)
         else
           let self = (calls (destroy_calls destroy user_data) self)
                        \<lparr>parallel_push_notify := None, parallel_push_data := None\<rparr>
           in if throttle self > 0 then
                let self = recalculate_buckets now self
                in if throttle_buckets self = 0
                   then (self, False, Some (c_div 1000 (throttle self) + 1))
                   else (self, True, None)
              else (self, True, None))"

subsection \<open>Operations as a sequence of steps\<close>

datatype 'm queue_op =
    Op_push_tail int 'm path_options
  | Op_move_input int
  | Op_push_head 'm path_options
  | Op_pop_head
  | Op_ack_backlog u32
  | Op_rewind_backlog u32
  | Op_rewind_backlog_all
  | Op_check_items gtimeval "nat option" "nat option" "nat option"
  | Op_set_throttle int
  | Op_set_use_backlog bool

text \<open>A message handed to the consumer, with whether a copy stays in the backlog.\<close>

record 'm popped =
  pop_msg :: 'm
  pop_ack_needed :: bool
  pop_backlog :: bool

fun queue_exec :: "'m queue_op \<Rightarrow> 'm log_queue \<Rightarrow> ('m log_queue \<times> 'm popped list) option" where
  "queue_exec (Op_push_tail tid m po) q =
     map_option (\<lambda>q'. (q', [])) (log_queue_fifo_push_tail q tid m po)"
| "queue_exec (Op_move_input tid) q = map_option (\<lambda>q'. (q', [])) (log_queue_fifo_move_input q tid)"
| "queue_exec (Op_push_head m po) q = Some (log_queue_fifo_push_head q m po, [])"
| "queue_exec Op_pop_head q =
     map_option (\<lambda>(q', r). (q', case r of None \<Rightarrow> []
       | Some (m, a) \<Rightarrow> [\<lparr>pop_msg = m, pop_ack_needed = a, pop_backlog = use_backlog q\<rparr>]))
       (log_queue_pop_head q)"
| "queue_exec (Op_ack_backlog n) q = map_option (\<lambda>q'. (q', [])) (log_queue_ack_backlog q n)"
| "queue_exec (Op_rewind_backlog n) q = map_option (\<lambda>q'. (q', [])) (log_queue_rewind_backlog q n)"
| "queue_exec Op_rewind_backlog_all q = Some (log_queue_rewind_backlog_all q, [])"
| "queue_exec (Op_check_items now n u d) q = Some (fst (log_queue_check_items q now n u d), [])"
| "queue_exec (Op_set_throttle t) q = Some (log_queue_set_throttle q t, [])"
| "queue_exec (Op_set_use_backlog b) q = Some (log_queue_set_use_backlog q b, [])"

fun queue_run :: "'m queue_op list \<Rightarrow> 'm log_queue \<Rightarrow> ('m log_queue \<times> 'm popped list) option" where
  "queue_run [] q = Some (q, [])"
| "queue_run (op # ops) q = do {
     (q, out) \<leftarrow> queue_exec op q;
     (q, outs) \<leftarrow> queue_run ops q;
     Some (q, out @ outs)
   }"

lemma map_option_pair_SomeE:
  assumes "map_option (\<lambda>(q, outs). f q outs) r = Some y"
  obtains q outs where "r = Some (q, outs)" "f q outs = y"
  using assms by (cases r) auto

subsection \<open>The shape of the moves between the lists\<close>

definition drop_items :: "nat \<Rightarrow> 'm input_queue \<Rightarrow> 'm input_queue" where
  "drop_items n inq = inq\<lparr>inq_items := drop n (inq_items inq), inq_len := inq_len inq - of_nat n\<rparr>"

lemma drop_input_shape:
  "drop_input n tid q = Some q' \<Longrightarrow> tid < length (qoverflow_input q) \<Longrightarrow>
   n \<le> length (inq_items (qoverflow_input q ! tid)) \<and>
   (\<exists>d cs. q' = q\<lparr>dropped_messages := d, queue_calls := cs,
      qoverflow_input := (qoverflow_input q)[tid := drop_items n (qoverflow_input q ! tid)]\<rparr>)"
proof (induction n tid q rule: drop_input.induct)
  case (1 tid q)
  then have "q' = q\<lparr>dropped_messages := dropped_messages q, queue_calls := queue_calls q,
      qoverflow_input := (qoverflow_input q)[tid := drop_items 0 (qoverflow_input q ! tid)]\<rparr>"
    by (simp add: drop_items_def)
  then show ?case by blast
next
  case (2 n tid q)
  obtain node rest where items: "inq_items (qoverflow_input q ! tid) = node # rest"
    using 2(2) by (auto split: list.splits)
  let ?inq = "(qoverflow_input q ! tid)\<lparr>inq_items := rest,
                inq_len := inq_len (qoverflow_input q ! tid) - 1\<rparr>"
  have inq: "drop_items n ?inq = drop_items (Suc n) (qoverflow_input q ! tid)"
    by (simp add: drop_items_def items algebra_simps)
  from 2(1) [OF items refl refl] 2(2,3) obtain d cs where
    "n \<le> length rest" "q' = q\<lparr>dropped_messages := d, queue_calls := cs,
      qoverflow_input := (qoverflow_input q)[tid := drop_items n ?inq]\<rparr>"
    by (auto simp: items Let_def calls_def)
  then show ?case unfolding inq items by auto
qed

lemma drop_input_Some:
  "n \<le> length (inq_items (qoverflow_input q ! tid)) \<Longrightarrow> tid < length (qoverflow_input q) \<Longrightarrow>
   drop_input n tid q \<noteq> None"
proof (induction n tid q rule: drop_input.induct)
  case (2 n tid q)
  then obtain node rest where items: "inq_items (qoverflow_input q ! tid) = node # rest"
    by (cases "inq_items (qoverflow_input q ! tid)") auto
  show ?case
    using 2(1) [OF items refl refl] 2(2,3) by (simp add: items Let_def calls_def)
qed simp

text \<open>The number of messages an input queue loses when it is moved.\<close>

definition overflow_count :: "'m log_queue \<Rightarrow> nat \<Rightarrow> nat" where
  "overflow_count q tid =
     (let len = int (unat (inq_len (qoverflow_input q ! tid)))
      in if log_queue_fifo_get_length q + len > qoverflow_size q
         then nat (len - max 0 (qoverflow_size q - log_queue_fifo_get_length q)) else 0)"

lemma overflow_count_le: "overflow_count q tid \<le> unat (inq_len (qoverflow_input q ! tid))"
  by (simp add: overflow_count_def Let_def nat_le_iff del: of_nat_unat)

lemma move_input_unlocked_eq:
  "log_queue_fifo_move_input_unlocked q tid =
     (if tid < length (qoverflow_input q) then
        map_option (\<lambda>q. splice_input q tid) (drop_input (overflow_count q tid) tid q)
      else None)"
  by (simp add: log_queue_fifo_move_input_unlocked_def overflow_count_def Let_def
      map_conv_bind_option comp_def del: of_nat_unat)

lemma move_input_unlocked_shape:
  assumes "log_queue_fifo_move_input_unlocked q tid = Some q'"
  obtains inq d cs st where
    "tid < length (qoverflow_input q)" "inq = qoverflow_input q ! tid"
    "overflow_count q tid \<le> length (inq_items inq)"
    "q' = q\<lparr>dropped_messages := d, queue_calls := cs, stored_messages := st,
       qoverflow_wait := qoverflow_wait q @ drop (overflow_count q tid) (inq_items inq),
       qoverflow_wait_len := qoverflow_wait_len q
         + int (unat (inq_len inq - of_nat (overflow_count q tid))),
       qoverflow_input := (qoverflow_input q)[tid := inq\<lparr>inq_items := [], inq_len := 0\<rparr>]\<rparr>"
proof -
  obtain q1 where tid: "tid < length (qoverflow_input q)"
    and q1: "drop_input (overflow_count q tid) tid q = Some q1" "q' = splice_input q1 tid"
    using assms by (auto simp: move_input_unlocked_eq split: if_splits)
  from drop_input_shape [OF q1(1) tid] obtain d cs where
    le: "overflow_count q tid \<le> length (inq_items (qoverflow_input q ! tid))"
    and q1': "q1 = q\<lparr>dropped_messages := d, queue_calls := cs,
      qoverflow_input := (qoverflow_input q)
        [tid := drop_items (overflow_count q tid) (qoverflow_input q ! tid)]\<rparr>"
    by blast
  show thesis
    by (rule that [OF tid refl le, where d = d and cs = cs and st = "stored_messages q'"])
      (simp add: q1(2) q1' splice_input_def drop_items_def Let_def tid del: of_nat_unat)
qed

lemma push_notify_simps [simp]:
  "qoverflow_input (log_queue_push_notify q) = qoverflow_input q"
  "qoverflow_output (log_queue_push_notify q) = qoverflow_output q"
  "qoverflow_output_len (log_queue_push_notify q) = qoverflow_output_len q"
  "qoverflow_wait (log_queue_push_notify q) = qoverflow_wait q"
  "qoverflow_wait_len (log_queue_push_notify q) = qoverflow_wait_len q"
  "qoverflow_size (log_queue_push_notify q) = qoverflow_size q"
  "qbacklog (log_queue_push_notify q) = qbacklog q"
  "qbacklog_len (log_queue_push_notify q) = qbacklog_len q"
  "queue_ref_cnt (log_queue_push_notify q) = queue_ref_cnt q"
  "parallel_push_notify (log_queue_push_notify q) = None"
  by (simp_all add: log_queue_push_notify_def calls_def Let_def split: option.split)

lemma calls_simps [simp]:
  "qoverflow_input (calls cs q) = qoverflow_input q"
  "qoverflow_output (calls cs q) = qoverflow_output q"
  "qoverflow_output_len (calls cs q) = qoverflow_output_len q"
  "qoverflow_wait (calls cs q) = qoverflow_wait q"
  "qoverflow_wait_len (calls cs q) = qoverflow_wait_len q"
  "qoverflow_size (calls cs q) = qoverflow_size q"
  "qbacklog (calls cs q) = qbacklog q"
  "qbacklog_len (calls cs q) = qbacklog_len q"
  "queue_ref_cnt (calls cs q) = queue_ref_cnt q"
  "use_backlog (calls cs q) = use_backlog q"
  "throttle (calls cs q) = throttle q"
  "throttle_buckets (calls cs q) = throttle_buckets q"
  "last_throttle_check (calls cs q) = last_throttle_check q"
  "parallel_push_notify (calls cs q) = parallel_push_notify q"
  "queue_calls (calls cs q) = queue_calls q @ cs"
  by (simp_all add: calls_def)

subsection \<open>Accounting\<close>

definition nodes_weight :: "('m \<Rightarrow> bool \<Rightarrow> int) \<Rightarrow> 'm queue_node list \<Rightarrow> int" where
  "nodes_weight w ns = sum_list (map (\<lambda>n. w (node_msg n) (node_ack_needed n)) ns)"

definition queue_weight :: "('m \<Rightarrow> bool \<Rightarrow> int) \<Rightarrow> 'm log_queue \<Rightarrow> int" where
  "queue_weight w q =
     nodes_weight w (qoverflow_output q) + nodes_weight w (qoverflow_wait q)
     + nodes_weight w (qbacklog q)
     + sum_list (map (\<lambda>inq. nodes_weight w (inq_items inq)) (qoverflow_input q))"

definition queue_ledger ::
    "('m \<Rightarrow> bool \<Rightarrow> int) \<Rightarrow> ('m queue_call \<Rightarrow> int) \<Rightarrow> 'm log_queue \<Rightarrow> int" where
  "queue_ledger w cw q = queue_weight w q + sum_list (map cw (queue_calls q))"

lemma nodes_weight_simps [simp]:
  "nodes_weight w [] = 0"
  "nodes_weight w (n # ns) = w (node_msg n) (node_ack_needed n) + nodes_weight w ns"
  "nodes_weight w (xs @ ys) = nodes_weight w xs + nodes_weight w ys"
  by (simp_all add: nodes_weight_def)

lemma sum_list_map_update:
  "k < length xs \<Longrightarrow>
   sum_list (map f (xs[k := x])) = sum_list (map f xs) + f x - (f (xs ! k) :: int)"
  by (induction xs arbitrary: k) (auto split: nat.splits)

text \<open>
  What a call log must satisfy so that dropping, acknowledging and freeing a
  node balance the books: releasing a node is an acknowledgement and an unref,
  and a reference taken and released at once does not count.
\<close>

locale queue_accounting =
  fixes w :: "'m \<Rightarrow> bool \<Rightarrow> int" and cw :: "'m queue_call \<Rightarrow> int"
  assumes ref_unref: "cw (Msg_ref m) + cw (Msg_unref m) = 0"
    and release: "cw (Msg_ack m a t) + cw (Msg_unref m) = w m a"
    and others: "cw (Register_batch_callback k) = 0" "cw (Call_notify f u) = 0"
      "cw (Call_destroy d v) = 0" "cw Queue_freed = 0"
begin

lemma ledger_calls:
  "queue_ledger w cw (calls cs q) = queue_ledger w cw q + sum_list (map cw cs)"
  by (simp add: queue_ledger_def queue_weight_def calls_def)

lemma drop_calls_weight: "sum_list (map cw (log_msg_drop_calls m a t)) = w m a"
  by (simp add: log_msg_drop_calls_def release)

lemma free_calls_weight: "sum_list (map cw (free_queue_calls ns)) = nodes_weight w ns"
  by (induction ns) (simp_all add: free_queue_calls_def release add.assoc [symmetric])

lemma notify_ledger: "queue_ledger w cw (log_queue_push_notify q) = queue_ledger w cw q"
  by (auto simp: log_queue_push_notify_def calls_def Let_def others queue_ledger_def
      queue_weight_def split: option.splits)

lemma drop_input_ledger:
  "drop_input n tid q = Some q' \<Longrightarrow> tid < length (qoverflow_input q) \<Longrightarrow>
   queue_ledger w cw q' = queue_ledger w cw q \<and>
   length (qoverflow_input q') = length (qoverflow_input q)"
proof (induction n tid q rule: drop_input.induct)
  case (2 n tid q)
  obtain node rest where items: "inq_items (qoverflow_input q ! tid) = node # rest"
    using 2(2) by (auto split: list.splits)
  let ?q = "calls (log_msg_drop_calls (node_msg node) (node_ack_needed node)
              (if node_flow_control_requested node then AT_SUSPENDED else AT_PROCESSED))
            (q\<lparr>qoverflow_input := (qoverflow_input q)[tid := (qoverflow_input q ! tid)
                \<lparr>inq_items := rest, inq_len := inq_len (qoverflow_input q ! tid) - 1\<rparr>],
               dropped_messages := stats_counter_inc (dropped_messages q)\<rparr>)"
  have "queue_ledger w cw ?q = queue_ledger w cw q"
    using 2(3) by (simp only: ledger_calls drop_calls_weight)
      (simp add: queue_ledger_def queue_weight_def sum_list_map_update items)
  moreover have "drop_input n tid ?q = Some q'"
    using 2(2) by (simp add: items Let_def)
  ultimately show ?case
    using 2(1) [OF items refl refl] 2(3) by (simp add: calls_def)
qed simp

lemma move_input_unlocked_ledger:
  assumes "log_queue_fifo_move_input_unlocked q tid = Some q'"
  shows "queue_ledger w cw q' = queue_ledger w cw q"
proof -
  obtain q1 where tid: "tid < length (qoverflow_input q)"
    and q1: "drop_input (overflow_count q tid) tid q = Some q1" "q' = splice_input q1 tid"
    using assms by (auto simp: move_input_unlocked_eq split: if_splits)
  show ?thesis
    using drop_input_ledger [OF q1(1) tid] tid unfolding q1(2)
    by (simp add: splice_input_def Let_def queue_ledger_def queue_weight_def sum_list_map_update)
qed

lemma free_ledger:
  "queue_ledger w cw (log_queue_fifo_free q) = queue_ledger w cw q"
proof -
  have inputs: "sum_list (map cw (concat (map (\<lambda>inq. free_queue_calls (inq_items inq)) xs)))
      = sum_list (map (\<lambda>inq. nodes_weight w (inq_items inq)) xs)" for xs
    by (induction xs) (simp_all add: free_calls_weight)
  have empty: "sum_list (map ((\<lambda>inq. nodes_weight w (inq_items inq)) \<circ> inq_items_update (\<lambda>_. [])) xs) = 0"
    for xs :: "'m input_queue list"
    by (induction xs) simp_all
  show ?thesis
    by (simp add: log_queue_fifo_free_def ledger_calls inputs free_calls_weight others)
      (simp add: queue_ledger_def queue_weight_def empty)
qed

lemma unref_ledger:
  "log_queue_unref q = Some q' \<Longrightarrow> queue_ledger w cw q' = queue_ledger w cw q"
  by (auto simp: log_queue_unref_def bind_eq_Some_conv Let_def free_ledger split: if_splits)
    (simp_all add: queue_ledger_def queue_weight_def)

lemma set_registered_ledger:
  "tid < length (qoverflow_input q) \<Longrightarrow>
   queue_ledger w cw (q\<lparr>qoverflow_input := (qoverflow_input q)
     [tid := (qoverflow_input q ! tid)\<lparr>inq_finish_cb_registered := b\<rparr>]\<rparr>) = queue_ledger w cw q"
  by (simp add: queue_ledger_def queue_weight_def sum_list_map_update)

lemma move_input_ledger:
  assumes "log_queue_fifo_move_input q thread_id = Some q'"
  shows "queue_ledger w cw q' = queue_ledger w cw q"
proof -
  let ?tid = "nat thread_id"
  obtain q1 where q1: "log_queue_fifo_move_input_unlocked q ?tid = Some q1"
    and q': "log_queue_unref ((log_queue_push_notify q1)
       \<lparr>qoverflow_input := (qoverflow_input (log_queue_push_notify q1))
         [?tid := (qoverflow_input (log_queue_push_notify q1) ! ?tid)
            \<lparr>inq_finish_cb_registered := False\<rparr>]\<rparr>) = Some q'"
    using assms by (auto simp: log_queue_fifo_move_input_def Let_def bind_eq_Some_conv)
  have "?tid < length (qoverflow_input q1)"
    by (rule move_input_unlocked_shape [OF q1]) simp
  then show ?thesis
    using unref_ledger [OF q'] move_input_unlocked_ledger [OF q1]
      set_registered_ledger [of ?tid "log_queue_push_notify q1" False] notify_ledger [of q1]
    by simp
qed

lemma push_tail_ledger:
  assumes "log_queue_fifo_push_tail q thread_id m po = Some q'"
  shows "queue_ledger w cw q' = queue_ledger w cw q + w m (po_ack_needed po)"
proof (cases "thread_id \<ge> 0")
  case True
  let ?tid = "nat thread_id"
  have tid: "?tid < length (qoverflow_input q)"
    using assms True by (auto simp: log_queue_fifo_push_tail_def Let_def bind_eq_Some_conv g_assert_def
        split: if_splits)
  obtain q1 where q1: "queue_ledger w cw q1 = queue_ledger w cw q"
      "?tid < length (qoverflow_input q1)"
    and q': "q' = calls [Msg_ref m, Msg_unref m] (q1\<lparr>qoverflow_input := (qoverflow_input q1)
        [?tid := (qoverflow_input q1 ! ?tid)\<lparr>inq_items := inq_items (qoverflow_input q1 ! ?tid)
           @ [log_msg_init_queue_node m po], inq_len := inq_len (qoverflow_input q1 ! ?tid) + 1\<rparr>]\<rparr>)"
  proof (cases "inq_finish_cb_registered (qoverflow_input q ! ?tid)")
    case True
    then show thesis using assms \<open>thread_id \<ge> 0\<close> tid
      by (intro that [of q]) (auto simp: log_queue_fifo_push_tail_def Let_def bind_eq_Some_conv)
  next
    case False
    let ?q = "calls [Register_batch_callback ?tid] (q\<lparr>qoverflow_input := (qoverflow_input q)
       [?tid := (qoverflow_input q ! ?tid)\<lparr>inq_finish_cb_registered := True\<rparr>]\<rparr>)"
    let ?q1 = "?q\<lparr>queue_ref_cnt := queue_ref_cnt q + 1\<rparr>"
    have "queue_ledger w cw ?q1 = queue_ledger w cw ?q"
      by (simp add: queue_ledger_def queue_weight_def)
    also have "\<dots> = queue_ledger w cw q"
      by (simp add: ledger_calls others set_registered_ledger tid)
    finally show thesis using assms False \<open>thread_id \<ge> 0\<close> tid
      by (intro that [of ?q1])
        (auto simp: log_queue_fifo_push_tail_def Let_def bind_eq_Some_conv log_queue_ref_def)
  qed
  show ?thesis
    unfolding q' ledger_calls using q1(2) ref_unref [of m]
    by (simp add: q1(1) [symmetric])
      (simp add: queue_ledger_def queue_weight_def sum_list_map_update log_msg_init_queue_node_def)
next
  case False
  let ?node = "log_msg_init_queue_node m po"
  have *: "queue_ledger w cw ((calls [Msg_ref m] q)\<lparr>qoverflow_wait := qoverflow_wait q @ [?node],
      qoverflow_wait_len := k\<rparr>) = queue_ledger w cw q + cw (Msg_ref m) + w m (po_ack_needed po)" for k
    by (simp add: queue_ledger_def queue_weight_def log_msg_init_queue_node_def)
  have stats: "queue_ledger w cw (q\<lparr>stored_messages := x\<rparr>) = queue_ledger w cw q"
    "queue_ledger w cw (q\<lparr>dropped_messages := x\<rparr>) = queue_ledger w cw q" for x q
    by (simp_all add: queue_ledger_def queue_weight_def)
  show ?thesis
    using assms False ref_unref [of m]
    by (auto simp: log_queue_fifo_push_tail_def Let_def bind_eq_Some_conv ledger_calls stats
        drop_calls_weight notify_ledger * split: if_splits)
qed

lemma push_head_ledger:
  "queue_ledger w cw (log_queue_fifo_push_head q m po)
   = queue_ledger w cw q + cw (Msg_ref m) + w m (po_ack_needed po)"
  by (simp add: log_queue_fifo_push_head_def ledger_calls)
    (simp add: queue_ledger_def queue_weight_def log_msg_init_queue_node_def)

lemma pop_head_ledger:
  assumes "log_queue_fifo_pop_head q = Some (q', r)"
  shows "queue_ledger w cw q' = queue_ledger w cw q +
    (case r of None \<Rightarrow> 0 | Some (m, a) \<Rightarrow> if use_backlog q then cw (Msg_ref m) else - w m a)"
proof -
  have refill: "queue_ledger w cw (refill_output q) = queue_ledger w cw q"
    "use_backlog (refill_output q) = use_backlog q"
    by (simp_all add: refill_output_def queue_ledger_def queue_weight_def)
  show ?thesis
    unfolding refill(1) [symmetric] refill(2) [symmetric] using assms
    by (auto simp: log_queue_fifo_pop_head_def Let_def queue_ledger_def queue_weight_def
        split: if_splits list.splits)
qed

lemma log_queue_pop_head_ledger:
  assumes "log_queue_pop_head q = Some (q', r)"
  shows "queue_ledger w cw q' = queue_ledger w cw q +
    (case r of None \<Rightarrow> 0 | Some (m, a) \<Rightarrow> if use_backlog q then cw (Msg_ref m) else - w m a)"
proof (cases "throttle q \<noteq> 0 \<and> throttle_buckets q = 0")
  case False
  then obtain q1 where q1: "log_queue_fifo_pop_head q = Some (q1, r)"
    and q': "q' = q1 \<or> q' = q1\<lparr>throttle_buckets := throttle_buckets q1 - 1\<rparr>"
    using assms unfolding log_queue_pop_head_def
    by (auto simp: bind_eq_Some_conv split: if_splits)
  from q' have "queue_ledger w cw q' = queue_ledger w cw q1"
    by (auto simp: queue_ledger_def queue_weight_def)
  then show ?thesis using pop_head_ledger [OF q1] by simp
qed (use assms in \<open>auto simp: log_queue_pop_head_def\<close>)

lemma ack_backlog_ledger:
  "ack_backlog_loop n q = Some q' \<Longrightarrow> queue_ledger w cw q' = queue_ledger w cw q"
proof (induction n q rule: ack_backlog_loop.induct)
  case (2 n q)
  show ?case
  proof (cases "qbacklog_len q > 0")
    case True
    obtain node rest where "qbacklog q = node # rest"
      using 2(2) True by (auto split: list.splits)
    then show ?thesis
      using 2(1) [OF True] 2(2) True release [of "node_msg node" "node_ack_needed node"]
      by (auto simp: ledger_calls) (auto simp: queue_ledger_def queue_weight_def)
  qed (use 2(2) in simp)
qed simp

lemma nodes_weight_last:
  "ns \<noteq> [] \<Longrightarrow> nodes_weight w ns
     = nodes_weight w (butlast ns) + w (node_msg (last ns)) (node_ack_needed (last ns))"
  by (subst append_butlast_last_id [symmetric], assumption) (simp del: append_butlast_last_id)

lemma rewind_backlog_ledger:
  "rewind_backlog_loop n q = Some q' \<Longrightarrow> queue_ledger w cw q' = queue_ledger w cw q"
proof (induction n q rule: rewind_backlog_loop.induct)
  case (2 n q)
  then have ne: "qbacklog q \<noteq> []" by (auto split: if_splits)
  then show ?case
    using 2 nodes_weight_last [OF ne] by (simp add: queue_ledger_def queue_weight_def)
qed simp

lemma check_items_ledger:
  "queue_ledger w cw (fst (log_queue_check_items q now n u d)) = queue_ledger w cw q"
proof -
  have destroy: "sum_list (map cw (destroy_calls d' u')) = 0" for d' u'
    by (auto simp: destroy_calls_def others split: option.splits)
  have buckets: "queue_ledger w cw (recalculate_buckets now q1) = queue_ledger w cw q1" for q1
    by (simp add: recalculate_buckets_def Let_def queue_ledger_def queue_weight_def)
  have push: "queue_ledger w cw (q1\<lparr>parallel_push_notify := a, parallel_push_data := b,
      parallel_push_data_destroy := c\<rparr>) = queue_ledger w cw q1"
    "queue_ledger w cw (q1\<lparr>parallel_push_notify := a, parallel_push_data := b\<rparr>)
      = queue_ledger w cw q1" for q1 a b c
    by (simp_all add: queue_ledger_def queue_weight_def)
  show ?thesis
    by (simp add: log_queue_check_items_def Let_def push ledger_calls destroy buckets)
qed

text \<open>What an operation adds to the books, given what it handed to the consumer.\<close>

definition op_weight :: "'m queue_op \<Rightarrow> 'm popped list \<Rightarrow> int" where
  "op_weight op out =
     (case op of Op_push_tail _ m po \<Rightarrow> w m (po_ack_needed po)
      | Op_push_head m po \<Rightarrow> cw (Msg_ref m) + w m (po_ack_needed po)
      | _ \<Rightarrow> 0) +
     sum_list (map (\<lambda>p. if pop_backlog p then cw (Msg_ref (pop_msg p))
                        else - w (pop_msg p) (pop_ack_needed p)) out)"

lemma exec_ledger:
  assumes "queue_exec op q = Some (q', out)"
  shows "queue_ledger w cw q' = queue_ledger w cw q + op_weight op out"
proof (cases op)
  case Op_pop_head
  then obtain r where r: "log_queue_pop_head q = Some (q', r)"
    "out = (case r of None \<Rightarrow> []
       | Some (m, a) \<Rightarrow> [\<lparr>pop_msg = m, pop_ack_needed = a, pop_backlog = use_backlog q\<rparr>])"
    using assms by auto
  show ?thesis
    using log_queue_pop_head_ledger [OF r(1)]
    by (simp add: r(2) Op_pop_head op_weight_def split: option.splits)
next
  case (Op_ack_backlog n)
  then show ?thesis using assms ack_backlog_ledger
    by (auto simp: op_weight_def log_queue_ack_backlog_def log_queue_fifo_ack_backlog_def
        split: if_splits)
next
  case (Op_rewind_backlog n)
  then show ?thesis using assms rewind_backlog_ledger
    by (auto simp: op_weight_def log_queue_rewind_backlog_def log_queue_fifo_rewind_backlog_def Let_def
        split: if_splits)
next
  case Op_rewind_backlog_all
  then show ?thesis using assms
    by (auto simp: op_weight_def log_queue_rewind_backlog_all_def
        log_queue_fifo_rewind_backlog_all_def queue_ledger_def queue_weight_def)
next
  case (Op_set_throttle t)
  then show ?thesis using assms
    by (auto simp: op_weight_def log_queue_set_throttle_def queue_ledger_def queue_weight_def)
next
  case (Op_set_use_backlog b)
  then show ?thesis using assms
    by (auto simp: op_weight_def log_queue_set_use_backlog_def queue_ledger_def queue_weight_def)
qed (use assms in \<open>auto simp: op_weight_def push_tail_ledger move_input_ledger push_head_ledger
        check_items_ledger\<close>)

fun run_weight :: "'m queue_op list \<Rightarrow> 'm popped list \<Rightarrow> int" where
  "run_weight [] outs = sum_list (map (\<lambda>p. if pop_backlog p then cw (Msg_ref (pop_msg p))
                        else - w (pop_msg p) (pop_ack_needed p)) outs)"
| "run_weight (op # ops) outs = op_weight op [] + run_weight ops outs"

lemma run_weight_split:
  "op_weight op out + run_weight ops outs = run_weight (op # ops) (out @ outs)"
proof -
  have "run_weight ops (out @ outs) = run_weight ops outs +
     sum_list (map (\<lambda>p. if pop_backlog p then cw (Msg_ref (pop_msg p))
                        else - w (pop_msg p) (pop_ack_needed p)) out)"
    by (induction ops) simp_all
  then show ?thesis by (simp add: op_weight_def)
qed

lemma run_ledger:
  "queue_run ops q = Some (q', outs) \<Longrightarrow>
   queue_ledger w cw q' = queue_ledger w cw q + run_weight ops outs"
proof (induction ops arbitrary: q outs)
  case (Cons op ops)
  obtain q1 out outs' where q1: "queue_exec op q = Some (q1, out)" "queue_run ops q1 = Some (q', outs')"
    "outs = out @ outs'"
    using Cons.prems by (auto simp: bind_eq_Some_conv)
  show ?case
    using Cons.IH [OF q1(2)] exec_ledger [OF q1(1)] run_weight_split [of op out ops outs']
    by (simp add: q1(3) del: run_weight.simps)
qed simp

end

text \<open>References: a node holds one, \<open>push_tail\<close> consumes one of the caller.\<close>

definition ref_call_weight :: "'m \<Rightarrow> 'm queue_call \<Rightarrow> int" where
  "ref_call_weight m c =
     (case c of Msg_ref m' \<Rightarrow> - of_bool (m' = m) | Msg_unref m' \<Rightarrow> of_bool (m' = m) | _ \<Rightarrow> 0)"

definition ack_call_weight :: "'m \<Rightarrow> 'm queue_call \<Rightarrow> int" where
  "ack_call_weight m c = (case c of Msg_ack m' a t \<Rightarrow> of_bool (m' = m \<and> a) | _ \<Rightarrow> 0)"

lemma call_weight_simps:
  "ref_call_weight m (Msg_ref m') = - of_bool (m' = m)"
  "ack_call_weight m (Msg_ref m') = 0"
  by (simp_all add: ref_call_weight_def ack_call_weight_def)

interpretation refs: queue_accounting "\<lambda>m' a. of_bool (m' = m)" "ref_call_weight m" for m
  by unfold_locales (simp_all add: ref_call_weight_def)

interpretation acks: queue_accounting "\<lambda>m' a. of_bool (m' = m \<and> a)" "ack_call_weight m" for m
  by unfold_locales (simp_all add: ack_call_weight_def)

text \<open>The nodes of all lists of the queue.\<close>

definition all_nodes :: "'m log_queue \<Rightarrow> 'm queue_node list" where
  "all_nodes q = qoverflow_output q @ qoverflow_wait q @ qbacklog q
     @ concat (map inq_items (qoverflow_input q))"

definition held_refs :: "'m \<Rightarrow> 'm log_queue \<Rightarrow> nat" where
  "held_refs m q = length (filter (\<lambda>n. node_msg n = m) (all_nodes q))"

definition held_acks :: "'m \<Rightarrow> 'm log_queue \<Rightarrow> nat" where
  "held_acks m q = length (filter (\<lambda>n. node_msg n = m \<and> node_ack_needed n) (all_nodes q))"

definition pushed_tail :: "'m \<Rightarrow> 'm queue_op list \<Rightarrow> nat" where
  "pushed_tail m ops =
     length (filter (\<lambda>op. case op of Op_push_tail _ m' _ \<Rightarrow> m' = m | _ \<Rightarrow> False) ops)"

definition pushed_acks :: "'m \<Rightarrow> 'm queue_op list \<Rightarrow> nat" where
  "pushed_acks m ops =
     length (filter (\<lambda>op. case op of Op_push_tail _ m' po \<Rightarrow> m' = m \<and> po_ack_needed po
                          | Op_push_head m' po \<Rightarrow> m' = m \<and> po_ack_needed po
                          | _ \<Rightarrow> False) ops)"

definition ack_calls :: "'m \<Rightarrow> 'm queue_call list \<Rightarrow> nat" where
  "ack_calls m cs =
     length (filter (\<lambda>c. case c of Msg_ack m' a t \<Rightarrow> m' = m \<and> a | _ \<Rightarrow> False) cs)"

lemma int_length_filter: "int (length (filter P xs)) = sum_list (map (\<lambda>x. of_bool (P x)) xs)"
  by (induction xs) simp_all

lemma nodes_weight_concat:
  "nodes_weight w (concat (map inq_items xs)) = sum_list (map (\<lambda>inq. nodes_weight w (inq_items inq)) xs)"
  by (induction xs) simp_all

lemma queue_weight_all_nodes: "queue_weight w q = nodes_weight w (all_nodes q)"
  by (simp add: queue_weight_def all_nodes_def nodes_weight_concat)

lemma ref_call_weight_sum:
  "sum_list (map (ref_call_weight m) cs) = int (count_list cs (Msg_unref m)) - int (count_list cs (Msg_ref m))"
  by (induction cs) (auto simp: ref_call_weight_def split: queue_call.splits)

lemma ack_call_weight_sum: "sum_list (map (ack_call_weight m) cs) = int (ack_calls m cs)"
  by (induction cs) (auto simp: ack_call_weight_def ack_calls_def split: queue_call.splits)

lemma ref_ledger:
  "queue_ledger (\<lambda>m' a. of_bool (m' = m)) (ref_call_weight m) q
   = int (held_refs m q) + int (count_list (queue_calls q) (Msg_unref m))
     - int (count_list (queue_calls q) (Msg_ref m))"
  by (simp add: queue_ledger_def queue_weight_all_nodes nodes_weight_def held_refs_def
      int_length_filter ref_call_weight_sum)

lemma ack_ledger:
  "queue_ledger (\<lambda>m' a. of_bool (m' = m \<and> a)) (ack_call_weight m) q
   = int (held_acks m q) + int (ack_calls m (queue_calls q))"
  by (simp add: queue_ledger_def queue_weight_all_nodes nodes_weight_def held_acks_def
      int_length_filter ack_call_weight_sum)

lemma ref_run_weight:
  "refs.run_weight m ops outs
   = int (pushed_tail m ops) - int (length (filter (\<lambda>p. pop_msg p = m) outs))"
proof (induction ops)
  case Nil
  show ?case by (induction outs) (simp_all add: pushed_tail_def call_weight_simps)
next
  case (Cons op ops)
  then show ?case
    by (auto simp: pushed_tail_def refs.op_weight_def call_weight_simps split: queue_op.splits)
qed

lemma ack_run_weight:
  "acks.run_weight m ops outs
   = int (pushed_acks m ops)
     - int (length (filter (\<lambda>p. pop_msg p = m \<and> pop_ack_needed p \<and> \<not> pop_backlog p) outs))"
proof (induction ops)
  case Nil
  show ?case by (induction outs) (simp_all add: pushed_acks_def call_weight_simps)
next
  case (Cons op ops)
  then show ?case
    by (auto simp: pushed_acks_def acks.op_weight_def call_weight_simps split: queue_op.splits)
qed

lemma new_queue_empty: "all_nodes (log_queue_fifo_new threads n) = []"
  "queue_calls (log_queue_fifo_new threads n) = []"
  by (simp_all add: all_nodes_def log_queue_fifo_new_def map_replicate_const)

lemma free_queue_empty: "all_nodes (log_queue_fifo_free q) = []"
  by (simp add: all_nodes_def log_queue_fifo_free_def comp_def map_replicate_const)

text \<open>
  A run that exercises every list: three messages from thread 0 into a queue of
  size 2 (the oldest is dropped), a pop with backlog and its rewind.
\<close>

definition flow_options :: path_options where
  "flow_options = \<lparr>po_ack_needed = True, po_flow_control_requested = False\<rparr>"

definition queue_demo :: "string queue_op list" where
  "queue_demo =
     [Op_set_use_backlog True,
      Op_push_tail 0 ''a'' flow_options, Op_push_tail 0 ''b'' flow_options,
      Op_push_tail 0 ''c'' flow_options, Op_move_input 0,
      Op_pop_head, Op_rewind_backlog 1, Op_pop_head]"

text \<open>
  C3: The queue neither leaks nor over-releases message references.  After any
  sequence of operations on a new queue, the references handed in by
  \<open>push_tail\<close> plus those taken are the references released, plus those handed
  to the consumer, plus one for each node still in a list; freeing the queue
  releases exactly the latter.
\<close>
theorem queue_balances_references:
  assumes "queue_run ops (log_queue_fifo_new threads fifo_size) = Some (q, outs)"
  shows "pushed_tail m ops + count_list (queue_calls q) (Msg_ref m) =
           count_list (queue_calls q) (Msg_unref m) + length (filter (\<lambda>p. pop_msg p = m) outs)
           + held_refs m q \<and>
         pushed_tail m ops + count_list (queue_calls (log_queue_fifo_free q)) (Msg_ref m) =
           count_list (queue_calls (log_queue_fifo_free q)) (Msg_unref m)
           + length (filter (\<lambda>p. pop_msg p = m) outs)"
proof -
  have "queue_ledger (\<lambda>m' a. of_bool (m' = m)) (ref_call_weight m) q
      = int (pushed_tail m ops) - int (length (filter (\<lambda>p. pop_msg p = m) outs))"
    using refs.run_ledger [OF assms, of m]
    by (simp add: ref_run_weight ref_ledger [of m "log_queue_fifo_new threads fifo_size"]
        held_refs_def new_queue_empty)
  then show ?thesis
    using refs.free_ledger [of m q] ref_ledger [of m q] ref_ledger [of m "log_queue_fifo_free q"]
    by (simp add: held_refs_def free_queue_empty)
qed

theorem queue_balances_references_witness:
  "\<exists>q outs. queue_run queue_demo (log_queue_fifo_new 2 2) = Some (q, outs) \<and>
     pushed_tail ''b'' queue_demo + count_list (queue_calls q) (Msg_ref ''b'') =
       count_list (queue_calls q) (Msg_unref ''b'') + length (filter (\<lambda>p. pop_msg p = ''b'') outs)
       + held_refs ''b'' q \<and> held_refs ''b'' q = 1"
proof -
  have "map_option (\<lambda>(q, _). held_refs ''b'' q)
      (queue_run queue_demo (log_queue_fifo_new 2 2)) = Some 1"
    by code_simp
  then obtain q outs where q: "queue_run queue_demo (log_queue_fifo_new 2 2) = Some (q, outs)"
    and h: "held_refs ''b'' q = 1" by auto
  show ?thesis using queue_balances_references [OF q, of "''b''"] q h by blast
qed

text \<open>
  C4: Every acknowledgement the queue is responsible for is given exactly
  once.  The nodes pushed with an acknowledgement pending are those
  acknowledged by the queue (dropped, released from the backlog or aborted),
  those handed to the consumer without a copy in the backlog, and those still
  in a list; after freeing the queue none is left.
\<close>
theorem queue_balances_acks:
  assumes "queue_run ops (log_queue_fifo_new threads fifo_size) = Some (q, outs)"
  shows "pushed_acks m ops = ack_calls m (queue_calls q) + held_acks m q
           + length (filter (\<lambda>p. pop_msg p = m \<and> pop_ack_needed p \<and> \<not> pop_backlog p) outs) \<and>
         pushed_acks m ops = ack_calls m (queue_calls (log_queue_fifo_free q))
           + length (filter (\<lambda>p. pop_msg p = m \<and> pop_ack_needed p \<and> \<not> pop_backlog p) outs)"
proof -
  let ?n = "length (filter (\<lambda>p. pop_msg p = m \<and> pop_ack_needed p \<and> \<not> pop_backlog p) outs)"
  have "queue_ledger (\<lambda>m' a. of_bool (m' = m \<and> a)) (ack_call_weight m) q
      = int (pushed_acks m ops) - int ?n"
    using acks.run_ledger [OF assms, of m]
    by (simp add: ack_run_weight ack_ledger [of m "log_queue_fifo_new threads fifo_size"]
        held_acks_def new_queue_empty ack_calls_def)
  then show ?thesis
    using acks.free_ledger [of m q] ack_ledger [of m q] ack_ledger [of m "log_queue_fifo_free q"]
    by (simp add: held_acks_def free_queue_empty)
qed

theorem queue_balances_acks_witness:
  "\<exists>q outs. queue_run queue_demo (log_queue_fifo_new 2 2) = Some (q, outs) \<and>
     pushed_acks ''a'' queue_demo = ack_calls ''a'' (queue_calls q) + held_acks ''a'' q
       + length (filter (\<lambda>p. pop_msg p = ''a'' \<and> pop_ack_needed p \<and> \<not> pop_backlog p) outs) \<and>
     ack_calls ''a'' (queue_calls q) = 1"
proof -
  have "map_option (\<lambda>(q, _). ack_calls ''a'' (queue_calls q))
      (queue_run queue_demo (log_queue_fifo_new 2 2)) = Some 1"
    by code_simp
  then obtain q outs where q: "queue_run queue_demo (log_queue_fifo_new 2 2) = Some (q, outs)"
    and h: "ack_calls ''a'' (queue_calls q) = 1" by auto
  show ?thesis using queue_balances_acks [OF q, of "''a''"] q h by blast
qed

end
