(* ===== verification/Log_Queue_Order.thy ===== *)
theory Log_Queue_Order
  imports Log_Queue "HOL-Library.Sublist"
begin

text \<open>
  Order, capacity and throttling of the destination queue: the length counters
  agree with the lists as long as no input queue reaches 65536 nodes, messages
  of one thread leave the queue in the order they entered, a popped batch can
  be rewound, the fifo size is respected and the throttle bounds the rate.
\<close>

subsection \<open>The invariant\<close>

definition queue_inv :: "'m log_queue \<Rightarrow> bool" where
  "queue_inv q \<longleftrightarrow>
     qoverflow_wait_len q = int (length (qoverflow_wait q)) \<and>
     qoverflow_output_len q = int (length (qoverflow_output q)) \<and>
     qbacklog_len q = int (length (qbacklog q)) \<and>
     list_all (\<lambda>inq. unat (inq_len inq) = length (inq_items inq)) (qoverflow_input q)"

definition queue_content :: "'m log_queue \<Rightarrow> 'm queue_node list" where
  "queue_content q = qoverflow_output q @ qoverflow_wait q"

definition input_items :: "'m log_queue \<Rightarrow> nat \<Rightarrow> 'm queue_node list" where
  "input_items q tid = inq_items (qoverflow_input q ! tid)"

text \<open>
  When an operation may be called: the thread has an input queue, that queue
  has room for its 16 bit counter, and the owner of the queue still holds its
  reference.
\<close>

definition op_ok :: "'m queue_op \<Rightarrow> 'm log_queue \<Rightarrow> bool" where
  "op_ok op q =
     (case op of
        Op_push_tail tid _ _ \<Rightarrow>
          tid < int (length (qoverflow_input q)) \<and> queue_ref_cnt q > 0 \<and>
          (tid \<ge> 0 \<longrightarrow> int (length (input_items q (nat tid))) < 65535)
      | Op_move_input tid \<Rightarrow>
          0 \<le> tid \<and> tid < int (length (qoverflow_input q)) \<and> queue_ref_cnt q > 1
      | _ \<Rightarrow> True)"

fun run_ok :: "'m queue_op list \<Rightarrow> 'm log_queue \<Rightarrow> bool" where
  "run_ok [] q = True"
| "run_ok (op # ops) q =
     (op_ok op q \<and> (case queue_exec op q of None \<Rightarrow> False | Some (q', _) \<Rightarrow> run_ok ops q'))"

lemma inv_length: "queue_inv q \<Longrightarrow> log_queue_fifo_get_length q = int (length (queue_content q))"
  by (simp add: queue_inv_def log_queue_fifo_get_length_def queue_content_def)

lemma inv_input_len:
  "queue_inv q \<Longrightarrow> tid < length (qoverflow_input q) \<Longrightarrow>
   unat (inq_len (qoverflow_input q ! tid)) = length (input_items q tid)"
  by (simp add: queue_inv_def input_items_def list_all_length)

lemma list_all_update: "list_all P xs \<Longrightarrow> P x \<Longrightarrow> list_all P (xs[k := x])"
  by (induction xs arbitrary: k) (auto split: nat.splits)

lemma input_items_update:
  "tid < length (qoverflow_input q) \<Longrightarrow>
   input_items (q\<lparr>qoverflow_input := (qoverflow_input q)[tid := inq]\<rparr>) k
     = (if k = tid then inq_items inq else input_items q k)"
  by (simp add: input_items_def nth_list_update)

lemma new_queue_simps [simp]:
  "qoverflow_size (log_queue_fifo_new threads n) = n"
  "queue_content (log_queue_fifo_new threads n) = []"
  by (simp_all add: log_queue_fifo_new_def queue_content_def)

lemma new_queue_inv: "queue_inv (log_queue_fifo_new threads n)"
  by (simp add: queue_inv_def log_queue_fifo_new_def list_all_length)

subsection \<open>What each operation does to the lists\<close>

lemma move_input_unlocked_spec:
  assumes "queue_inv q" "tid < length (qoverflow_input q)"
  obtains q' where "log_queue_fifo_move_input_unlocked q tid = Some q'" "queue_inv q'"
    "queue_content q' = queue_content q @ drop (overflow_count q tid) (input_items q tid)"
    "input_items q' = (input_items q)(tid := [])"
    "length (qoverflow_input q') = length (qoverflow_input q)"
    "qoverflow_size q' = qoverflow_size q" "queue_ref_cnt q' = queue_ref_cnt q"
proof -
  let ?n = "overflow_count q tid" and ?inq = "qoverflow_input q ! tid"
  have len: "unat (inq_len ?inq) = length (inq_items ?inq)"
    using inv_input_len [OF assms] by (simp add: input_items_def)
  have n: "?n \<le> length (inq_items ?inq)"
    using overflow_count_le [of q tid] by (simp add: len)
  then obtain q' where q': "log_queue_fifo_move_input_unlocked q tid = Some q'"
    using drop_input_Some [OF _ assms(2), of ?n] assms(2) by (auto simp: move_input_unlocked_eq)
  then obtain d cs st where eq: "q' = q\<lparr>dropped_messages := d, queue_calls := cs, stored_messages := st,
       qoverflow_wait := qoverflow_wait q @ drop ?n (inq_items ?inq),
       qoverflow_wait_len := qoverflow_wait_len q + int (unat (inq_len ?inq - of_nat ?n)),
       qoverflow_input := (qoverflow_input q)[tid := ?inq\<lparr>inq_items := [], inq_len := 0\<rparr>]\<rparr>"
    by (rule move_input_unlocked_shape) blast
  have small: "unat (of_nat ?n :: u16) = ?n"
    using n len unsigned_less [of "inq_len ?inq", where 'a = nat]
    by (simp add: unat_of_nat take_bit_nat_eq_self)
  moreover have "of_nat ?n \<le> inq_len ?inq"
    using n len small by (simp add: word_le_nat_alt)
  ultimately have wrap: "int (unat (inq_len ?inq - of_nat ?n)) = int (length (drop ?n (inq_items ?inq)))"
    using len by (simp add: unat_sub del: of_nat_unat)
  show thesis
  proof (rule that [OF q'])
    show "queue_inv q'"
      using assms(1) wrap by (auto simp: queue_inv_def eq intro!: list_all_update simp del: of_nat_unat)
  qed (use assms in \<open>auto simp: eq queue_content_def input_items_def nth_list_update fun_eq_iff\<close>)
qed

lemma overflow_count_capacity:
  assumes "queue_inv q" "tid < length (qoverflow_input q)" "0 \<le> qoverflow_size q"
  shows "int (length (queue_content q @ drop (overflow_count q tid) (input_items q tid)))
    \<le> max (int (length (queue_content q))) (qoverflow_size q)"
  using inv_input_len [OF assms(1,2)] inv_length [OF assms(1)] assms(3)
  by (auto simp: overflow_count_def Let_def max_def nat_le_iff of_nat_diff_if simp del: of_nat_unat)

lemma move_input_spec:
  assumes "queue_inv q" "0 \<le> thread_id" "nat thread_id < length (qoverflow_input q)"
    "queue_ref_cnt q > 1"
  obtains q' where "log_queue_fifo_move_input q thread_id = Some q'" "queue_inv q'"
    "queue_content q' = queue_content q
       @ drop (overflow_count q (nat thread_id)) (input_items q (nat thread_id))"
    "input_items q' = (input_items q)(nat thread_id := [])"
    "length (qoverflow_input q') = length (qoverflow_input q)"
    "qoverflow_size q' = qoverflow_size q"
proof -
  obtain q1 where q1: "log_queue_fifo_move_input_unlocked q (nat thread_id) = Some q1" "queue_inv q1"
    "queue_content q1 = queue_content q
       @ drop (overflow_count q (nat thread_id)) (input_items q (nat thread_id))"
    "input_items q1 = (input_items q)(nat thread_id := [])"
    "length (qoverflow_input q1) = length (qoverflow_input q)"
    "qoverflow_size q1 = qoverflow_size q" "queue_ref_cnt q1 = queue_ref_cnt q"
    by (rule move_input_unlocked_spec [OF assms(1,3)])
  define q' where "q' = (log_queue_push_notify q1)
    \<lparr>qoverflow_input := (qoverflow_input q1)[nat thread_id := (qoverflow_input q1 ! nat thread_id)
       \<lparr>inq_finish_cb_registered := False\<rparr>],
     queue_ref_cnt := queue_ref_cnt q1 - 1\<rparr>"
  have "log_queue_fifo_move_input q thread_id = Some q'"
    using assms(2,4) q1(1,7)
    by (simp add: log_queue_fifo_move_input_def log_queue_unref_def Let_def q'_def)
  moreover have "queue_inv q'"
    using q1(2,5) assms(3)
    by (auto simp: queue_inv_def q'_def list_all_length nth_list_update)
  moreover have "input_items q' = input_items q1"
    using q1(5) assms(3) by (auto simp: input_items_def q'_def nth_list_update fun_eq_iff)
  ultimately show thesis
    using q1(3-6) by (intro that [of q']) (simp_all add: q'_def queue_content_def)
qed

lemma push_tail_thread_spec:
  assumes "queue_inv q" "0 \<le> thread_id" "nat thread_id < length (qoverflow_input q)"
    "queue_ref_cnt q > 0" "length (input_items q (nat thread_id)) < 65535"
  obtains q' where "log_queue_fifo_push_tail q thread_id m po = Some q'" "queue_inv q'"
    "queue_content q' = queue_content q"
    "input_items q' = (input_items q)
       (nat thread_id := input_items q (nat thread_id) @ [log_msg_init_queue_node m po])"
    "length (qoverflow_input q') = length (qoverflow_input q)"
    "qoverflow_size q' = qoverflow_size q"
proof -
  let ?tid = "nat thread_id" and ?inq = "qoverflow_input q ! nat thread_id"
  have lt: "thread_id < int (length (qoverflow_input q))"
    using assms(2,3) by simp
  obtain q' inq' where q': "log_queue_fifo_push_tail q thread_id m po = Some q'"
    and eq: "qoverflow_input q' = (qoverflow_input q)[?tid := inq']"
      "inq_items inq' = inq_items ?inq @ [log_msg_init_queue_node m po]"
      "inq_len inq' = inq_len ?inq + 1"
      "qoverflow_output q' = qoverflow_output q" "qoverflow_wait q' = qoverflow_wait q"
      "qoverflow_output_len q' = qoverflow_output_len q" "qoverflow_wait_len q' = qoverflow_wait_len q"
      "qbacklog q' = qbacklog q" "qbacklog_len q' = qbacklog_len q" "qoverflow_size q' = qoverflow_size q"
    using assms(2-4) lt
    by (cases "inq_finish_cb_registered ?inq")
      (auto simp: log_queue_fifo_push_tail_def Let_def log_queue_ref_def)
  have "unat (inq_len ?inq + 1) = Suc (length (inq_items ?inq))"
    using inv_input_len [OF assms(1,3)] assms(5)
    by (subst unat_add_lem [THEN iffD1]) (simp_all add: input_items_def)
  then have "queue_inv q'"
    using assms(1) by (auto simp: queue_inv_def eq intro!: list_all_update)
  then show thesis
    using assms(3) by (intro that [OF q'])
      (auto simp: eq queue_content_def input_items_def nth_list_update fun_eq_iff)
qed

lemma push_tail_direct_spec:
  assumes "queue_inv q" "thread_id < 0"
  obtains q' where "log_queue_fifo_push_tail q thread_id m po = Some q'" "queue_inv q'"
    "queue_content q' = (if int (length (queue_content q)) < qoverflow_size q
       then queue_content q @ [log_msg_init_queue_node m po] else queue_content q)"
    "input_items q' = input_items q"
    "length (qoverflow_input q') = length (qoverflow_input q)"
    "qoverflow_size q' = qoverflow_size q"
proof (cases "int (length (queue_content q)) < qoverflow_size q")
  case True
  then show thesis
    using assms by (intro that [of "the (log_queue_fifo_push_tail q thread_id m po)"])
      (auto simp: log_queue_fifo_push_tail_def Let_def inv_length
      queue_inv_def queue_content_def input_items_def fun_eq_iff)
next
  case False
  then show thesis
    using assms by (intro that [of "the (log_queue_fifo_push_tail q thread_id m po)"])
      (auto simp: log_queue_fifo_push_tail_def Let_def inv_length
      queue_inv_def queue_content_def input_items_def fun_eq_iff)
qed

lemma pop_head_spec:
  assumes "queue_inv q"
  obtains q' where
    "log_queue_fifo_pop_head q = Some (q', case queue_content q of [] \<Rightarrow> None
       | n # ns \<Rightarrow> Some (node_msg n, node_ack_needed n))"
    "queue_inv q'" "queue_content q' = tl (queue_content q)"
    "qbacklog q' = qbacklog q @ (if use_backlog q then take 1 (queue_content q) else [])"
    "input_items q' = input_items q" "length (qoverflow_input q') = length (qoverflow_input q)"
    "qoverflow_size q' = qoverflow_size q" "use_backlog q' = use_backlog q"
    "throttle q' = throttle q" "throttle_buckets q' = throttle_buckets q"
    "last_throttle_check q' = last_throttle_check q"
proof -
  let ?r = "refill_output q"
  have r: "queue_inv ?r" "queue_content ?r = queue_content q" "qoverflow_input ?r = qoverflow_input q"
    "qbacklog ?r = qbacklog q" "use_backlog ?r = use_backlog q" "qoverflow_size ?r = qoverflow_size q"
    "throttle ?r = throttle q" "throttle_buckets ?r = throttle_buckets q"
    "last_throttle_check ?r = last_throttle_check q"
    and empty: "qoverflow_output ?r = [] \<Longrightarrow> queue_content q = []"
    using assms by (auto simp: refill_output_def queue_inv_def queue_content_def split: if_splits)
  show thesis
  proof (cases "qoverflow_output ?r")
    case Nil
    then show thesis
      using r empty by (intro that [of ?r])
        (simp_all add: log_queue_fifo_pop_head_def Let_def queue_inv_def input_items_def fun_eq_iff)
  next
    case (Cons node rest)
    then have content: "queue_content q = node # rest @ qoverflow_wait ?r"
      using r(2) by (simp add: queue_content_def)
    show thesis
      using r(1,3-) Cons
      by (intro that [of "fst (the (log_queue_fifo_pop_head q))"])
        (simp_all add: log_queue_fifo_pop_head_def Let_def queue_inv_def input_items_def fun_eq_iff
          queue_content_def [of "_ :: 'a log_queue"] content [unfolded queue_content_def])
  qed
qed

lemma ack_backlog_spec:
  "queue_inv q \<Longrightarrow> \<exists>q'. ack_backlog_loop n q = Some q' \<and> queue_inv q' \<and>
     queue_content q' = queue_content q \<and> qoverflow_input q' = qoverflow_input q \<and>
     qoverflow_size q' = qoverflow_size q \<and> qbacklog q' = drop n (qbacklog q)"
proof (induction n arbitrary: q)
  case (Suc n)
  show ?case
  proof (cases "qbacklog q")
    case (Cons node rest)
    let ?q = "calls [Msg_ack (node_msg node) (node_ack_needed node) AT_PROCESSED, Msg_unref (node_msg node)]
                 (q\<lparr>qbacklog := rest, qbacklog_len := qbacklog_len q - 1\<rparr>)"
    have "queue_inv ?q" "queue_content ?q = queue_content q"
      using Suc.prems Cons by (simp_all add: queue_inv_def queue_content_def)
    then show ?thesis
      using Suc.IH [of ?q] Suc.prems Cons by (auto simp: queue_inv_def)
  qed (use Suc.prems in \<open>simp add: queue_inv_def\<close>)
qed simp

lemma rewind_backlog_loop_spec:
  "queue_inv q \<Longrightarrow> n \<le> length (qbacklog q) \<Longrightarrow>
   \<exists>q'. rewind_backlog_loop n q = Some q' \<and> queue_inv q' \<and>
     qoverflow_output q' = drop (length (qbacklog q) - n) (qbacklog q) @ qoverflow_output q \<and>
     qbacklog q' = take (length (qbacklog q) - n) (qbacklog q) \<and>
     qoverflow_wait q' = qoverflow_wait q \<and> qoverflow_input q' = qoverflow_input q \<and>
     qoverflow_size q' = qoverflow_size q"
proof (induction n arbitrary: q)
  case (Suc n)
  let ?b = "qbacklog q"
  let ?q = "q\<lparr>qoverflow_output := last ?b # qoverflow_output q, qbacklog := butlast ?b,
              qbacklog_len := qbacklog_len q - 1, qoverflow_output_len := qoverflow_output_len q + 1,
              stored_messages := stats_counter_inc (stored_messages q)\<rparr>"
  have ne: "?b \<noteq> []" using Suc.prems(2) by auto
  have inv: "queue_inv ?q"
    using Suc.prems(1) ne by (cases ?b) (auto simp: queue_inv_def)
  have split: "drop (length ?b - Suc n) ?b @ xs
      = drop (length ?b - Suc n) (butlast ?b) @ last ?b # xs" for xs
    using ne by (cases ?b rule: rev_cases) auto
  have "take (length ?b - Suc n) (butlast ?b) = take (length ?b - Suc n) ?b"
    using ne by (simp add: take_butlast)
  then show ?case
    using Suc.IH [OF inv] Suc.prems(2) ne unfolding split by auto
qed simp

lemma rewind_count_bounded:
  assumes "queue_inv q"
  shows "unat (if n > of_int (qbacklog_len q) then of_int (qbacklog_len q) else n :: u32)
    \<le> length (qbacklog q)"
proof -
  have "unat (of_int (qbacklog_len q) :: u32) \<le> length (qbacklog q)"
    using assms by (simp add: queue_inv_def unat_of_nat unsigned_of_nat take_bit_nat_less_eq_self)
  then show ?thesis by (auto simp: word_less_nat_alt)
qed

lemma check_items_lists:
  "let q' = fst (log_queue_check_items q now n u d) in
     qoverflow_output q' = qoverflow_output q \<and> qoverflow_wait q' = qoverflow_wait q \<and>
     qoverflow_output_len q' = qoverflow_output_len q \<and> qoverflow_wait_len q' = qoverflow_wait_len q \<and>
     qbacklog q' = qbacklog q \<and> qbacklog_len q' = qbacklog_len q \<and>
     qoverflow_input q' = qoverflow_input q \<and> qoverflow_size q' = qoverflow_size q"
  by (simp add: log_queue_check_items_def recalculate_buckets_def Let_def)

lemma log_queue_pop_head_spec:
  assumes "queue_inv q"
  obtains q' r where "log_queue_pop_head q = Some (q', r)" "queue_inv q'"
    "map (\<lambda>(m, a). m) (case r of None \<Rightarrow> [] | Some x \<Rightarrow> [x]) @ map node_msg (queue_content q')
      = map node_msg (queue_content q)"
    "input_items q' = input_items q" "length (qoverflow_input q') = length (qoverflow_input q)"
    "qoverflow_size q' = qoverflow_size q" "length (queue_content q') \<le> length (queue_content q)"
proof (cases "throttle q \<noteq> 0 \<and> throttle_buckets q = 0")
  case True
  then show thesis using assms by (intro that [of q None]) (simp_all add: log_queue_pop_head_def)
next
  case False
  obtain q1 where q1: "log_queue_fifo_pop_head q = Some (q1, case queue_content q of [] \<Rightarrow> None
       | n # ns \<Rightarrow> Some (node_msg n, node_ack_needed n))"
    "queue_inv q1" "queue_content q1 = tl (queue_content q)" "input_items q1 = input_items q"
    "length (qoverflow_input q1) = length (qoverflow_input q)" "qoverflow_size q1 = qoverflow_size q"
    by (rule pop_head_spec [OF assms])
  let ?q = "q1\<lparr>throttle_buckets := throttle_buckets q1 - 1\<rparr>"
  have "queue_inv ?q" "queue_content ?q = queue_content q1" "input_items ?q = input_items q1"
    using q1(2) by (simp_all add: queue_inv_def queue_content_def input_items_def fun_eq_iff)
  then show thesis
    using False q1 by (cases "queue_content q"; cases "throttle_buckets q1 > 0")
      (auto simp: log_queue_pop_head_def intro: that)
qed

lemma exec_inv:
  assumes "queue_inv q" "op_ok op q"
  shows "\<exists>q' out. queue_exec op q = Some (q', out) \<and> queue_inv q'"
proof (cases op)
  case (Op_push_tail tid m po)
  show ?thesis
  proof (cases "tid \<ge> 0")
    case True
    then have "nat tid < length (qoverflow_input q)" "queue_ref_cnt q > 0"
      "length (input_items q (nat tid)) < 65535"
      using assms(2) Op_push_tail by (auto simp: op_ok_def)
    then show ?thesis
      by (rule push_tail_thread_spec [OF assms(1) True, of m po]) (simp add: Op_push_tail)
  next
    case False
    then have "tid < 0" by simp
    then show ?thesis
      by (rule push_tail_direct_spec [OF assms(1), of tid m po]) (simp add: Op_push_tail)
  qed
next
  case (Op_move_input tid)
  then have "0 \<le> tid" "nat tid < length (qoverflow_input q)" "queue_ref_cnt q > 1"
    using assms(2) by (auto simp: op_ok_def)
  then show ?thesis
    by (rule move_input_spec [OF assms(1)]) (simp add: Op_move_input)
next
  case Op_pop_head
  show ?thesis
    by (rule log_queue_pop_head_spec [OF assms(1)]) (simp add: Op_pop_head)
next
  case (Op_ack_backlog n)
  then show ?thesis
    using assms(1) ack_backlog_spec [OF assms(1), of "unat n"]
    by (auto simp: log_queue_ack_backlog_def log_queue_fifo_ack_backlog_def)
next
  case (Op_rewind_backlog n)
  then show ?thesis
    using assms(1) rewind_backlog_loop_spec [OF assms(1) rewind_count_bounded [OF assms(1), of n]]
    by (auto simp: log_queue_rewind_backlog_def log_queue_fifo_rewind_backlog_def Let_def)
next
  case Op_rewind_backlog_all
  then show ?thesis
    using assms(1)
    by (simp add: log_queue_rewind_backlog_all_def log_queue_fifo_rewind_backlog_all_def queue_inv_def)
next
  case (Op_check_items now n u d)
  then show ?thesis
    using assms(1) check_items_lists [of q now n u d] by (simp add: queue_inv_def Let_def)
qed (use assms(1) in \<open>simp_all add: log_queue_fifo_push_head_def log_queue_set_throttle_def
      log_queue_set_use_backlog_def queue_inv_def\<close>)

subsection \<open>Order of delivery\<close>

definition fifo_op :: "'m queue_op \<Rightarrow> bool" where
  "fifo_op op = (case op of Op_push_head _ _ \<Rightarrow> False | Op_rewind_backlog _ \<Rightarrow> False
                 | Op_rewind_backlog_all \<Rightarrow> False | _ \<Rightarrow> True)"

definition pushed :: "'m queue_op list \<Rightarrow> 'm list" where
  "pushed ops = concat (map (\<lambda>op. case op of Op_push_tail _ m _ \<Rightarrow> [m] | _ \<Rightarrow> []) ops)"

text \<open>Only thread \<open>t\<close> pushes the messages selected by \<open>P\<close>.\<close>

definition pushed_by :: "('m \<Rightarrow> bool) \<Rightarrow> int \<Rightarrow> 'm queue_op \<Rightarrow> bool" where
  "pushed_by P t op = (case op of Op_push_tail t' m _ \<Rightarrow> P m \<longrightarrow> t' = t | _ \<Rightarrow> True)"

definition sel :: "('m \<Rightarrow> bool) \<Rightarrow> 'm queue_node list \<Rightarrow> 'm list" where
  "sel P ns = filter P (map node_msg ns)"

lemma sel_simps [simp]:
  "sel P [] = []" "sel P (xs @ ys) = sel P xs @ sel P ys"
  "sel P (n # ns) = (if P (node_msg n) then node_msg n # sel P ns else sel P ns)"
  by (simp_all add: sel_def)

lemma sel_drop: "subseq (sel P (drop k ns)) (sel P ns)"
  unfolding sel_def drop_map [symmetric] by (intro subseq_filter suffix_imp_subseq suffix_drop)

definition pending :: "('m \<Rightarrow> bool) \<Rightarrow> int \<Rightarrow> 'm log_queue \<Rightarrow> 'm list" where
  "pending P t q = sel P (queue_content q) @ (if 0 \<le> t then sel P (input_items q (nat t)) else [])"

text \<open>No other thread has a selected message in its input queue.\<close>

definition quiet :: "('m \<Rightarrow> bool) \<Rightarrow> int \<Rightarrow> 'm log_queue \<Rightarrow> bool" where
  "quiet P t q \<longleftrightarrow> (\<forall>k < length (qoverflow_input q). int k \<noteq> t \<longrightarrow> sel P (input_items q k) = [])"

lemma pushed_Cons: "pushed (op # ops) = pushed [op] @ pushed ops"
  by (simp add: pushed_def)

lemma init_node_msg [simp]: "node_msg (log_msg_init_queue_node m po) = m"
  by (simp add: log_msg_init_queue_node_def)

lemma push_tail_order:
  assumes "queue_inv q" "op_ok (Op_push_tail tid m po) q" "pushed_by P t (Op_push_tail tid m po)"
    "quiet P t q" "log_queue_fifo_push_tail q tid m po = Some q'"
  shows "subseq (pending P t q') (pending P t q @ filter P [m]) \<and> quiet P t q'"
proof (cases "tid \<ge> 0")
  case True
  have *: "nat tid < length (qoverflow_input q)" "queue_ref_cnt q > 0"
    "length (input_items q (nat tid)) < 65535"
    using assms(2) True by (auto simp: op_ok_def)
  from * have q': "queue_content q' = queue_content q"
    "input_items q' = (input_items q)
       (nat tid := input_items q (nat tid) @ [log_msg_init_queue_node m po])"
    "length (qoverflow_input q') = length (qoverflow_input q)"
    using push_tail_thread_spec [OF assms(1) True *, of m po] assms(5) by (metis option.inject)+
  show ?thesis
  proof (cases "tid = t")
    case True
    then show ?thesis using assms(4) \<open>tid \<ge> 0\<close> by (auto simp: pending_def quiet_def q')
  next
    case False
    then have "\<not> P m" "nat t = nat tid \<longrightarrow> \<not> 0 \<le> t"
      using assms(3) \<open>tid \<ge> 0\<close> by (auto simp: pushed_by_def)
    then show ?thesis using assms(4) by (auto simp: pending_def quiet_def q')
  qed
next
  case False
  then have neg: "tid < 0" by simp
  have q': "queue_content q' = (if int (length (queue_content q)) < qoverflow_size q
       then queue_content q @ [log_msg_init_queue_node m po] else queue_content q)"
    "input_items q' = input_items q" "length (qoverflow_input q') = length (qoverflow_input q)"
    using push_tail_direct_spec [OF assms(1) neg, of m po] assms(5) by (metis option.inject)+
  show ?thesis
    using assms(3,4) neg by (auto simp: pending_def quiet_def q' pushed_by_def intro: list_emb_append2)
qed

lemma move_input_order:
  assumes "queue_inv q" "op_ok (Op_move_input tid) q" "quiet P t q"
    "log_queue_fifo_move_input q tid = Some q'"
  shows "subseq (pending P t q') (pending P t q) \<and> quiet P t q'"
proof -
  have *: "0 \<le> tid" "nat tid < length (qoverflow_input q)" "queue_ref_cnt q > 1"
    using assms(2) by (auto simp: op_ok_def)
  let ?n = "overflow_count q (nat tid)"
  have q': "queue_content q' = queue_content q @ drop ?n (input_items q (nat tid))"
    "input_items q' = (input_items q)(nat tid := [])"
    "length (qoverflow_input q') = length (qoverflow_input q)"
    using move_input_spec [OF assms(1) *] assms(4) by (metis option.inject)+
  show ?thesis
  proof (cases "tid = t")
    case True
    then show ?thesis
      using assms(3) *(1) list_emb_append_mono [OF subseq_order.refl sel_drop,
          of "sel P (queue_content q)" P ?n "input_items q (nat tid)"]
      by (simp add: pending_def quiet_def q')
  next
    case False
    then have "sel P (input_items q (nat tid)) = []"
      using assms(3) * by (simp add: quiet_def)
    then have "sel P (drop ?n (input_items q (nat tid))) = []"
      using sel_drop [of P ?n "input_items q (nat tid)"] by simp
    then show ?thesis
      using assms(3) *(1) False by (auto simp: pending_def quiet_def q')
  qed
qed

lemma same_lists_order:
  assumes "queue_content q' = queue_content q" "qoverflow_input q' = qoverflow_input q"
  shows "pending P t q' = pending P t q" "quiet P t q' = quiet P t q"
  using assms by (simp_all add: pending_def quiet_def input_items_def)

lemma exec_order:
  assumes "queue_inv q" "op_ok op q" "fifo_op op" "pushed_by P t op" "quiet P t q"
    "queue_exec op q = Some (q', out)"
  shows "subseq (filter P (map pop_msg out) @ pending P t q') (pending P t q @ filter P (pushed [op]))
    \<and> quiet P t q'"
proof (cases op)
  case (Op_push_tail tid m po)
  then show ?thesis
    using push_tail_order [of q tid m po P t q'] assms by (auto simp: pushed_def)
next
  case (Op_move_input tid)
  then show ?thesis
    using move_input_order [of q tid P t q'] assms by (auto simp: pushed_def)
next
  case Op_pop_head
  obtain q1 r where q1: "log_queue_pop_head q = Some (q1, r)"
    "map (\<lambda>(m, a). m) (case r of None \<Rightarrow> [] | Some x \<Rightarrow> [x]) @ map node_msg (queue_content q1)
      = map node_msg (queue_content q)"
    "input_items q1 = input_items q" "length (qoverflow_input q1) = length (qoverflow_input q)"
    by (rule log_queue_pop_head_spec [OF assms(1)])
  have eq: "q' = q1" "out = (case r of None \<Rightarrow> []
       | Some (m, a) \<Rightarrow> [\<lparr>pop_msg = m, pop_ack_needed = a, pop_backlog = use_backlog q\<rparr>])"
    using assms(6) q1(1) Op_pop_head by auto
  have "map pop_msg out @ map node_msg (queue_content q') = map node_msg (queue_content q)"
    using q1(2) by (cases r) (auto simp: eq)
  then have "filter P (map pop_msg out) @ sel P (queue_content q') = sel P (queue_content q)"
    by (metis filter_append sel_def)
  then have "filter P (map pop_msg out) @ pending P t q' = pending P t q"
    by (simp add: pending_def eq(1) q1(3))
  then show ?thesis
    using assms(5) q1(3,4) Op_pop_head by (simp add: eq(1) quiet_def pushed_def)
next
  case (Op_ack_backlog n)
  obtain q1 where q1: "ack_backlog_loop (unat n) q = Some q1" "queue_content q1 = queue_content q"
    "qoverflow_input q1 = qoverflow_input q"
    using ack_backlog_spec [OF assms(1), of "unat n"] by blast
  have "queue_exec op q = Some (if use_backlog q then q1 else q, [])"
    by (simp add: Op_ack_backlog log_queue_ack_backlog_def log_queue_fifo_ack_backlog_def q1(1))
  then have "q' = (if use_backlog q then q1 else q)" "out = []"
    using assms(6) by simp_all
  then have "queue_content q' = queue_content q" "qoverflow_input q' = qoverflow_input q" "out = []"
    using q1(2,3) by simp_all
  then show ?thesis
    using assms(5) same_lists_order [of q' q P t] by (simp add: Op_ack_backlog pushed_def)
next
  case (Op_check_items now n u d)
  then have "queue_content q' = queue_content q" "qoverflow_input q' = qoverflow_input q" "out = []"
    using assms(6) check_items_lists [of q now n u d] by (auto simp: queue_content_def Let_def)
  then show ?thesis
    using assms(5) same_lists_order [of q' q P t] by (simp add: Op_check_items pushed_def)
next
  case (Op_set_throttle x)
  then have "queue_content q' = queue_content q" "qoverflow_input q' = qoverflow_input q" "out = []"
    using assms(6) by (auto simp: queue_content_def log_queue_set_throttle_def)
  then show ?thesis
    using assms(5) same_lists_order [of q' q P t] by (simp add: Op_set_throttle pushed_def)
next
  case (Op_set_use_backlog x)
  then have "queue_content q' = queue_content q" "qoverflow_input q' = qoverflow_input q" "out = []"
    using assms(6) by (auto simp: queue_content_def log_queue_set_use_backlog_def)
  then show ?thesis
    using assms(5) same_lists_order [of q' q P t] by (simp add: Op_set_use_backlog pushed_def)
qed (use assms(3) in \<open>simp_all add: fifo_op_def\<close>)

lemma run_order:
  assumes "queue_inv q" "run_ok ops q" "list_all fifo_op ops" "list_all (pushed_by P t) ops"
    "quiet P t q" "queue_run ops q = Some (q', outs)"
  shows "subseq (filter P (map pop_msg outs) @ pending P t q')
    (pending P t q @ filter P (pushed ops))"
  using assms
proof (induction ops arbitrary: q outs)
  case Nil
  then show ?case by (simp add: pushed_def)
next
  case (Cons op ops)
  from Cons.prems(6) obtain q1 out outs' where q1: "queue_exec op q = Some (q1, out)"
    "queue_run ops q1 = Some (q', outs')" "outs = out @ outs'"
    by (auto simp: bind_eq_Some_conv)
  have inv: "queue_inv q1"
    using exec_inv [of q op] Cons.prems(1,2) q1(1) by auto
  have step: "subseq (filter P (map pop_msg out) @ pending P t q1)
      (pending P t q @ filter P (pushed [op]))" "quiet P t q1"
    using exec_order [of q op P t q1 out] Cons.prems(1-5) q1(1) by simp_all
  have "run_ok ops q1" "list_all fifo_op ops" "list_all (pushed_by P t) ops"
    using Cons.prems(2-4) q1(1) by simp_all
  then have "subseq (filter P (map pop_msg outs') @ pending P t q') (pending P t q1 @ filter P (pushed ops))"
    by (rule Cons.IH [OF inv _ _ _ step(2) q1(2)])
  then have "subseq (filter P (map pop_msg out) @ filter P (map pop_msg outs') @ pending P t q')
      (filter P (map pop_msg out) @ pending P t q1 @ filter P (pushed ops))"
    by (rule list_emb_append_mono [OF subseq_order.refl])
  also have "subseq \<dots> ((pending P t q @ filter P (pushed [op])) @ filter P (pushed ops))"
    using list_emb_append_mono [OF step(1) subseq_order.refl] by simp
  finally show ?case
    unfolding q1(3) pushed_Cons [of op ops] by simp
qed


definition thread_demo :: "string queue_op list" where
  "thread_demo =
     [Op_push_tail 0 ''a1'' flow_options, Op_push_tail 1 ''b1'' flow_options,
      Op_push_tail 0 ''a2'' flow_options, Op_move_input 1, Op_move_input 0,
      Op_pop_head, Op_pop_head, Op_pop_head]"


subsection \<open>Capacity\<close>

lemma exec_capacity:
  assumes "queue_inv q" "op_ok op q" "fifo_op op" "queue_exec op q = Some (q', out)"
    "0 \<le> qoverflow_size q" "int (length (queue_content q)) \<le> qoverflow_size q"
  shows "qoverflow_size q' = qoverflow_size q \<and> int (length (queue_content q')) \<le> qoverflow_size q"
proof (cases op)
  case (Op_push_tail tid m po)
  show ?thesis
  proof (cases "tid \<ge> 0")
    case True
    then have "nat tid < length (qoverflow_input q)" "queue_ref_cnt q > 0"
      "length (input_items q (nat tid)) < 65535"
      using assms(2) Op_push_tail by (auto simp: op_ok_def)
    then show ?thesis
      by (rule push_tail_thread_spec [OF assms(1) True, of m po])
        (use assms(4,6) Op_push_tail in simp)
  next
    case False
    then have "tid < 0" by simp
    then show ?thesis
      by (rule push_tail_direct_spec [OF assms(1), of tid m po])
        (use assms(4,6) Op_push_tail in simp)
  qed
next
  case (Op_move_input tid)
  then have *: "0 \<le> tid" "nat tid < length (qoverflow_input q)" "queue_ref_cnt q > 1"
    using assms(2) by (auto simp: op_ok_def)
  show ?thesis
    by (rule move_input_spec [OF assms(1) *])
      (use assms(4,6) Op_move_input overflow_count_capacity [OF assms(1) *(2) assms(5)] in simp)
next
  case Op_pop_head
  show ?thesis
    by (rule log_queue_pop_head_spec [OF assms(1)]) (use assms(4,6) Op_pop_head in simp)
next
  case (Op_ack_backlog n)
  obtain q1 where q1: "ack_backlog_loop (unat n) q = Some q1" "queue_content q1 = queue_content q"
    "qoverflow_size q1 = qoverflow_size q"
    using ack_backlog_spec [OF assms(1), of "unat n"] by blast
  have "queue_exec op q = Some (if use_backlog q then q1 else q, [])"
    by (simp add: Op_ack_backlog log_queue_ack_backlog_def log_queue_fifo_ack_backlog_def q1(1))
  then show ?thesis using assms(4,6) q1(2,3) by auto
next
  case (Op_check_items now n u d)
  then show ?thesis
    using assms(4,6) check_items_lists [of q now n u d] by (auto simp: queue_content_def Let_def)
qed (use assms(3,4,6) in \<open>auto simp: fifo_op_def queue_content_def log_queue_set_throttle_def
      log_queue_set_use_backlog_def\<close>)

lemma run_capacity:
  assumes "queue_inv q" "run_ok ops q" "list_all fifo_op ops" "queue_run ops q = Some (q', outs)"
    "0 \<le> qoverflow_size q" "int (length (queue_content q)) \<le> qoverflow_size q"
  shows "queue_inv q' \<and> int (length (queue_content q')) \<le> qoverflow_size q"
  using assms
proof (induction ops arbitrary: q outs)
  case (Cons op ops)
  from Cons.prems(4) obtain q1 out outs' where q1: "queue_exec op q = Some (q1, out)"
    "queue_run ops q1 = Some (q', outs')" by (auto simp: bind_eq_Some_conv)
  have inv: "queue_inv q1"
    using exec_inv [of q op] Cons.prems(1,2) q1(1) by auto
  have "qoverflow_size q1 = qoverflow_size q \<and> int (length (queue_content q1)) \<le> qoverflow_size q"
    using exec_capacity [OF Cons.prems(1) _ _ q1(1)] Cons.prems(2-6) by simp
  then show ?case
    using Cons.IH [OF inv _ _ q1(2)] Cons.prems(2,3,5) q1(1) by simp
qed simp



subsection \<open>Rewinding the backlog\<close>

lemma run_pops:
  assumes "queue_inv q" "use_backlog q" "throttle q = 0" "throttle_buckets q = 0"
    "k \<le> length (queue_content q)"
  shows "\<exists>q' outs. queue_run (replicate k Op_pop_head) q = Some (q', outs) \<and>
     map pop_msg outs = map node_msg (take k (queue_content q)) \<and> queue_inv q' \<and>
     queue_content q' = drop k (queue_content q) \<and>
     qbacklog q' = qbacklog q @ take k (queue_content q) \<and> use_backlog q'"
  using assms
proof (induction k arbitrary: q)
  case (Suc k)
  obtain n ns where content: "queue_content q = n # ns"
    using Suc.prems(5) by (cases "queue_content q") auto
  obtain q1 where q1:
    "log_queue_fifo_pop_head q = Some (q1, Some (node_msg n, node_ack_needed n))"
    "queue_inv q1" "queue_content q1 = ns" "qbacklog q1 = qbacklog q @ [n]"
    "use_backlog q1" "throttle q1 = 0" "throttle_buckets q1 = 0"
    by (rule pop_head_spec [OF Suc.prems(1)]) (use content Suc.prems in auto)
  have "log_queue_pop_head q = Some (q1, Some (node_msg n, node_ack_needed n))"
    using Suc.prems(3) q1(1,7) by (simp add: log_queue_pop_head_def)
  then show ?case
    using Suc.IH [OF q1(2,5-7)] Suc.prems(5) content q1(3,4) by auto
qed simp

text \<open>
  C21: Popping a batch of messages and rewinding the same number restores the
  queue: the content is the original sequence and the backlog is as before, so
  that a destination that fails to deliver sends the same messages again, in
  order.
\<close>
theorem rewind_restores_queue:
  assumes "queue_inv q" and "use_backlog q" and "throttle q = 0" and "throttle_buckets q = 0"
    and "k \<le> length (queue_content q)" and "length (qbacklog q) + k < 2 ^ 32"
  shows "\<exists>q1 outs q2. queue_run (replicate k Op_pop_head) q = Some (q1, outs) \<and>
     map pop_msg outs = map node_msg (take k (queue_content q)) \<and>
     log_queue_rewind_backlog q1 (of_nat k) = Some q2 \<and>
     queue_content q2 = queue_content q \<and> qbacklog q2 = qbacklog q"
proof -
  obtain q1 outs where q1: "queue_run (replicate k Op_pop_head) q = Some (q1, outs)"
    "map pop_msg outs = map node_msg (take k (queue_content q))" "queue_inv q1"
    "queue_content q1 = drop k (queue_content q)"
    "qbacklog q1 = qbacklog q @ take k (queue_content q)" "use_backlog q1"
    using run_pops [OF assms(1-5)] by blast
  have len: "length (qbacklog q1) = length (qbacklog q) + k"
    using assms(5) q1(5) by simp
  have "unat (of_nat (length (qbacklog q1)) :: u32) = length (qbacklog q1)" "unat (of_nat k :: u32) = k"
    unfolding unat_of_nat_u32_iff using assms(6) len by simp_all
  moreover have "(of_int (qbacklog_len q1) :: u32) = of_nat (length (qbacklog q1))"
    using q1(3) by (simp add: queue_inv_def)
  ultimately have count: "unat (if of_nat k > (of_int (qbacklog_len q1) :: u32) then of_int (qbacklog_len q1)
      else of_nat k :: u32) = k"
    using len by (simp add: word_less_nat_alt)
  obtain q2 where "rewind_backlog_loop k q1 = Some q2"
    "qoverflow_output q2 = drop (length (qbacklog q)) (qbacklog q1) @ qoverflow_output q1"
    "qbacklog q2 = take (length (qbacklog q)) (qbacklog q1)" "qoverflow_wait q2 = qoverflow_wait q1"
    using rewind_backlog_loop_spec [OF q1(3), of k] len by auto
  moreover from this have "queue_content q2 = take k (queue_content q) @ queue_content q1"
    by (simp add: queue_content_def [of q2] queue_content_def [of q1] q1(5))
  then have "queue_content q2 = queue_content q"
    by (simp add: q1(4))
  ultimately show ?thesis
    using q1 count by (auto simp: log_queue_rewind_backlog_def log_queue_fifo_rewind_backlog_def Let_def)
qed

text \<open>
  C30: \<open>log_queue_rewind_backlog_all\<close> does not restore the order: it puts the
  backlog behind the messages still in the output queue, whereas rewinding by
  count puts it in front.  The two agree exactly when the backlog and the
  output queue commute, in particular when the output queue is empty.
\<close>
theorem rewind_all_goes_behind_output:
  assumes "queue_inv q" and "use_backlog q" and "length (qbacklog q) < 2 ^ 32"
  shows "queue_content (log_queue_rewind_backlog_all q)
           = qoverflow_output q @ qbacklog q @ qoverflow_wait q \<and>
         map_option queue_content (log_queue_rewind_backlog q (of_nat (length (qbacklog q))))
           = Some (qbacklog q @ qoverflow_output q @ qoverflow_wait q)"
proof -
  have "unat (of_int (qbacklog_len q) :: u32) = length (qbacklog q)"
    "unat (of_nat (length (qbacklog q)) :: u32) = length (qbacklog q)"
    using assms(1,3) by (simp_all add: queue_inv_def unat_of_nat_u32_iff)
  moreover obtain q2 where "rewind_backlog_loop (length (qbacklog q)) q = Some q2"
    "qoverflow_output q2 = qbacklog q @ qoverflow_output q" "qoverflow_wait q2 = qoverflow_wait q"
    using rewind_backlog_loop_spec [OF assms(1) order_refl] by auto
  ultimately show ?thesis
    using assms(2)
    by (simp add: log_queue_rewind_backlog_all_def log_queue_fifo_rewind_backlog_all_def
        queue_content_def log_queue_rewind_backlog_def log_queue_fifo_rewind_backlog_def Let_def)
qed

definition three_messages :: "string log_queue" where
  "three_messages = (log_queue_fifo_new 0 10)
     \<lparr>use_backlog := True, qoverflow_wait_len := 3,
      qoverflow_wait := map (\<lambda>m. log_msg_init_queue_node m flow_options) [''a'', ''b'', ''c'']\<rparr>"

theorem rewind_restores_queue_witness:
  "\<exists>q1 outs q2. queue_run (replicate 2 Op_pop_head) three_messages = Some (q1, outs) \<and>
     map pop_msg outs = [''a'', ''b''] \<and> log_queue_rewind_backlog q1 (of_nat 2) = Some q2 \<and>
     queue_content q2 = queue_content three_messages \<and> qbacklog q2 = qbacklog three_messages"
proof -
  have inv: "queue_inv three_messages" by (simp add: queue_inv_def three_messages_def log_queue_fifo_new_def)
  have "map node_msg (take 2 (queue_content three_messages)) = [''a'', ''b'']" by code_simp
  then show ?thesis
    using rewind_restores_queue [OF inv, of 2]
    by (simp add: three_messages_def log_queue_fifo_new_def queue_content_def)
qed

theorem rewind_all_goes_behind_output_witness:
  "\<exists>q outs. queue_run [Op_pop_head] three_messages = Some (q, outs) \<and>
     queue_content (log_queue_rewind_backlog_all q)
       = qoverflow_output q @ qbacklog q @ qoverflow_wait q \<and>
     map node_msg (queue_content (log_queue_rewind_backlog_all q)) = [''b'', ''c'', ''a'']"
proof -
  have "map_option (\<lambda>(q, outs). (map node_msg (qoverflow_output q), map node_msg (qbacklog q),
      map node_msg (qoverflow_wait q), use_backlog q, queue_inv q))
      (queue_run [Op_pop_head] three_messages) = Some ([''b'', ''c''], [''a''], [], True, True)"
    by code_simp
  then obtain q outs where q: "queue_run [Op_pop_head] three_messages = Some (q, outs)"
    and h: "(map node_msg (qoverflow_output q), map node_msg (qbacklog q),
      map node_msg (qoverflow_wait q), use_backlog q, queue_inv q) = ([''b'', ''c''], [''a''], [], True, True)"
    by (rule map_option_pair_SomeE)
  have "length (qbacklog q) = 1" using h by (metis length_map length_Cons list.size(3) prod.inject One_nat_def)
  then have "queue_content (log_queue_rewind_backlog_all q)
      = qoverflow_output q @ qbacklog q @ qoverflow_wait q"
    using rewind_all_goes_behind_output [of q] h by simp
  then show ?thesis
    using q h by (intro exI [of _ q] exI [of _ outs]) simp
qed

subsection \<open>The 16 bit counter of an input queue\<close>

text \<open>
  C31: The counter of an input queue is 16 bits wide.  The 65536th message one
  thread pushes before its batch is moved resets it to 0; the batch is then
  spliced to the wait queue uncounted, the queue reports length 0 with 65536
  messages in it, and popping returns nothing.
\<close>
theorem input_counter_wraps:
  assumes "queue_inv q" and "tid < length (qoverflow_input q)" and "queue_content q = []"
    and "length (input_items q tid) = 65535" and "inq_finish_cb_registered (qoverflow_input q ! tid)"
    and "0 \<le> qoverflow_size q"
  shows "\<exists>q1 q2. log_queue_fifo_push_tail q (int tid) m po = Some q1 \<and>
     log_queue_fifo_move_input_unlocked q1 tid = Some q2 \<and>
     length (queue_content q2) = 65536 \<and> log_queue_fifo_get_length q2 = 0 \<and>
     map_option snd (log_queue_fifo_pop_head q2) = Some None"
proof -
  let ?inq = "qoverflow_input q ! tid" and ?node = "log_msg_init_queue_node m po"
  define q1 where "q1 = calls [Msg_ref m, Msg_unref m] (q\<lparr>qoverflow_input := (qoverflow_input q)
     [tid := ?inq\<lparr>inq_items := inq_items ?inq @ [?node], inq_len := inq_len ?inq + 1\<rparr>]\<rparr>)"
  have "unat (inq_len ?inq) = 65535"
    using inv_input_len [OF assms(1,2)] assms(4) by simp
  then have "inq_len ?inq = 65535"
    by (simp add: word_unat_eq_iff)
  then have zero: "inq_len ?inq + 1 = 0" by simp
  have push: "log_queue_fifo_push_tail q (int tid) m po = Some q1"
    using assms(2,5) by (simp add: log_queue_fifo_push_tail_def q1_def Let_def)
  have lens: "log_queue_fifo_get_length q1 = 0" "qoverflow_wait q1 = []" "qoverflow_output q1 = []"
    "qoverflow_wait_len q1 = 0" "qoverflow_output_len q1 = 0"
    using assms(1,3) by (auto simp: q1_def log_queue_fifo_get_length_def queue_inv_def queue_content_def)
  have inq: "qoverflow_input q1 ! tid = ?inq\<lparr>inq_items := inq_items ?inq @ [?node], inq_len := 0\<rparr>"
    using assms(2) zero by (simp add: q1_def)
  have "overflow_count q1 tid = 0"
    using assms(6) lens(1) by (simp add: overflow_count_def inq)
  then have "log_queue_fifo_move_input_unlocked q1 tid = Some (splice_input q1 tid)"
    using assms(2) by (simp add: move_input_unlocked_eq q1_def)
  moreover have "length (queue_content (splice_input q1 tid)) = 65536"
    using lens assms(4) by (simp add: splice_input_def inq queue_content_def input_items_def)
  moreover have "log_queue_fifo_get_length (splice_input q1 tid) = 0"
    "map_option snd (log_queue_fifo_pop_head (splice_input q1 tid)) = Some None"
    using lens by (simp_all add: splice_input_def inq log_queue_fifo_get_length_def
        log_queue_fifo_pop_head_def refill_output_def Let_def)
  ultimately show ?thesis using push by blast
qed

definition full_batch :: "nat queue_node list" where
  "full_batch = replicate 65535 (log_msg_init_queue_node 7 flow_options)"

lemma length_full_batch: "length full_batch = 65535"
  by (simp only: full_batch_def length_replicate)

definition full_input :: "nat log_queue" where
  "full_input = (log_queue_fifo_new 1 100000)
     \<lparr>qoverflow_input := [\<lparr>inq_items = full_batch, inq_len = 65535, inq_finish_cb_registered = True\<rparr>]\<rparr>"

theorem input_counter_wraps_witness:
  "\<exists>q1 q2. log_queue_fifo_push_tail full_input 0 8 flow_options = Some q1 \<and>
     log_queue_fifo_move_input_unlocked q1 0 = Some q2 \<and>
     length (queue_content q2) = 65536 \<and> log_queue_fifo_get_length q2 = 0 \<and>
     map_option snd (log_queue_fifo_pop_head q2) = Some None"
proof -
  have "queue_inv full_input"
    by (simp add: queue_inv_def full_input_def log_queue_fifo_new_def length_full_batch)
  then show ?thesis
    using input_counter_wraps [of full_input 0 8 flow_options]
    by (simp add: full_input_def queue_content_def input_items_def log_queue_fifo_new_def
        length_full_batch)
qed

subsection \<open>The throttle\<close>

definition usec :: "gtimeval \<Rightarrow> int" where
  "usec t = gtv_sec t * 1000000 + gtv_usec t"

text \<open>
  Clock readings for which the 32 bit arithmetic of the buckets is exact: time
  does not run backwards, and the buckets earned since the last check fit.
\<close>

definition clock_ok :: "'m queue_op \<Rightarrow> 'm log_queue \<Rightarrow> bool" where
  "clock_ok op q =
     (case op of
        Op_check_items now _ _ _ \<Rightarrow>
          gtv_sec now > 0 \<and> usec (last_throttle_check q) \<le> usec now \<and>
          throttle q * (usec now - usec (last_throttle_check q)) div 1000000 + throttle q < 2 ^ 31
      | Op_set_throttle _ \<Rightarrow> False
      | _ \<Rightarrow> True)"

fun clock_run_ok :: "'m queue_op list \<Rightarrow> 'm log_queue \<Rightarrow> bool" where
  "clock_run_ok [] q = True"
| "clock_run_ok (op # ops) q =
     (clock_ok op q \<and> (case queue_exec op q of None \<Rightarrow> False | Some (q', _) \<Rightarrow> clock_run_ok ops q'))"

definition throttle_inv :: "'m log_queue \<Rightarrow> bool" where
  "throttle_inv q \<longleftrightarrow> 0 < throttle q \<and> throttle q < 2 ^ 31 \<and> 0 \<le> throttle_buckets q \<and>
     throttle_buckets q \<le> throttle q \<and> gtv_sec (last_throttle_check q) > 0"

lemma to_gint_id: "- (2 ^ 31) \<le> x \<Longrightarrow> x < 2 ^ 31 \<Longrightarrow> to_gint x = x"
  by (simp add: to_gint_def signed_take_bit_int_eq_self_iff)

lemma to_gint_wrap:
  assumes "2 ^ 31 \<le> x" "x < 2 ^ 32"
  shows "to_gint x = x - 2 ^ 32"
proof -
  have "(x + 2147483648) mod 4294967296 = x + 2147483648 - 4294967296"
    using mod_add_self2 [of "x - 2147483648" 4294967296] assms by (simp add: add.commute)
  then show ?thesis
    by (simp add: to_gint_def signed_take_bit_eq_take_bit_shift take_bit_eq_mod)
qed

text \<open>The allowance: buckets, and what the time up to the last check is worth.\<close>

definition allowance :: "'m log_queue \<Rightarrow> int" where
  "allowance q = throttle_buckets q * 1000000 - throttle q * usec (last_throttle_check q)"

lemma floor_million: "x div 1000000 * 1000000 \<le> (x :: int)"
  by presburger

lemma recalculate_buckets_allowance:
  assumes "throttle_inv q" "gtv_sec now > 0" "usec (last_throttle_check q) \<le> usec now"
    "throttle q * (usec now - usec (last_throttle_check q)) div 1000000 + throttle q < 2 ^ 31"
  shows "throttle_inv (recalculate_buckets now q) \<and> throttle (recalculate_buckets now q) = throttle q \<and>
    allowance (recalculate_buckets now q) \<le> allowance q"
proof -
  let ?d = "usec now - usec (last_throttle_check q)"
  let ?n = "throttle q * ?d div 1000000"
  have diff: "g_time_val_diff now (last_throttle_check q) = ?d"
    by (simp add: g_time_val_diff_def usec_def)
  have prod: "0 \<le> throttle q * ?d"
    using assms(1,3) by (simp add: throttle_inv_def)
  then have n: "0 \<le> ?n" by (simp add: pos_imp_zdiv_nonneg_iff)
  have exact: "to_gint (c_div (throttle q * ?d) 1000000) = ?n"
    using prod n assms(1,4) by (simp add: c_div_nonneg throttle_inv_def to_gint_id)
  have sum: "to_gint (throttle_buckets q + ?n) = throttle_buckets q + ?n"
    using n assms(1,4) by (intro to_gint_id) (auto simp: throttle_inv_def)
  have floor: "?n * 1000000 \<le> throttle q * ?d"
    by (rule floor_million)
  have eq: "recalculate_buckets now q = (if ?n \<noteq> 0 then
      q\<lparr>throttle_buckets := min (throttle q) (throttle_buckets q + ?n), last_throttle_check := now\<rparr> else q)"
    using assms(1) by (simp add: recalculate_buckets_def Let_def diff exact sum throttle_inv_def)
  have "min (throttle q) (throttle_buckets q + ?n) * 1000000 \<le> throttle_buckets q * 1000000 + throttle q * ?d"
    using floor by (simp add: min_def algebra_simps)
  then have "allowance (recalculate_buckets now q) \<le> allowance q"
    by (simp add: eq allowance_def algebra_simps)
  then show ?thesis
    using assms(1,2) n by (auto simp: eq throttle_inv_def)
qed

definition throttle_state :: "'m log_queue \<Rightarrow> int \<times> int \<times> gtimeval" where
  "throttle_state q = (throttle q, throttle_buckets q, last_throttle_check q)"

lemma throttle_state_notify [simp]: "throttle_state (log_queue_push_notify q) = throttle_state q"
  by (simp add: log_queue_push_notify_def throttle_state_def calls_def Let_def split: option.split)

lemma throttle_state_unref:
  "log_queue_unref q = Some q' \<Longrightarrow> throttle_state q' = throttle_state q"
  by (auto simp: log_queue_unref_def log_queue_fifo_free_def throttle_state_def bind_eq_Some_conv Let_def
      split: if_splits)

lemma throttle_state_input [simp]:
  "throttle_state (q\<lparr>qoverflow_input := x\<rparr>) = throttle_state q"
  by (simp add: throttle_state_def)

lemma throttle_state_move:
  assumes "log_queue_fifo_move_input_unlocked q tid = Some q'"
  shows "throttle_state q' = throttle_state q"
  by (rule move_input_unlocked_shape [OF assms]) (simp add: throttle_state_def)

lemma throttle_state_move_input:
  "log_queue_fifo_move_input q tid = Some q' \<Longrightarrow> throttle_state q' = throttle_state q"
  by (auto simp: log_queue_fifo_move_input_def Let_def bind_eq_Some_conv
      dest!: throttle_state_move throttle_state_unref)

lemma throttle_state_push_tail:
  assumes "log_queue_fifo_push_tail q tid m po = Some q'"
  shows "throttle_state q' = throttle_state q"
proof -
  have calls: "throttle_state (calls cs q1) = throttle_state q1" for cs q1
    by (simp add: throttle_state_def)
  have upd: "throttle_state (q1\<lparr>stored_messages := a\<rparr>) = throttle_state q1"
    "throttle_state (q1\<lparr>dropped_messages := a\<rparr>) = throttle_state q1"
    "throttle_state (q1\<lparr>queue_ref_cnt := r\<rparr>) = throttle_state q1"
    "throttle_state (q1\<lparr>qoverflow_wait := w, qoverflow_wait_len := k\<rparr>) = throttle_state q1" for q1 a r w k
    by (simp_all add: throttle_state_def)
  show ?thesis
    using assms
    by (auto simp: log_queue_fifo_push_tail_def Let_def bind_eq_Some_conv log_queue_ref_def calls upd
        split: if_splits)
qed

lemma throttle_state_ack:
  "ack_backlog_loop n q = Some q' \<Longrightarrow> throttle_state q' = throttle_state q"
  by (induction n q rule: ack_backlog_loop.induct)
    (auto simp: throttle_state_def split: if_splits list.splits)

lemma throttle_state_rewind:
  "rewind_backlog_loop n q = Some q' \<Longrightarrow> throttle_state q' = throttle_state q"
  by (induction n q rule: rewind_backlog_loop.induct)
    (auto simp: throttle_state_def split: if_splits)

lemma throttle_state_push_head:
  "throttle_state (log_queue_fifo_push_head q m po) = throttle_state q"
  by (simp add: throttle_state_def log_queue_fifo_push_head_def)

lemma throttle_state_rewind_all:
  "throttle_state (log_queue_rewind_backlog_all q) = throttle_state q"
  by (simp add: throttle_state_def log_queue_rewind_backlog_all_def
      log_queue_fifo_rewind_backlog_all_def)

lemma throttle_state_use_backlog:
  "throttle_state (log_queue_set_use_backlog q b) = throttle_state q"
  by (simp add: throttle_state_def log_queue_set_use_backlog_def)

lemma pop_head_allowance:
  assumes "throttle_inv q" "queue_exec Op_pop_head q = Some (q', out)"
  shows "throttle_inv q' \<and> throttle q' = throttle q \<and>
    last_throttle_check q' = last_throttle_check q \<and>
    int (length out) + throttle_buckets q' \<le> throttle_buckets q"
proof (cases "throttle_buckets q = 0")
  case True
  then show ?thesis using assms by (auto simp: log_queue_pop_head_def throttle_inv_def)
next
  case False
  then obtain q1 r where q1: "log_queue_fifo_pop_head q = Some (q1, r)"
    and q': "q' = (if r \<noteq> None \<and> throttle_buckets q1 > 0
       then q1\<lparr>throttle_buckets := throttle_buckets q1 - 1\<rparr> else q1)"
    and out: "length out = (if r = None then 0 else 1)"
    using assms(2) by (auto simp: log_queue_pop_head_def bind_eq_Some_conv split: option.splits)
  have "throttle_state (refill_output q) = throttle_state q"
    by (simp add: refill_output_def throttle_state_def)
  then have "throttle_state q1 = throttle_state q"
    using q1 by (auto simp: log_queue_fifo_pop_head_def Let_def throttle_state_def
        split: if_splits list.splits)
  then show ?thesis
    using assms(1) False by (auto simp: throttle_inv_def q' out throttle_state_def)
qed

lemma throttle_state_inv:
  "throttle_state q' = throttle_state q \<Longrightarrow> throttle_inv q' = throttle_inv q \<and>
   throttle q' = throttle q \<and> allowance q' = allowance q"
  by (simp add: throttle_state_def throttle_inv_def allowance_def)

lemma check_items_throttle:
  obtains q1 where "throttle_state q1 = throttle_state q"
    "fst (log_queue_check_items q now n u d) = q1 \<or>
     fst (log_queue_check_items q now n u d) = recalculate_buckets now q1"
proof (cases "log_queue_fifo_get_length q = 0")
  case True
  then show thesis
    by (intro that [of "fst (log_queue_check_items q now n u d)"])
      (simp_all add: log_queue_check_items_def log_queue_fifo_get_length_def Let_def throttle_state_def)
next
  case False
  then show thesis
    by (intro that [of "(calls (destroy_calls d u)
        (calls (destroy_calls (parallel_push_data_destroy q) (parallel_push_data q)) q))
        \<lparr>parallel_push_notify := None, parallel_push_data := None\<rparr>"])
      (simp_all add: log_queue_check_items_def log_queue_fifo_get_length_def Let_def throttle_state_def)
qed

lemma exec_allowance:
  assumes "throttle_inv q" "clock_ok op q" "queue_exec op q = Some (q', out)"
  shows "throttle_inv q' \<and> throttle q' = throttle q \<and>
    int (length out) * 1000000 + allowance q' \<le> allowance q"
proof (cases "op = Op_pop_head")
  case True
  then show ?thesis
    using pop_head_allowance [OF assms(1)] assms(3) by (auto simp: allowance_def)
next
  case False
  show ?thesis
  proof (cases "\<exists>now n u d. op = Op_check_items now n u d")
    case True
    then obtain now n u d where op: "op = Op_check_items now n u d" by blast
    have eq: "q' = fst (log_queue_check_items q now n u d)" "out = []"
      using assms(3) by (simp_all add: op)
    obtain q1 where "throttle_state q1 = throttle_state q"
      "q' = q1 \<or> q' = recalculate_buckets now q1"
      unfolding eq(1) by (rule check_items_throttle)
    moreover from this have "throttle_inv q1" "throttle q1 = throttle q" "allowance q1 = allowance q"
      using throttle_state_inv [of q1 q] assms(1) by auto
    moreover have "clock_ok op q1"
      using assms(2) \<open>throttle_state q1 = throttle_state q\<close>
      by (simp add: op clock_ok_def throttle_state_def)
    ultimately show ?thesis
      using recalculate_buckets_allowance [of q1 now] by (auto simp: op clock_ok_def eq(2))
  next
    case other: False
    have "throttle_state q' = throttle_state q \<and> out = []"
      using assms(2,3) False other
      by (cases op) (auto simp: clock_ok_def log_queue_ack_backlog_def log_queue_fifo_ack_backlog_def
          log_queue_rewind_backlog_def log_queue_fifo_rewind_backlog_def Let_def
          throttle_state_push_head throttle_state_rewind_all throttle_state_use_backlog
          dest!: throttle_state_push_tail throttle_state_move_input throttle_state_ack
            throttle_state_rewind split: if_splits)
    then show ?thesis
      using assms(1) throttle_state_inv [of q' q] by auto
  qed
qed

lemma run_allowance:
  assumes "throttle_inv q" "clock_run_ok ops q" "queue_run ops q = Some (q', outs)"
  shows "throttle_inv q' \<and> throttle q' = throttle q \<and>
    int (length outs) * 1000000 + allowance q' \<le> allowance q"
  using assms
proof (induction ops arbitrary: q outs)
  case (Cons op ops)
  from Cons.prems(3) obtain q1 out outs' where q1: "queue_exec op q = Some (q1, out)"
    "queue_run ops q1 = Some (q', outs')" "outs = out @ outs'" by (auto simp: bind_eq_Some_conv)
  have ok: "clock_ok op q" "clock_run_ok ops q1"
    using Cons.prems(2) q1(1) by simp_all
  show ?case
    using exec_allowance [OF Cons.prems(1) ok(1) q1(1)] Cons.IH [OF _ ok(2) q1(2)]
    by (auto simp: q1(3) algebra_simps)
qed simp


definition throttled_queue :: "string log_queue" where
  "throttled_queue = three_messages\<lparr>throttle := 2, throttle_buckets := 1,
     last_throttle_check := \<lparr>gtv_sec = 100, gtv_usec = 0\<rparr>\<rparr>"

definition throttle_demo :: "string queue_op list" where
  "throttle_demo = [Op_pop_head, Op_pop_head,
     Op_check_items \<lparr>gtv_sec = 100, gtv_usec = 600000\<rparr> None None None, Op_pop_head, Op_pop_head]"



definition idle_queue :: "string log_queue" where
  "idle_queue = three_messages\<lparr>throttle := 10000, throttle_buckets := 10000,
     last_throttle_check := \<lparr>gtv_sec = 1000000, gtv_usec = 0\<rparr>\<rparr>"


end
