(* ===== verification/Timer_Wheel.thy ===== *)
theory Timer_Wheel
  imports Prelude "HOL-Library.Multiset"
begin

text \<open>
  The hierarchical timer wheel of modules/dbparser/timerwheel.c, which drives
  the correlation timeouts of the pattern database.  Times are 64 bit words
  with the masks and shifts of the code.  An intrusive list of entries is a
  list; the slots of a level are a function from slot numbers, since the mask
  keeps every index in range.  The callbacks made are recorded in order with
  the time they were given; callbacks that add or remove timers themselves are
  not modelled.
\<close>

unbundle bit_operations_syntax

subsection \<open>State\<close>

record 'd tw_entry =
  twe_id :: nat
  twe_target :: u64
  twe_user_data :: 'd

record 'd tw_level =
  twl_mask :: u64
  twl_slot_mask :: u64
  twl_num :: nat
  twl_shift :: nat
  twl_slots :: "nat \<Rightarrow> 'd tw_entry list"

record 'd timer_wheel =
  tw_levels :: "'d tw_level list"
  tw_future :: "'d tw_entry list"
  tw_now :: u64
  tw_base :: u64
  tw_num_timers :: int
  tw_fired :: "(u64 \<times> 'd tw_entry) list"
  tw_freed :: "'d tw_entry list"

definition tw_level_new :: "nat \<Rightarrow> nat \<Rightarrow> 'd tw_level" where
  "tw_level_new bits shift =
     (let num = 2 ^ bits
      in \<lparr>twl_mask = push_bit shift (of_nat num - 1), twl_slot_mask = push_bit shift 1 - 1,
          twl_num = num, twl_shift = shift, twl_slots = (\<lambda>_. [])\<rparr>)"

definition timer_wheel_new :: "'d timer_wheel" where
  "timer_wheel_new =
     \<lparr>tw_levels = [tw_level_new 10 0, tw_level_new 6 10, tw_level_new 6 16, tw_level_new 6 22],
      tw_future = [], tw_now = 0, tw_base = 0, tw_num_timers = 0, tw_fired = [], tw_freed = []\<rparr>"

definition get_slot :: "'d timer_wheel \<Rightarrow> nat \<Rightarrow> nat \<Rightarrow> 'd tw_entry list" where
  "get_slot self l s = twl_slots (tw_levels self ! l) s"

definition set_slot :: "'d timer_wheel \<Rightarrow> nat \<Rightarrow> nat \<Rightarrow> 'd tw_entry list \<Rightarrow> 'd timer_wheel" where
  "set_slot self l s es =
     self\<lparr>tw_levels := (tw_levels self)[l := (tw_levels self ! l)
       \<lparr>twl_slots := (twl_slots (tw_levels self ! l))(s := es)\<rparr>]\<rparr>"

text \<open>The slot of a time at a level: \<open>(t & mask) >> shift\<close>.\<close>

definition tw_slot :: "'d tw_level \<Rightarrow> u64 \<Rightarrow> nat" where
  "tw_slot level t = unat (drop_bit (twl_shift level) (t AND twl_mask level))"

definition tw_level_base :: "'d timer_wheel \<Rightarrow> 'd tw_level \<Rightarrow> u64" where
  "tw_level_base self level = tw_base self AND NOT (twl_slot_mask level) AND NOT (twl_mask level)"

definition tw_level_size :: "'d tw_level \<Rightarrow> u64" where
  "tw_level_size level = push_bit (twl_shift level) (of_nat (twl_num level))"

definition tw_entry_prepend :: "'d timer_wheel \<Rightarrow> nat \<Rightarrow> nat \<Rightarrow> 'd tw_entry \<Rightarrow> 'd timer_wheel" where
  "tw_entry_prepend self l s entry = set_slot self l s (entry # get_slot self l s)"

text \<open>Removing an entry from the list that holds it.\<close>

definition tw_entry_unlink :: "'d timer_wheel \<Rightarrow> 'd tw_entry \<Rightarrow> 'd timer_wheel" where
  "tw_entry_unlink self entry =
     self\<lparr>tw_levels := map (\<lambda>level. level\<lparr>twl_slots := (\<lambda>s. removeAll entry (twl_slots level s))\<rparr>)
            (tw_levels self),
          tw_future := removeAll entry (tw_future self)\<rparr>"

definition tw_entry_free :: "'d timer_wheel \<Rightarrow> 'd tw_entry \<Rightarrow> 'd timer_wheel" where
  "tw_entry_free self entry = self\<lparr>tw_freed := tw_freed self @ [entry]\<rparr>"

subsection \<open>Adding and removing timers\<close>

text \<open>Whether the loop stops at this level, or continues with the next.\<close>

definition tw_level_accepts :: "'d timer_wheel \<Rightarrow> 'd tw_level \<Rightarrow> u64 \<Rightarrow> bool" where
  "tw_level_accepts self level target =
     (let level_base = tw_level_base self level
      in if target > level_base + tw_level_size level then
           target < level_base + tw_level_size level * 2 \<and>
           (tw_now self AND twl_mask level) > (target AND twl_mask level)
         else True)"

definition timer_wheel_add_timer_entry :: "'d timer_wheel \<Rightarrow> 'd tw_entry \<Rightarrow> 'd timer_wheel" where
  "timer_wheel_add_timer_entry self entry =
     (case find (\<lambda>l. tw_level_accepts self (tw_levels self ! l) (twe_target entry)) [0, 1, 2, 3] of
        Some l \<Rightarrow> tw_entry_prepend self l (tw_slot (tw_levels self ! l) (twe_target entry)) entry
      | None \<Rightarrow> self\<lparr>tw_future := entry # tw_future self\<rparr>)"

definition timer_wheel_add_timer :: "'d timer_wheel \<Rightarrow> int \<Rightarrow> nat \<Rightarrow> 'd \<Rightarrow> 'd timer_wheel \<times> 'd tw_entry" where
  "timer_wheel_add_timer self timeout i user_data =
     (let entry = \<lparr>twe_id = i, twe_target = tw_now self + of_int timeout, twe_user_data = user_data\<rparr>;
          self = timer_wheel_add_timer_entry self entry
      in (self\<lparr>tw_num_timers := tw_num_timers self + 1\<rparr>, entry))"

definition timer_wheel_del_timer :: "'d timer_wheel \<Rightarrow> 'd tw_entry \<Rightarrow> 'd timer_wheel" where
  "timer_wheel_del_timer self entry =
     (let self = tw_entry_free (tw_entry_unlink self entry) entry
      in self\<lparr>tw_num_timers := tw_num_timers self - 1\<rparr>)"

definition timer_wheel_mod_timer ::
    "'d timer_wheel \<Rightarrow> 'd tw_entry \<Rightarrow> int \<Rightarrow> 'd timer_wheel \<times> 'd tw_entry" where
  "timer_wheel_mod_timer self entry new_timeout =
     (let self = tw_entry_unlink self entry;
          entry = entry\<lparr>twe_target := tw_now self + of_int new_timeout\<rparr>
      in (timer_wheel_add_timer_entry self entry, entry))"

definition timer_wheel_get_timer_expiration :: "'d timer_wheel \<Rightarrow> 'd tw_entry \<Rightarrow> u64" where
  "timer_wheel_get_timer_expiration self entry = twe_target entry"

subsection \<open>Cascading\<close>

definition next_slot :: "'d tw_level \<Rightarrow> u64 \<Rightarrow> nat" where
  "next_slot level t = (if tw_slot level t = twl_num level - 1 then 0 else tw_slot level t + 1)"

text \<open>Moving the next slot of a level down to the slots of the level below.\<close>

definition cascade_level :: "nat \<Rightarrow> 'd timer_wheel \<Rightarrow> 'd timer_wheel" where
  "cascade_level l self =
     (let source_slot = next_slot (tw_levels self ! l) (tw_now self);
          entries = get_slot self l source_slot;
          self = fold (\<lambda>e tw. tw_entry_prepend tw (l - 1)
                   (tw_slot (tw_levels tw ! (l - 1)) (twe_target e)) e) entries self
      in set_slot self l source_slot [])"

text \<open>The loop over the levels; the flag tells that it ran to its end.\<close>

fun cascade_loop :: "nat list \<Rightarrow> 'd timer_wheel \<Rightarrow> 'd timer_wheel \<times> bool" where
  "cascade_loop [] self = (self, True)"
| "cascade_loop (l # ls) self =
     (let source_slot = next_slot (tw_levels self ! l) (tw_now self);
          self = cascade_level l self
      in if source_slot < twl_num (tw_levels self ! l) - 1 then (self, False)
         else cascade_loop ls self)"

definition cascade_future :: "'d timer_wheel \<Rightarrow> 'd timer_wheel" where
  "cascade_future self =
     (let near = (\<lambda>e. twe_target e < tw_level_base self (tw_levels self ! 3)
                        + 2 * tw_level_size (tw_levels self ! 3))
      in fold (\<lambda>e tw. tw_entry_prepend tw 3 (tw_slot (tw_levels tw ! 3) (twe_target e)) e)
           (filter near (tw_future self))
           (self\<lparr>tw_future := filter (\<lambda>e. \<not> near e) (tw_future self)\<rparr>))"

definition timer_wheel_cascade :: "'d timer_wheel \<Rightarrow> 'd timer_wheel" where
  "timer_wheel_cascade self =
     (let (self, end) = cascade_loop [1, 2, 3] self;
          self = (if end then cascade_future self else self)
      in self\<lparr>tw_base := tw_base self + of_nat (twl_num (tw_levels self ! 0))\<rparr>)"

subsection \<open>Advancing the time\<close>

text \<open>Firing the current slot of level 0.\<close>

definition fire_slot :: "'d timer_wheel \<Rightarrow> 'd timer_wheel" where
  "fire_slot self =
     (let s = tw_slot (tw_levels self ! 0) (tw_now self);
          entries = get_slot self 0 s
      in set_slot (self\<lparr>tw_fired := tw_fired self @ map (\<lambda>e. (tw_now self, e)) entries,
                        tw_freed := tw_freed self @ entries,
                        tw_num_timers := tw_num_timers self - int (length entries)\<rparr>) 0 s [])"

definition rebase :: "u64 \<Rightarrow> 'd timer_wheel \<Rightarrow> 'd timer_wheel" where
  "rebase new_now self =
     self\<lparr>tw_now := new_now, tw_base := new_now AND NOT (twl_mask (tw_levels self ! 0))\<rparr>"

function set_time_loop :: "u64 \<Rightarrow> 'd timer_wheel \<Rightarrow> 'd timer_wheel" where
  "set_time_loop new_now self =
     (if tw_now self < new_now then
        let s = tw_slot (tw_levels self ! 0) (tw_now self);
            tw = fire_slot self
        in if tw_num_timers tw = 0 then rebase new_now tw
           else let tw = (if s = twl_num (tw_levels tw ! 0) - 1 then timer_wheel_cascade tw else tw)
                in set_time_loop new_now (tw\<lparr>tw_now := tw_now self + 1\<rparr>)
      else self)"
  by pat_completeness auto

termination
  by (relation "measure (\<lambda>(n, tw). unat n - unat (tw_now tw))")
    (auto simp: unat_Suc_less word_less_nat_alt)

definition timer_wheel_set_time :: "'d timer_wheel \<Rightarrow> u64 \<Rightarrow> 'd timer_wheel" where
  "timer_wheel_set_time self new_now =
     (if tw_now self \<ge> new_now then self
      else if tw_num_timers self = 0 then rebase new_now self
      else set_time_loop new_now self)"

definition timer_wheel_get_time :: "'d timer_wheel \<Rightarrow> u64" where
  "timer_wheel_get_time self = tw_now self"

definition timer_wheel_expire_all :: "'d timer_wheel \<Rightarrow> 'd timer_wheel" where
  "timer_wheel_expire_all self = (timer_wheel_set_time self (- 1))\<lparr>tw_now := tw_now self\<rparr>"

text \<open>Freeing the wheel frees the entries of the levels.\<close>

definition tw_level_free :: "'d tw_level \<Rightarrow> 'd tw_entry list" where
  "tw_level_free level = concat (map (twl_slots level) [0..<twl_num level])"

definition timer_wheel_free :: "'d timer_wheel \<Rightarrow> 'd tw_entry list" where
  "timer_wheel_free self = tw_freed self @ concat (map tw_level_free (tw_levels self))"

subsection \<open>The geometry of the levels\<close>

lemma take_bit_unat: "take_bit LENGTH('a) (unat (t :: 'a::len word)) = unat t"
  by (simp add: take_bit_nat_eq_self_iff)

lemma slot_bits:
  fixes t :: "'a::len word"
  shows "unat (drop_bit k (t AND push_bit k (mask n))) = unat t div 2 ^ k mod 2 ^ n"
proof -
  have *: "drop_bit k (t AND push_bit k (mask n)) = take_bit n (drop_bit k t)"
    by (rule bit_word_eqI) (auto simp: bit_simps dest: bit_imp_le_length)
  show ?thesis
    unfolding * unsigned_take_bit_eq unsigned_drop_bit_eq take_bit_unat
    by (simp only: take_bit_eq_mod drop_bit_eq_div)
qed

lemma masked_bits:
  fixes t :: "'a::len word"
  assumes "n + k \<le> LENGTH('a)"
  shows "unat (t AND push_bit k (mask n)) = unat t div 2 ^ k mod 2 ^ n * 2 ^ k"
proof -
  have *: "t AND push_bit k (mask n) = push_bit k (take_bit n (drop_bit k t))"
    by (rule bit_word_eqI) (auto simp: bit_simps)
  have "take_bit n (drop_bit k (unat t)) < 2 ^ n" by simp
  then have "push_bit k (take_bit n (drop_bit k (unat t))) < 2 ^ (n + k)"
    by (simp add: push_bit_eq_mult power_add)
  also have "\<dots> \<le> 2 ^ LENGTH('a)" using assms by simp
  finally have "take_bit LENGTH('a) (push_bit k (take_bit n (drop_bit k (unat t)))) = push_bit k (take_bit n (drop_bit k (unat t)))"
    by (simp only: take_bit_nat_eq_self_iff)
  then show ?thesis
    unfolding * unsigned_push_bit_eq unsigned_take_bit_eq unsigned_drop_bit_eq take_bit_unat
    by (simp only: push_bit_eq_mult take_bit_eq_mod drop_bit_eq_div)
qed

lemma base_bits:
  fixes b :: "'a::len word"
  shows "unat (b AND NOT (mask k) AND NOT (push_bit k (mask n)))
    = unat b div 2 ^ (n + k) * 2 ^ (n + k)"
proof -
  have "b AND NOT (mask k) AND NOT (push_bit k (mask n)) = push_bit (n + k) (drop_bit (n + k) b)"
    by (rule bit_word_eqI) (auto simp: bit_simps)
  moreover have "unat (push_bit (n + k) (drop_bit (n + k) b)) = push_bit (n + k) (drop_bit (n + k) (unat b))"
  proof -
    have "push_bit (n + k) (drop_bit (n + k) (unat b)) \<le> unat b"
      by (simp add: push_bit_eq_mult drop_bit_eq_div)
    then have "push_bit (n + k) (drop_bit (n + k) (unat b)) < 2 ^ LENGTH('a)"
      using unsigned_less [of b, where ?'a = nat] by linarith
    then show ?thesis
      by (simp add: unsigned_push_bit_eq unsigned_drop_bit_eq take_bit_nat_eq_self)
  qed
  ultimately show ?thesis by (simp add: push_bit_eq_mult drop_bit_eq_div)
qed

definition geom :: "'d tw_level \<Rightarrow> u64 \<times> u64 \<times> nat \<times> nat" where
  "geom level = (twl_mask level, twl_slot_mask level, twl_num level, twl_shift level)"

definition standard :: "'d timer_wheel \<Rightarrow> bool" where
  "standard tw \<longleftrightarrow> map geom (tw_levels tw) =
     map geom [tw_level_new 10 0, tw_level_new 6 10, tw_level_new 6 16, tw_level_new 6 22 :: unit tw_level]"

definition level_bits :: "nat \<Rightarrow> nat" where
  "level_bits l = (if l = 0 then 10 else 6)"

definition level_shift :: "nat \<Rightarrow> nat" where
  "level_shift l = (if l = 0 then 0 else 4 + 6 * l)"

lemma standard_new: "standard timer_wheel_new"
  by (simp add: standard_def timer_wheel_new_def geom_def tw_level_new_def Let_def)

lemma standard_length: "standard tw \<Longrightarrow> length (tw_levels tw) = 4"
  unfolding standard_def by (drule arg_cong [of _ _ length]) simp

lemma geom_new: "geom (tw_level_new b s) = (push_bit s (mask b), mask s, 2 ^ b, s)"
  by (simp only: geom_def tw_level_new_def Let_def tw_level.select_convs mask_eq_exp_minus_1
      push_bit_eq_mult mult_1 of_nat_power of_nat_numeral)

lemma standard_level:
  assumes "standard tw" "l < 4"
  shows "twl_mask (tw_levels tw ! l) = push_bit (level_shift l) (mask (level_bits l))"
    and "twl_slot_mask (tw_levels tw ! l) = mask (level_shift l)"
    and "twl_num (tw_levels tw ! l) = 2 ^ level_bits l"
    and "twl_shift (tw_levels tw ! l) = level_shift l"
proof -
  have "geom (tw_levels tw ! l) = map geom (tw_levels tw) ! l"
    using standard_length [OF assms(1)] assms(2) by simp
  also have "\<dots> = (push_bit (level_shift l) (mask (level_bits l)), mask (level_shift l),
      2 ^ level_bits l, level_shift l)"
  proof -
    consider "l = 0" | "l = 1" | "l = 2" | "l = 3" using assms(2) by linarith
    then show ?thesis
      unfolding assms(1) [unfolded standard_def]
      by cases (simp_all only: list.map geom_new level_bits_def level_shift_def, simp_all)
  qed
  finally show "twl_mask (tw_levels tw ! l) = push_bit (level_shift l) (mask (level_bits l))"
    "twl_slot_mask (tw_levels tw ! l) = mask (level_shift l)"
    "twl_num (tw_levels tw ! l) = 2 ^ level_bits l" "twl_shift (tw_levels tw ! l) = level_shift l"
    by (simp_all add: geom_def)
qed

lemma standard_slot:
  assumes "standard tw" "l < 4"
  shows "tw_slot (tw_levels tw ! l) t = unat t div 2 ^ level_shift l mod 2 ^ level_bits l"
  unfolding tw_slot_def standard_level [OF assms] by (rule slot_bits)

lemma standard_masked:
  assumes "standard tw" "l < 4"
  shows "unat (t AND twl_mask (tw_levels tw ! l))
    = unat t div 2 ^ level_shift l mod 2 ^ level_bits l * 2 ^ level_shift l"
proof -
  have "level_bits l + level_shift l \<le> LENGTH(64)"
    using assms(2) by (simp add: level_bits_def level_shift_def)
  then show ?thesis unfolding standard_level [OF assms] by (rule masked_bits)
qed

lemma standard_base:
  assumes "standard tw" "l < 4"
  shows "unat (tw_level_base tw (tw_levels tw ! l))
    = unat (tw_base tw) div 2 ^ (level_bits l + level_shift l) * 2 ^ (level_bits l + level_shift l)"
  unfolding tw_level_base_def standard_level [OF assms] by (rule base_bits)

subsection \<open>The timers of a wheel\<close>

definition wheel_mset :: "'d timer_wheel \<Rightarrow> 'd tw_entry multiset" where
  "wheel_mset tw = (\<Sum>l<4. \<Sum>s<2 ^ level_bits l. mset (get_slot tw l s)) + mset (tw_future tw)"

lemma set_slot_simps [simp]:
  "tw_now (set_slot tw l s es) = tw_now tw" "tw_base (set_slot tw l s es) = tw_base tw"
  "tw_future (set_slot tw l s es) = tw_future tw" "tw_fired (set_slot tw l s es) = tw_fired tw"
  "tw_freed (set_slot tw l s es) = tw_freed tw"
  "tw_num_timers (set_slot tw l s es) = tw_num_timers tw"
  "length (tw_levels (set_slot tw l s es)) = length (tw_levels tw)"
  by (simp_all add: set_slot_def)

lemma get_set_slot [simp]:
  "l < length (tw_levels tw) \<Longrightarrow>
   get_slot (set_slot tw l s es) l' s' = (if l' = l \<and> s' = s then es else get_slot tw l' s')"
  by (auto simp: get_slot_def set_slot_def nth_list_update)

lemma standard_set_slot [simp]: "standard (set_slot tw l s es) = standard tw"
proof -
  have same: "geom ((tw_levels tw ! l)\<lparr>twl_slots := f\<rparr>) = geom (tw_levels tw ! l)" for f
    by (simp add: geom_def)
  have "map geom (tw_levels (set_slot tw l s es)) = map geom (tw_levels tw)"
  proof (cases "l < length (tw_levels tw)")
    case True
    then have "(map geom (tw_levels tw))[l := geom (tw_levels tw ! l)] = map geom (tw_levels tw)"
      by (metis list_update_id nth_map)
    then show ?thesis by (simp add: set_slot_def map_update same)
  qed (simp add: set_slot_def list_update_beyond)
  then show ?thesis by (simp add: standard_def)
qed

lemma sum_mset_update:
  assumes "finite A" "a \<in> A"
  shows "(\<Sum>x\<in>A. mset ((f(a := xs)) x)) + mset (f a) = (\<Sum>x\<in>A. mset (f x)) + mset xs"
proof -
  have "(\<Sum>x\<in>A - {a}. mset ((f(a := xs)) x)) = (\<Sum>x\<in>A - {a}. mset (f x))"
    by (rule sum.cong) auto
  then show ?thesis
    by (simp add: sum.remove [OF assms] add.commute add.left_commute)
qed

lemma wheel_mset_set_slot:
  assumes "standard tw" "l < 4" "s < 2 ^ level_bits l"
  shows "wheel_mset (set_slot tw l s es) + mset (get_slot tw l s) = wheel_mset tw + mset es"
proof -
  let ?tw = "set_slot tw l s es"
  let ?f = "\<lambda>tw l. \<Sum>s<2 ^ level_bits l. mset (get_slot tw l s)"
  have other: "?f ?tw l' = ?f tw l'" if "l' \<noteq> l" for l'
    using that assms(1,2) by (simp add: standard_length)
  have rest: "(\<Sum>l'\<in>{..<4} - {l}. ?f ?tw l') = (\<Sum>l'\<in>{..<4} - {l}. ?f tw l')"
    by (rule sum.cong [OF refl]) (use other in blast)
  have "get_slot ?tw l = (get_slot tw l)(s := es)"
    using assms(1,2) by (simp add: standard_length fun_eq_iff)
  then have here: "?f ?tw l + mset (get_slot tw l s) = ?f tw l + mset es"
    using sum_mset_update [of "{..<2 ^ level_bits l}" s "get_slot tw l" es] assms(3) by simp
  have split: "wheel_mset tw' = ?f tw' l + ((\<Sum>l'\<in>{..<4} - {l}. ?f tw' l') + mset (tw_future tw'))" for tw' :: "'a timer_wheel"
    using sum.remove [of "{..<4}" l "?f tw'"] assms(2) by (simp add: wheel_mset_def add.assoc)
  have swap: "a + r + g = b + r + x" if "a + g = b + x" for a b g r x :: "'a tw_entry multiset"
  proof -
    have "a + r + g = (a + g) + r" by (simp add: ac_simps)
    also have "\<dots> = b + r + x" unfolding that by (simp add: ac_simps)
    finally show ?thesis .
  qed
  show ?thesis
    unfolding split [of ?tw] split [of tw] rest set_slot_simps by (rule swap [OF here])
qed

lemma slot_index:
  assumes "standard tw" "l < 4"
  shows "tw_slot (tw_levels tw ! l) t < 2 ^ level_bits l"
  by (simp add: standard_slot [OF assms])

lemma prepend_simps [simp]:
  "tw_now (tw_entry_prepend tw l s e) = tw_now tw" "tw_base (tw_entry_prepend tw l s e) = tw_base tw"
  "tw_future (tw_entry_prepend tw l s e) = tw_future tw"
  "tw_fired (tw_entry_prepend tw l s e) = tw_fired tw"
  "tw_num_timers (tw_entry_prepend tw l s e) = tw_num_timers tw"
  "standard (tw_entry_prepend tw l s e) = standard tw"
  "length (tw_levels (tw_entry_prepend tw l s e)) = length (tw_levels tw)"
  by (simp_all add: tw_entry_prepend_def)

lemma wheel_mset_prepend:
  assumes "standard tw" "l < 4" "s < 2 ^ level_bits l"
  shows "wheel_mset (tw_entry_prepend tw l s e) = add_mset e (wheel_mset tw)"
  using wheel_mset_set_slot [OF assms, of "e # get_slot tw l s"]
  by (simp add: tw_entry_prepend_def)

text \<open>Moving a list of entries to the slots of a level.\<close>

abbreviation move_down :: "nat \<Rightarrow> 'd tw_entry list \<Rightarrow> 'd timer_wheel \<Rightarrow> 'd timer_wheel" where
  "move_down l es tw \<equiv> fold (\<lambda>e tw. tw_entry_prepend tw l
     (tw_slot (tw_levels tw ! l) (twe_target e)) e) es tw"

lemma move_down_spec:
  assumes "standard tw" "l < 4"
  shows "standard (move_down l es tw) \<and> wheel_mset (move_down l es tw) = wheel_mset tw + mset es \<and>
    tw_now (move_down l es tw) = tw_now tw \<and> tw_base (move_down l es tw) = tw_base tw \<and>
    tw_future (move_down l es tw) = tw_future tw \<and> tw_fired (move_down l es tw) = tw_fired tw \<and>
    tw_num_timers (move_down l es tw) = tw_num_timers tw \<and>
    (\<forall>l' s. set (get_slot (move_down l es tw) l' s) = set (get_slot tw l' s) \<union>
       (if l' = l then {e \<in> set es. tw_slot (tw_levels tw ! l) (twe_target e) = s} else {}))"
  using assms(1)
proof (induction es arbitrary: tw)
  case (Cons e es)
  let ?s = "tw_slot (tw_levels tw ! l) (twe_target e)"
  let ?tw = "tw_entry_prepend tw l ?s e"
  have std: "standard ?tw" using Cons.prems by simp
  have slots: "tw_slot (tw_levels ?tw ! l) t = tw_slot (tw_levels tw ! l) t" for t
    by (rule trans [OF standard_slot [OF std assms(2)]
          standard_slot [OF Cons.prems assms(2), symmetric]])
  have mset: "wheel_mset ?tw = add_mset e (wheel_mset tw)"
    by (rule wheel_mset_prepend [OF Cons.prems assms(2) slot_index [OF Cons.prems assms(2)]])
  have get: "set (get_slot ?tw l' s) = set (get_slot tw l' s) \<union> (if l' = l \<and> s = ?s then {e} else {})" for l' s
    using Cons.prems assms(2) by (auto simp: tw_entry_prepend_def standard_length)
  show ?case
    using Cons.IH [OF std] by (auto simp: mset get slots)
qed simp

lemma move_down_other:
  assumes "standard tw" "l < 4" "l' \<noteq> l"
  shows "get_slot (move_down l es tw) l' s = get_slot tw l' s"
  using assms(1)
proof (induction es arbitrary: tw)
  case (Cons e es)
  show ?case
    using Cons.IH [of "tw_entry_prepend tw l (tw_slot (tw_levels tw ! l) (twe_target e)) e"]
      Cons.prems assms(2,3)
    by (simp add: tw_entry_prepend_def [of tw] standard_length)
qed simp

lemma set_slot_id:
  "l < length (tw_levels tw) \<Longrightarrow> get_slot tw l s = es \<Longrightarrow> set_slot tw l s es = tw"
  by (auto simp: set_slot_def get_slot_def)

lemma in_wheel:
  "e \<in># wheel_mset tw \<longleftrightarrow>
   (\<exists>l<4. \<exists>s<2 ^ level_bits l. e \<in> set (get_slot tw l s)) \<or> e \<in> set (tw_future tw)"
  by (auto simp: wheel_mset_def set_mset_sum)

subsection \<open>The invariant for timers up to 17.9 hours\<close>

abbreviation target :: "'d tw_entry \<Rightarrow> nat" where
  "target e \<equiv> unat (twe_target e)"

text \<open>
  Level 0 holds the timers of the next 1024 ticks, level 1 those of the next 64
  blocks of 1024 ticks, each in the slot its target selects; the higher levels
  and the list of far timers are empty.
\<close>

definition tw_inv :: "'d timer_wheel \<Rightarrow> bool" where
  "tw_inv tw \<longleftrightarrow> standard tw \<and>
     unat (tw_base tw) = unat (tw_now tw) div 1024 * 1024 \<and>
     (\<forall>s. \<forall>e \<in> set (get_slot tw 0 s). s = target e mod 1024 \<and>
        unat (tw_now tw) \<le> target e \<and> target e < unat (tw_now tw) + 1024) \<and>
     (\<forall>s. \<forall>e \<in> set (get_slot tw 1 s). s = target e div 1024 mod 64 \<and>
        unat (tw_now tw) div 1024 < target e div 1024 \<and>
        target e div 1024 \<le> unat (tw_now tw) div 1024 + 64) \<and>
     (\<forall>s. get_slot tw 2 s = [] \<and> get_slot tw 3 s = []) \<and> tw_future tw = [] \<and>
     tw_num_timers tw = int (size (wheel_mset tw))"

lemma tw_invD:
  assumes "tw_inv tw"
  shows "standard tw" "length (tw_levels tw) = 4"
    "unat (tw_base tw) = unat (tw_now tw) div 1024 * 1024"
    "e \<in> set (get_slot tw 0 s) \<Longrightarrow> s = target e mod 1024"
    "e \<in> set (get_slot tw 0 s) \<Longrightarrow> unat (tw_now tw) \<le> target e \<and> target e < unat (tw_now tw) + 1024"
    "e \<in> set (get_slot tw 1 s) \<Longrightarrow> s = target e div 1024 mod 64"
    "e \<in> set (get_slot tw 1 s) \<Longrightarrow> unat (tw_now tw) div 1024 < target e div 1024 \<and>
        target e div 1024 \<le> unat (tw_now tw) div 1024 + 64"
    "get_slot tw 2 s = []" "get_slot tw 3 s = []" "tw_future tw = []"
    "tw_num_timers tw = int (size (wheel_mset tw))"
  using assms standard_length [of tw] unfolding tw_inv_def by blast+

lemma ex_less_4: "(\<exists>l<4. P (l :: nat)) \<longleftrightarrow> P 0 \<or> P 1 \<or> P 2 \<or> P 3"
  by (auto simp: less_Suc_eq numeral_eq_Suc)

lemma in_short_wheel:
  assumes "tw_inv tw"
  shows "e \<in># wheel_mset tw \<longleftrightarrow> (\<exists>s. e \<in> set (get_slot tw 0 s)) \<or> (\<exists>s. e \<in> set (get_slot tw 1 s))"
proof -
  have "(\<exists>l<4. \<exists>s<2 ^ level_bits l. e \<in> set (get_slot tw l s)) \<longleftrightarrow>
      (\<exists>s<1024. e \<in> set (get_slot tw 0 s)) \<or> (\<exists>s<64. e \<in> set (get_slot tw 1 s))"
    unfolding ex_less_4 using tw_invD(8,9) [OF assms] by (simp add: level_bits_def)
  moreover have "s < 1024" if "e \<in> set (get_slot tw 0 s)" for s
    using tw_invD(4) [OF assms that] by simp
  moreover have "s < 64" if "e \<in> set (get_slot tw 1 s)" for s
    using tw_invD(6) [OF assms that] by simp
  ultimately show ?thesis
    using tw_invD(10) [OF assms] unfolding in_wheel by (simp del: One_nat_def) blast
qed

lemma level_simps [simp]:
  "level_bits 0 = 10" "level_bits (Suc 0) = 6" "level_shift 0 = 0" "level_shift (Suc 0) = 10"
  by (simp_all add: level_bits_def level_shift_def)

lemma filter_mset_split:
  assumes "\<And>x. x \<in># A \<Longrightarrow> \<not> P x" "\<And>x. x \<in># B \<Longrightarrow> P x"
  shows "filter_mset P (A + B) = B" "filter_mset (\<lambda>x. \<not> P x) (A + B) = A"
proof -
  have "filter_mset P A = {#}" "filter_mset (\<lambda>x. \<not> P x) B = {#}"
    "filter_mset P B = B" "filter_mset (\<lambda>x. \<not> P x) A = A"
    by (rule multiset_eqI, use assms in \<open>auto simp: not_in_iff [symmetric]\<close>)+
  then show "filter_mset P (A + B) = B" "filter_mset (\<lambda>x. \<not> P x) (A + B) = A" by simp_all
qed

lemma fire_slot_spec:
  assumes "tw_inv tw"
  defines "es \<equiv> get_slot tw 0 (unat (tw_now tw) mod 1024)"
  shows "tw_inv (fire_slot tw)" "tw_now (fire_slot tw) = tw_now tw"
    "tw_fired (fire_slot tw) = tw_fired tw @ map (\<lambda>e. (tw_now tw, e)) es"
    "mset es = filter_mset (\<lambda>e. target e = unat (tw_now tw)) (wheel_mset tw)"
    "wheel_mset (fire_slot tw) = filter_mset (\<lambda>e. target e \<noteq> unat (tw_now tw)) (wheel_mset tw)"
proof -
  let ?N = "unat (tw_now tw)"
  note inv = tw_invD [OF assms(1)]
  have slot: "tw_slot (tw_levels tw ! 0) (tw_now tw) = ?N mod 1024"
    using standard_slot [OF inv(1), of 0] by simp
  define tw1 where "tw1 = set_slot tw 0 (?N mod 1024) []"
  have eq: "fire_slot tw = tw1\<lparr>tw_fired := tw_fired tw @ map (\<lambda>e. (tw_now tw, e)) es,
      tw_freed := tw_freed tw @ es, tw_num_timers := tw_num_timers tw - int (length es)\<rparr>"
    unfolding fire_slot_def Let_def slot by (simp add: es_def tw1_def set_slot_def)
  have same: "wheel_mset (fire_slot tw) = wheel_mset tw1" "get_slot (fire_slot tw) = get_slot tw1"
    "standard (fire_slot tw) = standard tw1"
    by (simp_all add: eq wheel_mset_def get_slot_def fun_eq_iff standard_def)
  have split: "wheel_mset tw1 + mset es = wheel_mset tw"
    using wheel_mset_set_slot [OF inv(1), of 0 "?N mod 1024" "[]"] by (simp add: tw1_def es_def)
  have get: "get_slot tw1 l s = (if l = 0 \<and> s = ?N mod 1024 then [] else get_slot tw l s)" for l s
    using inv(2) by (simp add: tw1_def)
  have size: "size (wheel_mset tw) = size (wheel_mset tw1) + length es"
    unfolding split [symmetric] by simp
  show inv1: "tw_inv (fire_slot tw)"
    unfolding tw_inv_def same
  proof (intro conjI allI ballI)
    show "standard tw1" using inv(1) by (simp add: tw1_def)
  qed (use inv size in \<open>auto simp: get eq tw1_def split: if_splits\<close>)
  have es: "target e = ?N" if "e \<in> set es" for e
  proof -
    have mem: "e \<in> set (get_slot tw 0 (?N mod 1024))" using that by (simp add: es_def)
    show ?thesis
      using inv(4) [OF mem] inv(5) [OF mem] mod_window [of "target e" 1024 ?N] by simp
  qed
  have rest: "target e \<noteq> ?N" if "e \<in># wheel_mset tw1" for e
  proof -
    from that have "(\<exists>s. e \<in> set (get_slot tw1 0 s)) \<or> (\<exists>s. e \<in> set (get_slot tw1 1 s))"
      using in_short_wheel [OF inv1] by (simp add: same)
    then obtain s where "e \<in> set (get_slot tw 0 s) \<and> s \<noteq> ?N mod 1024 \<or> e \<in> set (get_slot tw 1 s)"
      by (auto simp: get split: if_splits)
    then show ?thesis
      using inv(4) [of e s] inv(7) [of e s] by auto
  qed
  show "mset es = filter_mset (\<lambda>e. target e = ?N) (wheel_mset tw)"
    "wheel_mset (fire_slot tw) = filter_mset (\<lambda>e. target e \<noteq> ?N) (wheel_mset tw)"
    unfolding same split [symmetric]
    using filter_mset_split [of "wheel_mset tw1" "\<lambda>e. target e = ?N" "mset es"] es rest by auto
  show "tw_now (fire_slot tw) = tw_now tw"
    "tw_fired (fire_slot tw) = tw_fired tw @ map (\<lambda>e. (tw_now tw, e)) es"
    by (simp_all add: eq tw1_def)
qed

lemma next_slot_block:
  assumes "standard tw"
  shows "next_slot (tw_levels tw ! 1) (tw_now tw) = (unat (tw_now tw) div 1024 + 1) mod 64"
proof -
  have "tw_slot (tw_levels tw ! 1) (tw_now tw) = unat (tw_now tw) div 1024 mod 64"
    "twl_num (tw_levels tw ! 1) = 64"
    using standard_slot [OF assms, of 1 "tw_now tw"] standard_level(3) [OF assms, of 1] by simp_all
  then show ?thesis
    by (simp add: next_slot_def mod_Suc)
qed

lemma cascade_level_empty:
  assumes "standard tw" "l < 4" "\<And>s. get_slot tw l s = []"
  shows "cascade_level l tw = tw"
  using assms by (simp add: cascade_level_def Let_def set_slot_id standard_length)

lemma cascade_loop_empty:
  assumes "standard tw" "\<forall>l \<in> set ls. l < 4 \<and> (\<forall>s. get_slot tw l s = [])"
  shows "fst (cascade_loop ls tw) = tw"
  using assms(2) by (induction ls) (simp_all add: Let_def cascade_level_empty [OF assms(1)])

lemma cascade_future_empty: "tw_future tw = [] \<Longrightarrow> cascade_future tw = tw"
  by (simp add: cascade_future_def Let_def)

lemma time_update_simps [simp]:
  "standard (tw\<lparr>tw_base := b\<rparr>) = standard tw" "standard (tw\<lparr>tw_now := n\<rparr>) = standard tw"
  "wheel_mset (tw\<lparr>tw_base := b\<rparr>) = wheel_mset tw" "wheel_mset (tw\<lparr>tw_now := n\<rparr>) = wheel_mset tw"
  "get_slot (tw\<lparr>tw_base := b\<rparr>) = get_slot tw" "get_slot (tw\<lparr>tw_now := n\<rparr>) = get_slot tw"
  by (simp_all add: standard_def wheel_mset_def get_slot_def fun_eq_iff)

lemma cascade_short:
  assumes "tw_inv tw"
  shows "timer_wheel_cascade tw = (cascade_level 1 tw)\<lparr>tw_base := tw_base (cascade_level 1 tw) + 1024\<rparr>"
proof -
  note inv = tw_invD [OF assms]
  let ?s = "next_slot (tw_levels tw ! 1) (tw_now tw)"
  let ?md = "move_down 0 (get_slot tw 1 ?s) tw"
  let ?tw = "cascade_level 1 tw"
  have md: "standard ?md" "tw_future ?md = []" "\<And>s. get_slot ?md 2 s = []" "\<And>s. get_slot ?md 3 s = []"
    using move_down_spec [OF inv(1), of 0] move_down_other [OF inv(1), of 0] inv by auto
  have tw: "?tw = set_slot ?md 1 ?s []"
    by (simp add: cascade_level_def Let_def)
  have std: "standard ?tw" "tw_future ?tw = []" "\<And>s. get_slot ?tw 2 s = []" "\<And>s. get_slot ?tw 3 s = []"
    unfolding tw using md standard_length [OF md(1)] by simp_all
  have "fst (cascade_loop [2, 3] ?tw) = ?tw"
    by (rule cascade_loop_empty [OF std(1)]) (use std in simp)
  then have "fst (cascade_loop [1, 2, 3] tw) = ?tw"
    unfolding cascade_loop.simps(2) [of 1] Let_def by simp
  then obtain b where loop: "cascade_loop [1, 2, 3] tw = (?tw, b)"
    by (metis prod.collapse)
  have "cascade_future ?tw = ?tw"
    by (rule cascade_future_empty [OF std(2)])
  moreover have "twl_num (tw_levels ?tw ! 0) = 1024"
    using standard_level(3) [OF std(1), of 0] by simp
  ultimately show ?thesis
    unfolding timer_wheel_cascade_def loop Let_def prod.case by simp
qed

lemma cascade_spec:
  assumes "tw_inv tw" "unat (tw_now tw) mod 1024 = 1023" "tw_now tw < n"
    and later: "\<And>e. e \<in># wheel_mset tw \<Longrightarrow> target e \<noteq> unat (tw_now tw)"
  shows "tw_inv ((timer_wheel_cascade tw)\<lparr>tw_now := tw_now tw + 1\<rparr>)"
    and "wheel_mset (timer_wheel_cascade tw) = wheel_mset tw"
    and "tw_fired (timer_wheel_cascade tw) = tw_fired tw"
proof -
  note inv = tw_invD [OF assms(1)]
  let ?N = "unat (tw_now tw)"
  define q where "q = ?N div 1024"
  have N: "?N = q * 1024 + 1023"
    using assms(2) unfolding q_def by (metis div_mult_mod_eq)
  define s1 where "s1 = (q + 1) mod 64"
  define es where "es = get_slot tw 1 s1"
  define md where "md = move_down 0 es tw"
  have md: "standard md" "wheel_mset md = wheel_mset tw + mset es" "tw_now md = tw_now tw"
    "tw_base md = tw_base tw" "tw_future md = []" "tw_fired md = tw_fired tw"
    "tw_num_timers md = tw_num_timers tw"
    "\<And>s. set (get_slot md 0 s) = set (get_slot tw 0 s) \<union> {e \<in> set es. target e mod 1024 = s}"
    "\<And>l s. l \<noteq> 0 \<Longrightarrow> get_slot md l s = get_slot tw l s"
    using move_down_spec [OF inv(1), of 0 es] move_down_other [OF inv(1), of 0] inv(10)
      standard_slot [OF inv(1), of 0]
    unfolding md_def by simp_all
  define c where "c = set_slot md 1 s1 []"
  have cl: "cascade_level 1 tw = c"
    using next_slot_block [OF inv(1)]
    by (simp add: cascade_level_def Let_def md_def es_def s1_def q_def c_def)
  have get: "get_slot c l s = (if l = 1 \<and> s = s1 then [] else get_slot md l s)" for l s
    using standard_length [OF md(1)] by (simp add: c_def)
  have "s1 < 2 ^ level_bits 1" by (simp add: s1_def level_bits_def)
  from wheel_mset_set_slot [OF md(1) _ this, of "[]"]
  have mset: "wheel_mset c = wheel_mset tw"
    using md(2) md(9) [of 1 s1] by (simp add: es_def c_def)
  have cas: "timer_wheel_cascade tw = c\<lparr>tw_base := tw_base tw + 1024\<rparr>"
    using cascade_short [OF assms(1)] unfolding cl by (simp add: md(4) c_def)
  then show "wheel_mset (timer_wheel_cascade tw) = wheel_mset tw"
    and "tw_fired (timer_wheel_cascade tw) = tw_fired tw"
    using mset md(6) by (simp_all add: c_def)
  have es_block: "target e div 1024 = q + 1" if "e \<in> set es" for e
    using inv(6,7) [of e s1] that mod_window [of "target e div 1024" 64 "q + 1"]
    by (simp add: es_def s1_def q_def [symmetric])
  have now: "unat (tw_now tw + 1) = (q + 1) * 1024"
    using unat_Suc_less [OF assms(3)] by (simp add: N)
  have base: "unat (tw_base tw + 1024) = (q + 1) * 1024"
  proof -
    have "unat (tw_base tw) + unat (1024 :: u64) < 2 ^ LENGTH(64)"
      using now unsigned_less [of "tw_now tw + 1", where ?'a = nat] inv(3) by (simp add: q_def)
    then have "unat (tw_base tw + 1024) = unat (tw_base tw) + unat (1024 :: u64)"
      by (simp only: unat_add_lem)
    then show ?thesis using inv(3) by (simp add: q_def)
  qed
  have level0: "s = target e mod 1024 \<and> (q + 1) * 1024 \<le> target e \<and> target e < (q + 1) * 1024 + 1024"
    if "e \<in> set (get_slot md 0 s)" for e s
  proof (cases "e \<in> set (get_slot tw 0 s)")
    case True
    then have "e \<in># wheel_mset tw" using in_short_wheel [OF assms(1)] by blast
    then show ?thesis using inv(4,5) [OF True] later [of e] N by auto
  next
    case False
    then have e: "e \<in> set es" "target e mod 1024 = s" using that md(8) by auto
    then show ?thesis
      using es_block [OF e(1)] div_mult_mod_eq [of "target e" 1024] mod_less_divisor [of 1024 "target e"]
      by auto
  qed
  have level1: "s = target e div 1024 mod 64 \<and> q + 1 < target e div 1024 \<and> target e div 1024 \<le> q + 1 + 64"
    if "e \<in> set (get_slot tw 1 s)" "s \<noteq> s1" for e s
  proof -
    have "target e div 1024 \<noteq> q + 1"
      using inv(6) [OF that(1)] that(2) by (auto simp: s1_def)
    then show ?thesis using inv(6,7) [OF that(1)] by (auto simp: q_def)
  qed
  let ?tw = "(timer_wheel_cascade tw)\<lparr>tw_now := tw_now tw + 1\<rparr>"
  have fields: "get_slot ?tw = get_slot c" "standard ?tw" "tw_future ?tw = []"
    "wheel_mset ?tw = wheel_mset tw" "tw_num_timers ?tw = tw_num_timers tw"
    "unat (tw_now ?tw) = (q + 1) * 1024" "unat (tw_base ?tw) = (q + 1) * 1024"
    using md(1,5,7) mset now base by (simp_all add: cas c_def)
  show "tw_inv ?tw"
    unfolding tw_inv_def fields(1,3-) using fields(2) level0 level1 inv(8,9,11)
    by (simp add: get md(9) del: One_nat_def)
qed

lemma inv_not_past:
  assumes "tw_inv tw" "e \<in># wheel_mset tw"
  shows "unat (tw_now tw) \<le> target e"
proof -
  from assms(2) consider s where "e \<in> set (get_slot tw 0 s)" | s where "e \<in> set (get_slot tw 1 s)"
    unfolding in_short_wheel [OF assms(1)] by blast
  then show ?thesis
  proof cases
    case (2 s)
    then have "unat (tw_now tw) div 1024 < target e div 1024" using tw_invD(7) [OF assms(1)] by blast
    then show ?thesis using div_le_mono [of "target e" "unat (tw_now tw)" 1024] by linarith
  qed (use tw_invD(5) [OF assms(1)] in blast)
qed

text \<open>One tick of the loop: fire the current slot, cascade at the end of a block.\<close>

definition tick :: "'d timer_wheel \<Rightarrow> 'd timer_wheel" where
  "tick self =
     (let tw = fire_slot self;
          tw = (if tw_slot (tw_levels self ! 0) (tw_now self) = twl_num (tw_levels tw ! 0) - 1
                then timer_wheel_cascade tw else tw)
      in tw\<lparr>tw_now := tw_now self + 1\<rparr>)"

lemma set_time_loop_tick:
  "set_time_loop n tw =
     (if tw_now tw < n then
        if tw_num_timers (fire_slot tw) = 0 then rebase n (fire_slot tw) else set_time_loop n (tick tw)
      else tw)"
  by (subst set_time_loop.simps) (simp add: tick_def Let_def)

declare set_time_loop.simps [simp del]

lemma tick_spec:
  assumes "tw_inv tw" "tw_now tw < n"
  shows "tw_inv (tick tw)" "unat (tw_now (tick tw)) = unat (tw_now tw) + 1"
    "wheel_mset (tick tw) = wheel_mset (fire_slot tw)" "tw_fired (tick tw) = tw_fired (fire_slot tw)"
proof -
  let ?N = "unat (tw_now tw)" and ?f = "fire_slot tw"
  note f = fire_slot_spec [OF assms(1)]
  have slot: "tw_slot (tw_levels tw ! 0) (tw_now tw) = ?N mod 1024"
    using standard_slot [OF tw_invD(1) [OF assms(1)], of 0] by simp
  have num: "twl_num (tw_levels ?f ! 0) = 1024"
    using standard_level(3) [OF tw_invD(1) [OF f(1)], of 0] by simp
  have now: "unat (tw_now tw + 1) = ?N + 1" by (rule unat_Suc_less [OF assms(2)])
  have later: "target e \<noteq> ?N" if "e \<in># wheel_mset ?f" for e
    using that unfolding f(5) by simp
  have "tw_inv (tick tw) \<and> wheel_mset (tick tw) = wheel_mset ?f \<and> tw_fired (tick tw) = tw_fired ?f"
  proof (cases "?N mod 1024 = 1023")
    case True
    then have "tick tw = (timer_wheel_cascade ?f)\<lparr>tw_now := tw_now ?f + 1\<rparr>"
      by (simp add: tick_def Let_def slot num f(2))
    then show ?thesis
      using cascade_spec [OF f(1), of n] True assms(2) later by (simp add: f(2))
  next
    case False
    then have tick: "tick tw = ?f\<lparr>tw_now := tw_now tw + 1\<rparr>"
      by (simp add: tick_def Let_def slot num)
    have blk: "(?N + 1) div 1024 = ?N div 1024"
      using False by (simp add: div_Suc mod_Suc split: if_splits)
    note inv = tw_invD [OF f(1), unfolded f(2)]
    have "unat (tw_now tw) + 1 \<le> target e \<and> target e < unat (tw_now tw) + 1 + 1024"
      if "e \<in> set (get_slot ?f 0 s)" for e s
      using inv(5) [OF that] later [of e] that in_short_wheel [OF f(1), of e] by fastforce
    then have "tw_inv (tick tw)"
      unfolding tw_inv_def tick using inv(1,3,4,6-11)
      by (simp add: now blk del: One_nat_def)
    then show ?thesis by (simp add: tick)
  qed
  then show "tw_inv (tick tw)" "unat (tw_now (tick tw)) = unat (tw_now tw) + 1"
    "wheel_mset (tick tw) = wheel_mset ?f" "tw_fired (tick tw) = tw_fired ?f"
    by (simp_all add: tick_def Let_def now)
qed

lemma rebase_spec:
  assumes "tw_inv tw" "tw_num_timers tw = 0"
  shows "tw_inv (rebase n tw)" "wheel_mset (rebase n tw) = {#}" "wheel_mset tw = {#}"
    "tw_now (rebase n tw) = n" "tw_fired (rebase n tw) = tw_fired tw"
proof -
  note inv = tw_invD [OF assms(1)]
  show empty: "wheel_mset tw = {#}" using inv(11) assms(2) by simp
  then have "get_slot tw 0 s = []" "get_slot tw 1 s = []" for s
    using in_short_wheel [OF assms(1)] by (metis empty_iff list.set_intros(1) neq_Nil_conv set_mset_empty)+
  moreover have "unat (n AND NOT (twl_mask (tw_levels tw ! 0))) = unat n div 1024 * 1024"
    using base_bits [of n 0 10] standard_level(1) [OF inv(1), of 0] by simp
  ultimately show "tw_inv (rebase n tw)"
    unfolding tw_inv_def rebase_def using inv(1,8,9,10) assms(2) empty by (simp del: One_nat_def)
  show "wheel_mset (rebase n tw) = {#}" "tw_now (rebase n tw) = n"
    "tw_fired (rebase n tw) = tw_fired tw"
    using empty by (simp_all add: rebase_def)
qed

lemma set_time_loop_spec:
  assumes "tw_inv tw" "tw_now tw \<le> n"
  shows "\<exists>fs. tw_inv (set_time_loop n tw) \<and> tw_now (set_time_loop n tw) = n \<and>
    wheel_mset (set_time_loop n tw) = filter_mset (\<lambda>e. n \<le> twe_target e) (wheel_mset tw) \<and>
    tw_fired (set_time_loop n tw) = tw_fired tw @ fs \<and>
    mset (map snd fs) = filter_mset (\<lambda>e. twe_target e < n) (wheel_mset tw) \<and>
    (\<forall>(t, e) \<in> set fs. t = twe_target e \<and> tw_now tw \<le> t) \<and> sorted (map fst fs)"
  using assms
proof (induction "unat n - unat (tw_now tw)" arbitrary: tw rule: less_induct)
  case (less tw)
  let ?W = "wheel_mset tw" and ?es = "get_slot tw 0 (unat (tw_now tw) mod 1024)"
  let ?N = "tw_now tw"
  note past = inv_not_past [OF less.prems(1)]
  show ?case
  proof (cases "?N < n")
    case False
    then have n: "?N = n" using less.prems(2) by simp
    have "filter_mset (\<lambda>e. n \<le> twe_target e) ?W = ?W" "filter_mset (\<lambda>e. twe_target e < n) ?W = {#}"
      using past by (auto simp: filter_mset_eq_conv n word_le_nat_alt word_less_nat_alt
          dest: leD)
    then show ?thesis
      using less.prems(1) n by (intro exI [of _ "[]"]) (simp add: set_time_loop_tick)
  next
    case True
    note f = fire_slot_spec [OF less.prems(1)]
    have early: "filter_mset (\<lambda>e. twe_target e < n) ?W = mset ?es + filter_mset (\<lambda>e. twe_target e < n) (wheel_mset (fire_slot tw))"
      "filter_mset (\<lambda>e. n \<le> twe_target e) (wheel_mset (fire_slot tw)) = filter_mset (\<lambda>e. n \<le> twe_target e) ?W"
      unfolding f(4,5) using True
      by (auto intro!: multiset_eqI simp: word_unat_eq_iff [symmetric] word_less_nat_alt word_le_nat_alt)
    have es: "twe_target e = ?N" if "e \<in> set ?es" for e
    proof -
      have "e \<in># mset ?es" using that by simp
      then show ?thesis unfolding f(4) by (simp add: word_unat_eq_iff)
    qed
    show ?thesis
    proof (cases "tw_num_timers (fire_slot tw) = 0")
      case zero: True
      note r = rebase_spec [OF f(1) zero]
      show ?thesis
        using True zero r f(3) early es
        by (intro exI [of _ "map (\<lambda>e. (?N, e)) ?es"])
          (simp add: set_time_loop_tick comp_def sorted_wrt_map)
    next
      case nonzero: False
      note t = tick_spec [OF less.prems(1) True]
      have "unat (tw_now (tick tw)) \<le> unat n"
        using t(2) True by (simp add: word_less_nat_alt)
      then have prem: "tw_now (tick tw) \<le> n" "unat n - unat (tw_now (tick tw)) < unat n - unat ?N"
        using t(2) True by (auto simp: word_less_nat_alt word_le_nat_alt)
      obtain fs where fs: "tw_inv (set_time_loop n (tick tw))" "tw_now (set_time_loop n (tick tw)) = n"
        "wheel_mset (set_time_loop n (tick tw)) = filter_mset (\<lambda>e. n \<le> twe_target e) (wheel_mset (tick tw))"
        "tw_fired (set_time_loop n (tick tw)) = tw_fired (tick tw) @ fs"
        "mset (map snd fs) = filter_mset (\<lambda>e. twe_target e < n) (wheel_mset (tick tw))"
        "\<forall>(t, e) \<in> set fs. t = twe_target e \<and> tw_now (tick tw) \<le> t" "sorted (map fst fs)"
        using less.hyps [OF prem(2) t(1) prem(1)] by blast
      have later: "?N \<le> t" if "(t, e) \<in> set fs" for t e
        using that fs(6) t(2) by (fastforce simp: word_le_nat_alt)
      have const: "sorted (map (\<lambda>e. ?N) ?es)"
        by (simp add: sorted_wrt_map)
      have "set_time_loop n tw = set_time_loop n (tick tw)"
        using True nonzero by (simp add: set_time_loop_tick [of n tw])
      then show ?thesis
        using fs t(3,4) f(3) early es later const
        by (intro exI [of _ "map (\<lambda>e. (?N, e)) ?es @ fs"])
          (auto simp: comp_def sorted_append)
    qed
  qed
qed

subsection \<open>Adding and removing entries\<close>

definition short_timer :: "u64 \<Rightarrow> int \<Rightarrow> bool" where
  "short_timer now timeout \<longleftrightarrow> 0 \<le> timeout \<and> timeout \<le> 64512 \<and>
     \<not> (timeout = 1024 \<and> now AND 1023 = 0) \<and> now < 2 ^ 63"

lemma num_update_simps [simp]:
  "standard (tw\<lparr>tw_num_timers := x\<rparr>) = standard tw"
  "wheel_mset (tw\<lparr>tw_num_timers := x\<rparr>) = wheel_mset tw"
  "get_slot (tw\<lparr>tw_num_timers := x\<rparr>) = get_slot tw"
  by (simp_all add: standard_def wheel_mset_def get_slot_def fun_eq_iff)

lemma level_base_size:
  assumes "tw_inv tw" "unat (tw_now tw) < 2 ^ 63"
  defines "N \<equiv> unat (tw_now tw)"
  shows "unat (tw_level_base tw (tw_levels tw ! 0) + tw_level_size (tw_levels tw ! 0)) = N div 1024 * 1024 + 1024"
    "unat (tw_level_base tw (tw_levels tw ! 0) + tw_level_size (tw_levels tw ! 0) * 2) = N div 1024 * 1024 + 2048"
    "unat (tw_level_base tw (tw_levels tw ! 1) + tw_level_size (tw_levels tw ! 1)) = N div 65536 * 65536 + 65536"
    "unat (tw_level_base tw (tw_levels tw ! 1) + tw_level_size (tw_levels tw ! 1) * 2) = N div 65536 * 65536 + 131072"
proof -
  note inv = tw_invD [OF assms(1)]
  have sz: "tw_level_size (tw_levels tw ! 0) = 1024" "tw_level_size (tw_levels tw ! 1) = 65536"
    using standard_level(3,4) [OF inv(1), of 0] standard_level(3,4) [OF inv(1), of 1]
    by (simp_all add: tw_level_size_def push_bit_eq_mult)
  have b0: "unat (tw_level_base tw (tw_levels tw ! 0)) = N div 1024 * 1024"
    using standard_base [OF inv(1), of 0] inv(3) by (simp add: N_def)
  have "N div 1024 * 1024 div 65536 = N div 65536"
    using div_mult2_eq [of "N div 1024 * 1024" 1024 64] div_mult2_eq [of N 1024 64] by simp
  then have b1: "unat (tw_level_base tw (tw_levels tw ! 1)) = N div 65536 * 65536"
    using standard_base [OF inv(1), of 1] inv(3) by (simp add: N_def)
  have bound: "N div 1024 * 1024 \<le> N" "N div 65536 * 65536 \<le> N" by simp_all
  have add: "unat (x + y) = unat x + unat y" if "unat x \<le> N" "unat y \<le> 131072" for x y :: u64
  proof -
    have "unat x + unat y < 2 ^ LENGTH(64)" using that assms(2) by (simp add: N_def)
    then show ?thesis by (simp only: unat_add_lem)
  qed
  show "unat (tw_level_base tw (tw_levels tw ! 0) + tw_level_size (tw_levels tw ! 0)) = N div 1024 * 1024 + 1024"
    "unat (tw_level_base tw (tw_levels tw ! 0) + tw_level_size (tw_levels tw ! 0) * 2) = N div 1024 * 1024 + 2048"
    unfolding sz using add [of "tw_level_base tw (tw_levels tw ! 0)"] b0 bound by simp_all
  show "unat (tw_level_base tw (tw_levels tw ! 1) + tw_level_size (tw_levels tw ! 1)) = N div 65536 * 65536 + 65536"
    "unat (tw_level_base tw (tw_levels tw ! 1) + tw_level_size (tw_levels tw ! 1) * 2) = N div 65536 * 65536 + 131072"
    unfolding sz using add [of "tw_level_base tw (tw_levels tw ! 1)"] b1 bound by simp_all
qed

lemma accepts_level0:
  assumes "tw_inv tw" "unat (tw_now tw) < 2 ^ 63"
  defines "N \<equiv> unat (tw_now tw)" and "B \<equiv> unat (tw_now tw) div 1024 * 1024"
  shows "tw_level_accepts tw (tw_levels tw ! 0) t \<longleftrightarrow>
    unat t \<le> B + 1024 \<or> unat t < B + 2048 \<and> unat t mod 1024 < N mod 1024"
  using standard_masked [OF tw_invD(1) [OF assms(1)], of 0] level_base_size(1,2) [OF assms(1,2)]
  by (auto simp: tw_level_accepts_def Let_def word_less_nat_alt N_def B_def)

lemma accepts_level1:
  assumes "tw_inv tw" "unat (tw_now tw) < 2 ^ 63"
  defines "N \<equiv> unat (tw_now tw)" and "B \<equiv> unat (tw_now tw) div 65536 * 65536"
  shows "tw_level_accepts tw (tw_levels tw ! 1) t \<longleftrightarrow>
    unat t \<le> B + 65536 \<or> unat t < B + 131072 \<and> unat t div 1024 mod 64 < N div 1024 mod 64"
  using standard_masked [OF tw_invD(1) [OF assms(1)], of 1] level_base_size(3,4) [OF assms(1,2)]
  by (auto simp: tw_level_accepts_def Let_def word_less_nat_alt N_def B_def)

lemma short_level0:
  fixes N T :: nat
  assumes "N \<le> T" "\<not> (T = N + 1024 \<and> N mod 1024 = 0)"
    "T \<le> N div 1024 * 1024 + 1024 \<or>
     T < N div 1024 * 1024 + 2048 \<and> T mod 1024 < N mod 1024"
  shows "T < N + 1024"
proof (rule ccontr)
  assume far: "\<not> T < N + 1024"
  define b r where "b = N div 1024" and "r = N mod 1024"
  have N: "N = b * 1024 + r" "r < 1024" by (simp_all add: b_def r_def)
  show False
  proof (cases "T \<le> b * 1024 + 1024")
    case True
    then show False using far assms(2) N by (simp add: r_def [symmetric])
  next
    case False
    then have T: "T < b * 1024 + 2048" "T mod 1024 < r"
      using assms(3) by (auto simp: b_def r_def)
    obtain d where d: "T = (b + 1) * 1024 + d" using False le_Suc_ex [of "(b + 1) * 1024" T] by auto
    then have "d < 1024" using T(1) by simp
    then have "T mod 1024 = d" unfolding d by (simp only: mod_mult_self3 mod_less)
    then show False using T(2) far N d by simp
  qed
qed

lemma short_level1:
  fixes N T :: nat
  assumes "N \<le> T" "T \<le> N + 64512" "T > N div 1024 * 1024 + 1024"
  shows "N div 1024 < T div 1024" "T div 1024 \<le> N div 1024 + 63"
    "T \<le> N div 65536 * 65536 + 65536 \<or>
     T < N div 65536 * 65536 + 131072 \<and> T div 1024 mod 64 < N div 1024 mod 64"
proof -
  define b c where "b = N div 1024" and "c = T div 1024"
  define h k where "h = b div 64" and "k = b mod 64"
  have b: "b = h * 64 + k" "k < 64" by (simp_all add: h_def k_def)
  have h: "N div 65536 = h" by (simp add: h_def b_def div_mult2_eq [symmetric])
  have N: "b * 1024 \<le> N" "N < b * 1024 + 1024"
    using div_mult_mod_eq [of N 1024] mod_less_divisor [of 1024 N] unfolding b_def by linarith+
  have T: "c * 1024 \<le> T" "T < c * 1024 + 1024"
    using div_mult_mod_eq [of T 1024] mod_less_divisor [of 1024 T] unfolding c_def by linarith+
  have c: "b < c" "c \<le> b + 63" using assms N T by (simp_all add: b_def [symmetric])
  then show "N div 1024 < T div 1024" "T div 1024 \<le> N div 1024 + 63" by (simp_all add: b_def c_def)
  show "T \<le> N div 65536 * 65536 + 65536 \<or>
     T < N div 65536 * 65536 + 131072 \<and> T div 1024 mod 64 < N div 1024 mod 64"
  proof (cases "T \<le> h * 65536 + 65536")
    case False
    then have "h * 64 + 64 \<le> c" using T by linarith
    then obtain d where d: "c = (h + 1) * 64 + d" using le_Suc_ex [of "(h + 1) * 64" c] by auto
    then have "d < k" using c(2) b(1) by (simp add: algebra_simps)
    then have "c mod 64 < k" unfolding d using b(2) by (simp only: mod_mult_self3 mod_less less_trans)
    moreover have "T < h * 65536 + 131072" using T c b by linarith
    ultimately show ?thesis by (simp add: h c_def [symmetric] b_def [symmetric] k_def)
  qed (simp add: h)
qed

lemma add_entry_spec:
  assumes "tw_inv tw" "short_timer (tw_now tw) timeout"
    and e: "twe_target e = tw_now tw + of_int timeout"
  shows "tw_inv ((timer_wheel_add_timer_entry tw e)\<lparr>tw_num_timers := tw_num_timers tw + 1\<rparr>)"
    "wheel_mset (timer_wheel_add_timer_entry tw e) = add_mset e (wheel_mset tw)"
    "tw_now (timer_wheel_add_timer_entry tw e) = tw_now tw"
    "tw_fired (timer_wheel_add_timer_entry tw e) = tw_fired tw"
    "target e = unat (tw_now tw) + nat timeout"
proof -
  note inv = tw_invD [OF assms(1)]
  let ?N = "unat (tw_now tw)" and ?T = "target e"
  have short: "0 \<le> timeout" "timeout \<le> 64512" "\<not> (timeout = 1024 \<and> ?N mod 1024 = 0)" "?N < 2 ^ 63"
  proof -
    have "tw_now tw AND 1023 = take_bit 10 (tw_now tw)"
      by (simp add: take_bit_eq_mask mask_eq_exp_minus_1)
    moreover have "unat (take_bit 10 (tw_now tw)) = ?N mod 1024"
      unfolding unsigned_take_bit_eq by (simp add: take_bit_eq_mod)
    ultimately have "tw_now tw AND 1023 = 0 \<longleftrightarrow> ?N mod 1024 = 0"
      by (metis unat_eq_0)
    then show "0 \<le> timeout" "timeout \<le> 64512" "\<not> (timeout = 1024 \<and> ?N mod 1024 = 0)" "?N < 2 ^ 63"
      using assms(2) by (auto simp: short_timer_def word_less_nat_alt)
  qed
  have small: "unat (of_nat (nat timeout) :: u64) = nat timeout"
    unfolding unsigned_of_nat of_nat_id
    by (rule take_bit_nat_eq_self) (use short(1,2) in simp)
  have "(of_int timeout :: u64) = of_nat (nat timeout)"
    using short(1) by simp
  moreover have "?N + unat (of_nat (nat timeout) :: u64) < 2 ^ LENGTH(64)"
    unfolding small using short by simp
  then have "unat (tw_now tw + of_nat (nat timeout)) = ?N + unat (of_nat (nat timeout) :: u64)"
    by (simp only: unat_add_lem)
  ultimately show T: "?T = ?N + nat timeout"
    unfolding e small by simp
  define k where "k = (if tw_level_accepts tw (tw_levels tw ! 0) (twe_target e) then 0 else 1 :: nat)"
  define sl where "sl = tw_slot (tw_levels tw ! k) (twe_target e)"
  have acc1: "tw_level_accepts tw (tw_levels tw ! 1) (twe_target e) \<and> ?N div 1024 < ?T div 1024 \<and>
      ?T div 1024 \<le> ?N div 1024 + 63"
    if "\<not> tw_level_accepts tw (tw_levels tw ! 0) (twe_target e)"
  proof -
    have "?T > ?N div 1024 * 1024 + 1024"
      using that unfolding accepts_level0 [OF assms(1) short(4)] by simp
    moreover have "?N \<le> ?T" "?T \<le> ?N + 64512" using T short(2) by simp_all
    ultimately show ?thesis
      using short_level1 [of ?N ?T] unfolding accepts_level1 [OF assms(1) short(4)] by blast
  qed
  have add: "timer_wheel_add_timer_entry tw e = tw_entry_prepend tw k sl e"
    using acc1 by (simp add: timer_wheel_add_timer_entry_def k_def sl_def)
  have k: "k < 4" by (simp add: k_def)
  show mset: "wheel_mset (timer_wheel_add_timer_entry tw e) = add_mset e (wheel_mset tw)"
    unfolding add sl_def by (rule wheel_mset_prepend [OF inv(1) k slot_index [OF inv(1) k]])
  show "tw_now (timer_wheel_add_timer_entry tw e) = tw_now tw"
    "tw_fired (timer_wheel_add_timer_entry tw e) = tw_fired tw"
    unfolding add by simp_all
  have get: "set (get_slot (timer_wheel_add_timer_entry tw e) l s) =
      set (get_slot tw l s) \<union> (if l = k \<and> s = sl then {e} else {})" for l s
    unfolding add tw_entry_prepend_def using inv(2) k by auto
  have new0: "sl = ?T mod 1024 \<and> ?N \<le> ?T \<and> ?T < ?N + 1024" if "k = 0"
  proof -
    have "tw_level_accepts tw (tw_levels tw ! 0) (twe_target e)" using that by (simp add: k_def split: if_splits)
    then show ?thesis
      using short_level0 [of ?N ?T] short(1,3) T standard_slot [OF inv(1), of 0 "twe_target e"] that
      unfolding sl_def accepts_level0 [OF assms(1) short(4)] by auto
  qed
  have new1: "sl = ?T div 1024 mod 64 \<and> ?N div 1024 < ?T div 1024 \<and> ?T div 1024 \<le> ?N div 1024 + 64"
    if "k = 1"
  proof -
    have "\<not> tw_level_accepts tw (tw_levels tw ! 0) (twe_target e)"
      using that by (simp add: k_def split: if_splits)
    then show ?thesis
      using acc1 standard_slot [OF inv(1), of 1 "twe_target e"] that unfolding sl_def by simp
  qed
  define tw' where "tw' = timer_wheel_add_timer_entry tw e"
  have fields: "standard tw'" "tw_now tw' = tw_now tw" "tw_base tw' = tw_base tw" "tw_future tw' = []"
    "size (wheel_mset tw') = size (wheel_mset tw) + 1"
    using inv(1,10) mset by (simp_all add: tw'_def add)
  have slots: "s = target x mod 1024 \<and> ?N \<le> target x \<and> target x < ?N + 1024"
    if "x \<in> set (get_slot tw' 0 s)" for x s
    using that new0 inv(4,5) [of x s] unfolding tw'_def get by (auto split: if_splits)
  have slots1: "s = target x div 1024 mod 64 \<and> ?N div 1024 < target x div 1024 \<and>
      target x div 1024 \<le> ?N div 1024 + 64"
    if "x \<in> set (get_slot tw' 1 s)" for x s
    using that new1 inv(6,7) [of x s] unfolding tw'_def get by (auto split: if_splits)
  have "set (get_slot tw' 2 s) = {}" "set (get_slot tw' 3 s) = {}" for s
    unfolding tw'_def get using inv(8,9) by (simp_all add: k_def)
  then show "tw_inv ((timer_wheel_add_timer_entry tw e)\<lparr>tw_num_timers := tw_num_timers tw + 1\<rparr>)"
    unfolding tw'_def [symmetric] tw_inv_def using fields slots slots1 inv(3,11)
    by (simp del: One_nat_def)
qed

lemma unlink_spec:
  assumes "tw_inv tw" "count (wheel_mset tw) e = 1"
  shows "tw_inv ((tw_entry_unlink tw e)\<lparr>tw_num_timers := tw_num_timers tw - 1\<rparr>)"
    "wheel_mset (tw_entry_unlink tw e) = wheel_mset tw - {#e#}"
    "tw_now (tw_entry_unlink tw e) = tw_now tw" "tw_fired (tw_entry_unlink tw e) = tw_fired tw"
proof -
  note inv = tw_invD [OF assms(1)]
  let ?tw = "tw_entry_unlink tw e"
  have geom: "map geom (tw_levels ?tw) = map geom (tw_levels tw)"
    by (simp add: tw_entry_unlink_def geom_def)
  have get: "get_slot ?tw l s = removeAll e (get_slot tw l s)" if "l < 4" for l s
    using that inv(2) by (simp add: tw_entry_unlink_def get_slot_def)
  have count: "count (mset (removeAll e xs)) x = (if x = e then 0 else count (mset xs) x)" for xs x
    by (induction xs) auto
  have fut: "tw_future ?tw = []" using inv(10) by (simp add: tw_entry_unlink_def)
  have "count (wheel_mset ?tw) x = count (wheel_mset tw - {#e#}) x" for x
  proof (cases "x = e")
    case True
    have "e \<notin># wheel_mset ?tw" unfolding in_wheel using get fut by auto
    then show ?thesis using assms(2) by (simp add: True not_in_iff)
  next
    case False
    have "(\<Sum>l<4. \<Sum>s<2 ^ level_bits l. count (mset (get_slot ?tw l s)) x)
        = (\<Sum>l<4. \<Sum>s<2 ^ level_bits l. count (mset (get_slot tw l s)) x)"
      by (intro sum.cong refl) (use False in \<open>simp add: get count\<close>)
    then show ?thesis
      using False by (simp add: wheel_mset_def count_sum fut inv(10))
  qed
  then show mset: "wheel_mset ?tw = wheel_mset tw - {#e#}" by (rule multiset_eqI)
  show now: "tw_now ?tw = tw_now tw" "tw_fired ?tw = tw_fired tw"
    by (simp_all add: tw_entry_unlink_def)
  have "e \<in># wheel_mset tw" using assms(2) by (simp add: count_greater_zero_iff [symmetric])
  then obtain W where "wheel_mset tw = add_mset e W" using multi_member_split by metis
  then have size: "int (size (wheel_mset ?tw)) = tw_num_timers tw - 1"
    unfolding mset inv(11) by simp
  have fields: "standard ?tw" "tw_base ?tw = tw_base tw" "tw_future ?tw = []"
    using inv(1,10) geom by (simp_all add: standard_def tw_entry_unlink_def)
  show "tw_inv (?tw\<lparr>tw_num_timers := tw_num_timers tw - 1\<rparr>)"
    unfolding tw_inv_def using fields now inv(3-9) size by (simp add: get del: One_nat_def) blast
qed

lemma add_entry_num:
  "timer_wheel_add_timer_entry (tw\<lparr>tw_num_timers := x\<rparr>) e
   = (timer_wheel_add_timer_entry tw e)\<lparr>tw_num_timers := x\<rparr>"
proof -
  have "tw_level_accepts (tw\<lparr>tw_num_timers := x\<rparr>) = tw_level_accepts tw"
    by (simp add: fun_eq_iff tw_level_accepts_def tw_level_base_def)
  then show ?thesis
    by (simp add: timer_wheel_add_timer_entry_def tw_entry_prepend_def set_slot_def get_slot_def
        del: find.simps split: option.split)
qed

lemma add_entry_num_timers:
  "tw_num_timers (timer_wheel_add_timer_entry tw e) = tw_num_timers tw"
  by (simp add: timer_wheel_add_timer_entry_def del: find.simps split: option.split)

subsection \<open>Refinement of the abstract timer queue\<close>

datatype 'd timer_op =
    Add_timer int nat 'd
  | Del_timer "'d tw_entry"
  | Mod_timer "'d tw_entry" int
  | Set_time u64

fun wheel_step :: "'d timer_op \<Rightarrow> 'd timer_wheel \<Rightarrow> 'd timer_wheel" where
  "wheel_step (Add_timer t i d) tw = fst (timer_wheel_add_timer tw t i d)"
| "wheel_step (Del_timer e) tw = timer_wheel_del_timer tw e"
| "wheel_step (Mod_timer e t) tw = fst (timer_wheel_mod_timer tw e t)"
| "wheel_step (Set_time n) tw = timer_wheel_set_time tw n"

text \<open>The abstract queue: the time, the pending timers and the fired ones.\<close>

record 'd timer_queue =
  tq_now :: u64
  tq_pending :: "'d tw_entry multiset"
  tq_fired :: "'d tw_entry multiset"

fun queue_step :: "'d timer_op \<Rightarrow> 'd timer_queue \<Rightarrow> 'd timer_queue" where
  "queue_step (Add_timer t i d) q = q\<lparr>tq_pending := add_mset
     \<lparr>twe_id = i, twe_target = tq_now q + of_int t, twe_user_data = d\<rparr> (tq_pending q)\<rparr>"
| "queue_step (Del_timer e) q = q\<lparr>tq_pending := tq_pending q - {#e#}\<rparr>"
| "queue_step (Mod_timer e t) q = q\<lparr>tq_pending := add_mset
     (e\<lparr>twe_target := tq_now q + of_int t\<rparr>) (tq_pending q - {#e#})\<rparr>"
| "queue_step (Set_time n) q = (if n \<le> tq_now q then q else
     q\<lparr>tq_now := n, tq_pending := filter_mset (\<lambda>e. n \<le> twe_target e) (tq_pending q),
       tq_fired := tq_fired q + filter_mset (\<lambda>e. twe_target e < n) (tq_pending q)\<rparr>)"

text \<open>Timers within the range of the invariant; only a pending timer is removed or changed.\<close>

fun timer_op_ok :: "'d timer_op \<Rightarrow> 'd timer_queue \<Rightarrow> bool" where
  "timer_op_ok (Add_timer t i d) q = short_timer (tq_now q) t"
| "timer_op_ok (Del_timer e) q = (count (tq_pending q) e = 1)"
| "timer_op_ok (Mod_timer e t) q = (count (tq_pending q) e = 1 \<and> short_timer (tq_now q) t)"
| "timer_op_ok (Set_time n) q = True"

text \<open>The simulation: the callbacks made so far are the fired timers, each at its target.\<close>

definition wheel_sim :: "'d timer_wheel \<Rightarrow> 'd timer_queue \<Rightarrow> bool" where
  "wheel_sim tw q \<longleftrightarrow> tw_inv tw \<and> tq_now q = tw_now tw \<and> tq_pending q = wheel_mset tw \<and>
     tq_fired q = mset (map snd (tw_fired tw)) \<and>
     list_all (\<lambda>(t, e). t = twe_target e) (tw_fired tw)"

lemma wheel_sim_set_time:
  assumes "wheel_sim tw q"
  shows "wheel_sim (timer_wheel_set_time tw n) (queue_step (Set_time n) q)"
proof (cases "tw_num_timers tw = 0 \<or> n \<le> tw_now tw")
  case True
  have inv: "tw_inv tw" using assms by (simp add: wheel_sim_def)
  show ?thesis
  proof (cases "n \<le> tw_now tw")
    case False
    then have num: "tw_num_timers tw = 0" using True by simp
    note r = rebase_spec [OF inv num]
    show ?thesis using assms False num r by (simp add: wheel_sim_def timer_wheel_set_time_def)
  qed (use assms in \<open>simp add: wheel_sim_def timer_wheel_set_time_def\<close>)
next
  case False
  then have now: "tw_now tw \<le> n" "\<not> n \<le> tw_now tw" by auto
  have inv: "tw_inv tw" using assms by (simp add: wheel_sim_def)
  obtain fs where "tw_inv (set_time_loop n tw)" "tw_now (set_time_loop n tw) = n"
    "wheel_mset (set_time_loop n tw) = filter_mset (\<lambda>e. n \<le> twe_target e) (wheel_mset tw)"
    "tw_fired (set_time_loop n tw) = tw_fired tw @ fs"
    "mset (map snd fs) = filter_mset (\<lambda>e. twe_target e < n) (wheel_mset tw)"
    "\<forall>(t, e) \<in> set fs. t = twe_target e \<and> tw_now tw \<le> t"
    using set_time_loop_spec [OF inv now(1)] by blast
  then show ?thesis
    using assms False now(2)
    by (auto simp: wheel_sim_def timer_wheel_set_time_def list_all_iff)
qed

lemma wheel_sim_step:
  assumes "wheel_sim tw q" "timer_op_ok op q"
  shows "wheel_sim (wheel_step op tw) (queue_step op q)"
proof -
  have inv: "tw_inv tw" using assms(1) by (simp add: wheel_sim_def)
  show ?thesis
  proof (cases op)
    case (Add_timer t i d)
    let ?e = "\<lparr>twe_id = i, twe_target = tw_now tw + of_int t, twe_user_data = d\<rparr>"
    have "short_timer (tw_now tw) t" using assms Add_timer by (simp add: wheel_sim_def)
    note a = add_entry_spec [OF inv this, of ?e, simplified]
    then show ?thesis
      using assms(1) a by (simp add: add_entry_num_timers Add_timer wheel_sim_def timer_wheel_add_timer_def Let_def)
  next
    case (Del_timer e)
    then have "count (wheel_mset tw) e = 1" using assms by (simp add: wheel_sim_def)
    note u = unlink_spec [OF inv this]
    have "timer_wheel_del_timer tw e = ((tw_entry_unlink tw e)\<lparr>tw_num_timers := tw_num_timers tw - 1\<rparr>)
        \<lparr>tw_freed := tw_freed tw @ [e]\<rparr>"
      by (simp add: timer_wheel_del_timer_def tw_entry_free_def tw_entry_unlink_def Let_def)
    moreover have "tw_inv (x\<lparr>tw_freed := y\<rparr>) = tw_inv x" "wheel_mset (x\<lparr>tw_freed := y\<rparr>) = wheel_mset x"
      for x :: "'a timer_wheel" and y
      by (simp_all add: tw_inv_def standard_def wheel_mset_def get_slot_def)
    ultimately show ?thesis
      using assms(1) u by (simp add: Del_timer wheel_sim_def)
  next
    case (Mod_timer e t)
    then have ok: "count (wheel_mset tw) e = 1" "short_timer (tw_now tw) t"
      using assms by (simp_all add: wheel_sim_def)
    note u = unlink_spec [OF inv ok(1)]
    let ?e = "e\<lparr>twe_target := tw_now tw + of_int t\<rparr>"
    let ?u = "(tw_entry_unlink tw e)\<lparr>tw_num_timers := tw_num_timers tw - 1\<rparr>"
    have "short_timer (tw_now ?u) t" "twe_target ?e = tw_now ?u + of_int t" using ok(2) u(3) by simp_all
    note a = add_entry_spec [OF u(1) this]
    have "timer_wheel_add_timer_entry (tw_entry_unlink tw e) ?e
        = (timer_wheel_add_timer_entry ?u ?e)\<lparr>tw_num_timers := tw_num_timers ?u + 1\<rparr>"
    proof -
      have "tw_num_timers (timer_wheel_add_timer_entry (tw_entry_unlink tw e) ?e) = tw_num_timers tw"
        by (simp add: add_entry_num_timers) (simp add: tw_entry_unlink_def)
      then show ?thesis by (simp add: add_entry_num)
    qed
    then have "fst (timer_wheel_mod_timer tw e t)
        = (timer_wheel_add_timer_entry ?u ?e)\<lparr>tw_num_timers := tw_num_timers ?u + 1\<rparr>"
      by (simp add: timer_wheel_mod_timer_def Let_def u(3))
    then show ?thesis
      using assms(1) a u by (simp add: Mod_timer wheel_sim_def)
  next
    case (Set_time n)
    then show ?thesis using wheel_sim_set_time [OF assms(1)] by simp
  qed
qed

interpretation tw: simulation wheel_step queue_step timer_op_ok wheel_sim
  by unfold_locales (rule wheel_sim_step)

definition empty_queue :: "'d timer_queue" where
  "empty_queue = \<lparr>tq_now = 0, tq_pending = {#}, tq_fired = {#}\<rparr>"

lemma new_wheel_empty: "get_slot timer_wheel_new l s = []" if "l < 4"
proof -
  consider "l = 0" | "l = 1" | "l = 2" | "l = 3" using \<open>l < 4\<close> by linarith
  then show ?thesis by cases (simp_all add: get_slot_def timer_wheel_new_def tw_level_new_def Let_def)
qed

lemma wheel_sim_new: "wheel_sim timer_wheel_new empty_queue"
proof -
  have "wheel_mset timer_wheel_new = {#}"
    by (simp add: wheel_mset_def new_wheel_empty) (simp add: timer_wheel_new_def)
  then show ?thesis
    unfolding wheel_sim_def tw_inv_def
    by (simp add: standard_new new_wheel_empty empty_queue_def) (simp add: timer_wheel_new_def)
qed


definition wheel_demo :: "string timer_op list" where
  "wheel_demo = [Add_timer 2 0 ''a'', Add_timer 1500 1 ''b'', Set_time 5]"


text \<open>
  C36: A timeout of 1024 set at a multiple of 1024 expires 1024 seconds early.
  The comparison with the end of level 0 is strict, so the timer is put into
  slot 0 of the current block, the slot the next tick fires.
\<close>
theorem timeout_1024_expires_at_once:
  assumes "tw_inv tw" and "unat (tw_now tw) mod 1024 = 0" and "unat (tw_now tw) < 2 ^ 63"
    and "timer_wheel_add_timer tw 1024 i d = (tw', e)"
  shows "twe_target e = tw_now tw + 1024 \<and>
    (tw_now tw, e) \<in> set (tw_fired (timer_wheel_set_time tw' (tw_now tw + 1)))"
proof -
  note inv = tw_invD [OF assms(1)]
  let ?N = "unat (tw_now tw)"
  have e: "e = \<lparr>twe_id = i, twe_target = tw_now tw + 1024, twe_user_data = d\<rparr>"
    and tw': "tw' = (timer_wheel_add_timer_entry tw e)\<lparr>tw_num_timers := tw_num_timers tw + 1\<rparr>"
    using assms(4) by (auto simp: timer_wheel_add_timer_def Let_def add_entry_num_timers)
  have "?N + unat (1024 :: u64) < 2 ^ LENGTH(64)" using assms(3) by simp
  then have T: "unat (tw_now tw + 1024) = ?N + 1024"
    by (simp only: unat_add_lem) simp
  have blk: "?N div 1024 * 1024 = ?N" using assms(2) div_mult_mod_eq [of ?N 1024] by simp
  have acc: "tw_level_accepts tw (tw_levels tw ! 0) (twe_target e)"
    unfolding accepts_level0 [OF assms(1,3)] by (simp add: e T blk)
  have slot: "tw_slot (tw_levels x ! 0) t = unat t mod 1024" if "standard x" for x :: "'a timer_wheel" and t
    using standard_slot [OF that, of 0 t] by simp
  have add: "timer_wheel_add_timer_entry tw e = tw_entry_prepend tw 0 0 e"
    using acc assms(2) by (simp add: timer_wheel_add_timer_entry_def slot [OF inv(1)] e T)
  have std: "standard tw'" "tw_now tw' = tw_now tw" "get_slot tw' 0 0 = e # get_slot tw 0 0"
    using inv(1,2) by (simp_all add: tw' add) (simp add: tw_entry_prepend_def)
  have fired: "(tw_now tw, e) \<in> set (tw_fired (fire_slot tw'))"
    using slot [OF std(1), of "tw_now tw"] std(2,3) assms(2) by (simp add: fire_slot_def Let_def)
  have lt: "tw_now tw < tw_now tw + 1"
    using assms(3) unat_Suc_less [of "tw_now tw" "2 ^ 63"]
    by (simp add: word_less_nat_alt)
  have "tw_num_timers tw' \<noteq> 0" using inv(11) by (simp add: tw')
  then have "timer_wheel_set_time tw' (tw_now tw + 1) = set_time_loop (tw_now tw + 1) tw'"
    using lt by (simp add: timer_wheel_set_time_def std(2))
  moreover have "tw_fired (tick tw') = tw_fired (fire_slot tw')"
  proof -
    have "standard (fire_slot tw')"
      using std(1) by (simp add: fire_slot_def Let_def) (simp add: standard_def)
    then have "twl_num (tw_levels (fire_slot tw') ! 0) = 1024"
      using standard_level(3) [of "fire_slot tw'" 0] by simp
    then show ?thesis
      using assms(2) std(2) slot [OF std(1), of "tw_now tw"] by (simp add: tick_def Let_def)
  qed
  moreover have "tw_now (tick tw') = tw_now tw + 1" by (simp add: tick_def Let_def std(2))
  then have "set_time_loop (tw_now tw + 1) (tick tw') = tick tw'"
    by (simp add: set_time_loop_tick [of _ "tick tw'"])
  ultimately have "tw_fired (timer_wheel_set_time tw' (tw_now tw + 1)) = tw_fired (fire_slot tw')"
    using lt by (simp add: set_time_loop_tick [of _ tw'] std(2) rebase_def)
  then show ?thesis using fired e by simp
qed

theorem timeout_1024_expires_at_once_witness:
  "case timer_wheel_add_timer timer_wheel_new 1024 7 ''ctx'' of (tw', e) \<Rightarrow>
     twe_target e = 1024 \<and> (0, e) \<in> set (tw_fired (timer_wheel_set_time tw' 1))"
proof -
  obtain tw' e where a: "timer_wheel_add_timer timer_wheel_new 1024 7 ''ctx'' = (tw', e)"
    by (cases "timer_wheel_add_timer timer_wheel_new 1024 7 ''ctx''")
  have inv: "tw_inv (timer_wheel_new :: string timer_wheel)"
    using wheel_sim_new [where ?'a = string] by (simp add: wheel_sim_def)
  have now: "tw_now (timer_wheel_new :: string timer_wheel) = 0" by (simp add: timer_wheel_new_def)
  show ?thesis
    using timeout_1024_expires_at_once [OF inv _ _ a] by (simp add: a now)
qed

end
