(* ===== verification/Msg_Ack.thy ===== *)
theory Msg_Ack
  imports Log_Queue
begin

text \<open>
  Reference and acknowledgement counting of messages: the parts of
  lib/logmsg.c that create, clone, reference, acknowledge and free a message,
  with the per-thread cache of the counters.

  Messages live in a store indexed by address; a freed message is no longer in
  the store, so that using it is an abort.  Every function takes the number of
  the thread that runs it, which selects the thread local block.  The
  compare-and-exchange loop of the counter update is one atomic step: an
  attempt that loses the race changes nothing and is repeated on the new value.
  The acknowledgement callback of a source is recorded in \<open>ms_acked\<close>; it ends,
  in both ack trackers, with dropping the reference the source took.
\<close>

subsection \<open>The packed counter\<close>

definition LOGMSG_REFCACHE_BIAS :: u32 where
  "LOGMSG_REFCACHE_BIAS = 0x2000"

definition LOGMSG_REFCACHE_REF_MASK :: u32 where
  "LOGMSG_REFCACHE_REF_MASK = 0x7FFF"

definition LOGMSG_REFCACHE_ACK_MASK :: u32 where
  "LOGMSG_REFCACHE_ACK_MASK = 0x3FFF8000"

definition LOGMSG_REFCACHE_ABORT_MASK :: u32 where
  "LOGMSG_REFCACHE_ABORT_MASK = 0x40000000"

definition LOGMSG_REFCACHE_SUSPEND_MASK :: u32 where
  "LOGMSG_REFCACHE_SUSPEND_MASK = 0x80000000"

definition REF_TO_VALUE :: "u32 \<Rightarrow> u32" where
  "REF_TO_VALUE x = push_bit 0 x AND LOGMSG_REFCACHE_REF_MASK"

definition ACK_TO_VALUE :: "u32 \<Rightarrow> u32" where
  "ACK_TO_VALUE x = push_bit 15 x AND LOGMSG_REFCACHE_ACK_MASK"

definition ABORT_TO_VALUE :: "u32 \<Rightarrow> u32" where
  "ABORT_TO_VALUE x = push_bit 30 x AND LOGMSG_REFCACHE_ABORT_MASK"

definition SUSPEND_TO_VALUE :: "u32 \<Rightarrow> u32" where
  "SUSPEND_TO_VALUE x = push_bit 31 x AND LOGMSG_REFCACHE_SUSPEND_MASK"

definition VALUE_TO_REF :: "u32 \<Rightarrow> u32" where
  "VALUE_TO_REF x = drop_bit 0 (x AND LOGMSG_REFCACHE_REF_MASK)"

definition VALUE_TO_ACK :: "u32 \<Rightarrow> u32" where
  "VALUE_TO_ACK x = drop_bit 15 (x AND LOGMSG_REFCACHE_ACK_MASK)"

definition VALUE_TO_ABORT :: "u32 \<Rightarrow> u32" where
  "VALUE_TO_ABORT x = drop_bit 30 (x AND LOGMSG_REFCACHE_ABORT_MASK)"

definition VALUE_TO_SUSPEND :: "u32 \<Rightarrow> u32" where
  "VALUE_TO_SUSPEND x = drop_bit 31 (x AND LOGMSG_REFCACHE_SUSPEND_MASK)"

text \<open>The new value computed by \<open>log_msg_update_ack_and_ref_and_abort_and_suspended\<close>.\<close>

definition updated_value :: "u32 \<Rightarrow> i32 \<Rightarrow> i32 \<Rightarrow> u32 \<Rightarrow> u32 \<Rightarrow> u32" where
  "updated_value old_value add_ref add_ack add_abort add_suspend =
     (let v1 = (old_value AND NOT LOGMSG_REFCACHE_REF_MASK) + REF_TO_VALUE (VALUE_TO_REF old_value + add_ref);
          v2 = (v1 AND NOT LOGMSG_REFCACHE_ACK_MASK) + ACK_TO_VALUE (VALUE_TO_ACK old_value + add_ack);
          v3 = (v2 AND NOT LOGMSG_REFCACHE_ABORT_MASK) + ABORT_TO_VALUE (VALUE_TO_ABORT old_value OR add_abort)
      in (v3 AND NOT LOGMSG_REFCACHE_SUSPEND_MASK) + SUSPEND_TO_VALUE (VALUE_TO_SUSPEND old_value OR add_suspend))"

lemmas mask_defs = LOGMSG_REFCACHE_REF_MASK_def LOGMSG_REFCACHE_ACK_MASK_def
  LOGMSG_REFCACHE_ABORT_MASK_def LOGMSG_REFCACHE_SUSPEND_MASK_def

lemma mask_bits:
  "bit LOGMSG_REFCACHE_REF_MASK n \<longleftrightarrow> n < 15"
  "bit LOGMSG_REFCACHE_ACK_MASK n \<longleftrightarrow> 15 \<le> n \<and> n < 30"
  "bit LOGMSG_REFCACHE_ABORT_MASK n \<longleftrightarrow> n = 30"
  "bit LOGMSG_REFCACHE_SUSPEND_MASK n \<longleftrightarrow> n = 31"
proof -
  have e: "LOGMSG_REFCACHE_REF_MASK = mask 15" "LOGMSG_REFCACHE_ACK_MASK = push_bit 15 (mask 15)"
    "LOGMSG_REFCACHE_ABORT_MASK = 2 ^ 30" "LOGMSG_REFCACHE_SUSPEND_MASK = 2 ^ 31"
    by (simp_all add: mask_defs mask_eq_exp_minus_1 push_bit_eq_mult)
  show "bit LOGMSG_REFCACHE_REF_MASK n \<longleftrightarrow> n < 15" by (auto simp only: e(1) bit_mask_iff) simp
  show "bit LOGMSG_REFCACHE_ACK_MASK n \<longleftrightarrow> 15 \<le> n \<and> n < 30"
    by (auto simp only: e(2) bit_push_bit_iff bit_mask_iff) simp_all
  show "bit LOGMSG_REFCACHE_ABORT_MASK n \<longleftrightarrow> n = 30" by (auto simp only: e(3) bit_exp_iff) simp
  show "bit LOGMSG_REFCACHE_SUSPEND_MASK n \<longleftrightarrow> n = 31" by (auto simp only: e(4) bit_exp_iff) simp
qed

lemma bit_insert_field:
  "bit ((a AND NOT m) + (push_bit k b AND m)) n =
     (if bit m n then k \<le> n \<and> bit b (n - k) else bit a n)" for a :: u32
proof -
  have "(a AND NOT m) + (push_bit k b AND m) = (a AND NOT m) OR (push_bit k b AND m)"
    by (rule disjunctive_add) (simp add: bit_simps)
  then show ?thesis using bit_imp_le_length [of a n] bit_imp_le_length [of m n]
    by (auto simp: bit_simps)
qed

lemma bit_updated_value:
  "bit (updated_value v r a ab su) n =
     (if n < 15 then bit (VALUE_TO_REF v + r) n
      else if n < 30 then bit (VALUE_TO_ACK v + a) (n - 15)
      else if n = 30 then bit (VALUE_TO_ABORT v OR ab) 0
      else n = 31 \<and> bit (VALUE_TO_SUSPEND v OR su) 0)"
proof -
  have "n < 15 \<or> 15 \<le> n \<and> n < 30 \<or> n = 30 \<or> n = 31 \<or> 32 \<le> n" by linarith
  moreover have "\<not> bit v n" if "32 \<le> n" using that bit_imp_le_length [of v n] by auto
  ultimately show ?thesis
    unfolding updated_value_def Let_def REF_TO_VALUE_def ACK_TO_VALUE_def ABORT_TO_VALUE_def
      SUSPEND_TO_VALUE_def bit_insert_field mask_bits
    by (elim disjE) simp_all
qed

lemma value_fields:
  "VALUE_TO_REF v = take_bit 15 v"
  "VALUE_TO_ACK v = take_bit 15 (drop_bit 15 v)"
  "VALUE_TO_ABORT v = take_bit 1 (drop_bit 30 v)"
  "VALUE_TO_SUSPEND v = take_bit 1 (drop_bit 31 v)"
  unfolding VALUE_TO_REF_def VALUE_TO_ACK_def VALUE_TO_ABORT_def VALUE_TO_SUSPEND_def
  by (rule bit_word_eqI, simp only: bit_take_bit_iff bit_drop_bit_eq bit_and_iff mask_bits o_def; auto)+

lemma updated_fields:
  "VALUE_TO_REF (updated_value v r a ab su) = take_bit 15 (VALUE_TO_REF v + r)"
  "VALUE_TO_ACK (updated_value v r a ab su) = take_bit 15 (VALUE_TO_ACK v + a)"
  "VALUE_TO_ABORT (updated_value v r a ab su) = take_bit 1 (VALUE_TO_ABORT v OR ab)"
  "VALUE_TO_SUSPEND (updated_value v r a ab su) = take_bit 1 (VALUE_TO_SUSPEND v OR su)"
  unfolding value_fields(1) [of "updated_value v r a ab su"] value_fields(2) [of "updated_value v r a ab su"]
    value_fields(3) [of "updated_value v r a ab su"] value_fields(4) [of "updated_value v r a ab su"]
  by (rule bit_word_eqI, simp only: bit_take_bit_iff bit_drop_bit_eq bit_updated_value o_def; auto)+

subsection \<open>Messages and the thread local block\<close>

datatype ack_func = Log_source_msg_ack | Log_msg_clone_ack

text \<open>
  The fields of \<open>LogMessage\<close> that the lifetime of a message depends on.  The
  parts a message may own are named by the address they were allocated at;
  \<open>lm_space\<close> is the number of queue nodes the allocation has room for.
\<close>

record log_message =
  lm_value :: u32
  lm_ack_func :: "ack_func option"
  lm_original :: "nat option"
  lm_tags :: "nat option"
  lm_sdata :: "nat option"
  lm_saddr :: "nat option"
  lm_payload :: "nat option"
  lm_flags :: u32
  lm_num_tags :: u8
  lm_num_nodes :: u8
  lm_cur_node :: u8
  lm_space :: int

record tls_block =
  logmsg_current :: "nat option"
  logmsg_cached_ack_needed :: bool
  logmsg_cached_refs :: i32
  logmsg_cached_acks :: i32
  logmsg_cached_abort :: bool
  logmsg_cached_suspend :: bool

datatype msg_part = Payload nat | Tags nat | Sdata nat | Saddr nat

record msg_state =
  ms_heap :: "nat \<Rightarrow> log_message option"
  ms_next :: nat
  ms_tls :: "nat \<Rightarrow> tls_block"
  ms_acked :: "(nat \<times> ack_type) list"
  ms_released :: "msg_part list"
  logmsg_queue_node_max :: int

definition LF_STATE_MASK :: u32 where "LF_STATE_MASK = 0xFFF0"
definition LF_STATE_OWN_PAYLOAD :: u32 where "LF_STATE_OWN_PAYLOAD = 0x0010"
definition LF_STATE_OWN_SADDR :: u32 where "LF_STATE_OWN_SADDR = 0x0020"
definition LF_STATE_OWN_TAGS :: u32 where "LF_STATE_OWN_TAGS = 0x0040"
definition LF_STATE_OWN_SDATA :: u32 where "LF_STATE_OWN_SDATA = 0x0080"
definition LF_STATE_OWN_MASK :: u32 where "LF_STATE_OWN_MASK = 0x00F0"
definition LF_STATE_REFERENCED :: u32 where "LF_STATE_REFERENCED = 0x0100"

definition log_msg_chk_flag :: "log_message \<Rightarrow> u32 \<Rightarrow> bool" where
  "log_msg_chk_flag self flag = (lm_flags self AND flag \<noteq> 0)"

definition log_msg_set_flag :: "log_message \<Rightarrow> u32 \<Rightarrow> log_message" where
  "log_msg_set_flag self flag = self\<lparr>lm_flags := lm_flags self OR flag\<rparr>"

definition put_msg :: "nat \<Rightarrow> log_message \<Rightarrow> msg_state \<Rightarrow> msg_state" where
  "put_msg p m s = s\<lparr>ms_heap := (ms_heap s)(p \<mapsto> m)\<rparr>"

definition put_tls :: "nat \<Rightarrow> tls_block \<Rightarrow> msg_state \<Rightarrow> msg_state" where
  "put_tls t b s = s\<lparr>ms_tls := (ms_tls s)(t := b)\<rparr>"

abbreviation cached :: "nat \<Rightarrow> nat \<Rightarrow> msg_state \<Rightarrow> bool" where
  "cached t p s \<equiv> logmsg_current (ms_tls s t) = Some p"

definition of_flag :: "bool \<Rightarrow> u32" where
  "of_flag b = (if b then 1 else 0)"

definition ack_and_ref_and_abort_and_suspend_to_acktype :: "u32 \<Rightarrow> ack_type" where
  "ack_and_ref_and_abort_and_suspend_to_acktype value =
     (if VALUE_TO_SUSPEND value = 1 then AT_SUSPENDED
      else if VALUE_TO_ABORT value = 1 then AT_ABORTED
      else AT_PROCESSED)"

definition log_msg_update_ack_and_ref_and_abort_and_suspended ::
    "nat \<Rightarrow> i32 \<Rightarrow> i32 \<Rightarrow> bool \<Rightarrow> bool \<Rightarrow> msg_state \<Rightarrow> (u32 \<times> msg_state) option" where
  "log_msg_update_ack_and_ref_and_abort_and_suspended p add_ref add_ack add_abort add_suspend s = do {
     m \<leftarrow> ms_heap s p;
     let new_value = updated_value (lm_value m) add_ref add_ack (of_flag add_abort) (of_flag add_suspend);
     Some (lm_value m, put_msg p (m\<lparr>lm_value := new_value\<rparr>) s)
   }"

definition log_msg_update_ack_and_ref ::
    "nat \<Rightarrow> i32 \<Rightarrow> i32 \<Rightarrow> msg_state \<Rightarrow> (u32 \<times> msg_state) option" where
  "log_msg_update_ack_and_ref p add_ref add_ack s =
     log_msg_update_ack_and_ref_and_abort_and_suspended p add_ref add_ack False False s"

subsection \<open>References\<close>

definition cache_refs :: "nat \<Rightarrow> i32 \<Rightarrow> msg_state \<Rightarrow> msg_state" where
  "cache_refs t n s =
     put_tls t ((ms_tls s t)\<lparr>logmsg_cached_refs := logmsg_cached_refs (ms_tls s t) + n\<rparr>) s"

definition log_msg_ref :: "nat \<Rightarrow> nat \<Rightarrow> msg_state \<Rightarrow> msg_state option" where
  "log_msg_ref t p s =
     (if cached t p s then Some (cache_refs t 1 s)
      else do {
        (old_value, s) \<leftarrow> log_msg_update_ack_and_ref p 1 0 s;
        g_assert (1 \<le> VALUE_TO_REF old_value);
        Some s
      })"

text \<open>The parts of a message that \<open>log_msg_free\<close> releases, and the end of the message.\<close>

definition owned_parts :: "log_message \<Rightarrow> msg_part list" where
  "owned_parts self =
     (if log_msg_chk_flag self LF_STATE_OWN_PAYLOAD
      then (case lm_payload self of None \<Rightarrow> [] | Some a \<Rightarrow> [Payload a]) else []) @
     (if log_msg_chk_flag self LF_STATE_OWN_TAGS \<and> lm_num_tags self > 0
      then (case lm_tags self of None \<Rightarrow> [] | Some a \<Rightarrow> [Tags a]) else []) @
     (if log_msg_chk_flag self LF_STATE_OWN_SDATA
      then (case lm_sdata self of None \<Rightarrow> [] | Some a \<Rightarrow> [Sdata a]) else []) @
     (if log_msg_chk_flag self LF_STATE_OWN_SADDR
      then (case lm_saddr self of None \<Rightarrow> [] | Some a \<Rightarrow> [Saddr a]) else [])"

definition release_parts :: "log_message \<Rightarrow> msg_state \<Rightarrow> msg_state" where
  "release_parts self s = s\<lparr>ms_released := ms_released s @ owned_parts self\<rparr>"

definition drop_msg :: "nat \<Rightarrow> msg_state \<Rightarrow> msg_state" where
  "drop_msg p s = s\<lparr>ms_heap := (ms_heap s)(p := None)\<rparr>"

text \<open>
  \<open>log_msg_unref\<close> frees the message with the last reference, and freeing a clone
  drops the reference to its original; the body of \<open>log_msg_free\<close> is the last
  branch, and the equation \<open>log_msg_unref_unfold\<close> below names it.
\<close>

partial_function (option) log_msg_unref :: "nat \<Rightarrow> nat \<Rightarrow> msg_state \<Rightarrow> msg_state option" where
  "log_msg_unref t p s =
     (if cached t p s then Some (cache_refs t (- 1) s)
      else do {
        (old_value, s) \<leftarrow> log_msg_update_ack_and_ref p (- 1) 0 s;
        g_assert (1 \<le> VALUE_TO_REF old_value);
        (if VALUE_TO_REF old_value = 1
         then do {
           self \<leftarrow> ms_heap s p;
           let s = release_parts self s;
           s \<leftarrow> (case lm_original self of None \<Rightarrow> Some s | Some original \<Rightarrow> log_msg_unref t original s);
           Some (drop_msg p s)
         }
         else Some s)
      })"

definition log_msg_free :: "nat \<Rightarrow> nat \<Rightarrow> msg_state \<Rightarrow> msg_state option" where
  "log_msg_free t p s = do {
     self \<leftarrow> ms_heap s p;
     let s = release_parts self s;
     s \<leftarrow> (case lm_original self of None \<Rightarrow> Some s | Some original \<Rightarrow> log_msg_unref t original s);
     Some (drop_msg p s)
   }"

lemma log_msg_unref_unfold:
  "log_msg_unref t p s =
     (if cached t p s then Some (cache_refs t (- 1) s)
      else do {
        (old_value, s) \<leftarrow> log_msg_update_ack_and_ref p (- 1) 0 s;
        g_assert (1 \<le> VALUE_TO_REF old_value);
        (if VALUE_TO_REF old_value = 1 then log_msg_free t p s else Some s)
      })"
  unfolding log_msg_unref.simps [of t p s] log_msg_free_def ..

subsection \<open>Acknowledgements\<close>

definition log_msg_add_ack :: "nat \<Rightarrow> nat \<Rightarrow> path_options \<Rightarrow> msg_state \<Rightarrow> msg_state option" where
  "log_msg_add_ack t p path_options s =
     (if po_ack_needed path_options
      then if cached t p s
        then Some (put_tls t ((ms_tls s t)\<lparr>logmsg_cached_acks := logmsg_cached_acks (ms_tls s t) + 1\<rparr>) s)
        else map_option snd (log_msg_update_ack_and_ref p 0 1 s)
      else Some s)"

text \<open>
  \<open>log_source_msg_ack\<close>: the ack tracker of the source handles the acknowledgement
  (theory \<open>Ack_Tracker\<close>) and then drops its reference.
\<close>

definition log_source_msg_ack :: "nat \<Rightarrow> nat \<Rightarrow> ack_type \<Rightarrow> msg_state \<Rightarrow> msg_state option" where
  "log_source_msg_ack t p ack_type s =
     log_msg_unref t p (s\<lparr>ms_acked := ms_acked s @ [(p, ack_type)]\<rparr>)"

definition ack_path :: path_options where
  "ack_path = \<lparr>po_ack_needed = True, po_flow_control_requested = False\<rparr>"

definition cache_ack :: "nat \<Rightarrow> ack_type \<Rightarrow> msg_state \<Rightarrow> msg_state" where
  "cache_ack t ack_type s =
     (let b = ms_tls s t
      in put_tls t (b\<lparr>logmsg_cached_acks := logmsg_cached_acks b - 1,
           logmsg_cached_abort := logmsg_cached_abort b \<or> ack_type = AT_ABORTED,
           logmsg_cached_suspend := logmsg_cached_suspend b \<or> ack_type = AT_SUSPENDED\<rparr>) s)"

definition last_ack_type :: "ack_type \<Rightarrow> u32 \<Rightarrow> ack_type" where
  "last_ack_type ack_type old_value =
     (if ack_type = AT_SUSPENDED then AT_SUSPENDED
      else if ack_type = AT_ABORTED then AT_ABORTED
      else ack_and_ref_and_abort_and_suspend_to_acktype old_value)"

text \<open>
  The callback of the last acknowledgement is the source's one or, for a clone,
  \<open>log_msg_clone_ack\<close>, which acknowledges the original; the two equations after
  the definition of \<open>log_msg_clone_ack\<close> name these parts.
\<close>

partial_function (option) log_msg_ack ::
    "nat \<Rightarrow> nat \<Rightarrow> path_options \<Rightarrow> ack_type \<Rightarrow> msg_state \<Rightarrow> msg_state option" where
  "log_msg_ack t p path_options ack_type s =
     (if po_ack_needed path_options
      then if cached t p s then Some (cache_ack t ack_type s)
      else do {
        (old_value, s) \<leftarrow> log_msg_update_ack_and_ref_and_abort_and_suspended p 0 (- 1)
           (ack_type = AT_ABORTED) (ack_type = AT_SUSPENDED) s;
        (if VALUE_TO_ACK old_value = 1
         then do {
           self \<leftarrow> ms_heap s p;
           ack_func \<leftarrow> lm_ack_func self;
           (case ack_func of
              Log_source_msg_ack \<Rightarrow> log_source_msg_ack t p (last_ack_type ack_type old_value) s
            | Log_msg_clone_ack \<Rightarrow> do {
                original \<leftarrow> lm_original self;
                log_msg_ack t original ack_path (last_ack_type ack_type old_value) s
              })
         }
         else Some s)
      }
      else Some s)"

definition log_msg_clone_ack :: "nat \<Rightarrow> nat \<Rightarrow> ack_type \<Rightarrow> msg_state \<Rightarrow> msg_state option" where
  "log_msg_clone_ack t p ack_type s = do {
     self \<leftarrow> ms_heap s p;
     original \<leftarrow> lm_original self;
     log_msg_ack t original ack_path ack_type s
   }"

text \<open>\<open>self->ack_func(self, ack_type)\<close>\<close>

definition call_ack_func :: "nat \<Rightarrow> nat \<Rightarrow> ack_type \<Rightarrow> msg_state \<Rightarrow> msg_state option" where
  "call_ack_func t p ack_type s = do {
     self \<leftarrow> ms_heap s p;
     ack_func \<leftarrow> lm_ack_func self;
     (case ack_func of
        Log_source_msg_ack \<Rightarrow> log_source_msg_ack t p ack_type s
      | Log_msg_clone_ack \<Rightarrow> log_msg_clone_ack t p ack_type s)
   }"

lemma log_msg_ack_unfold:
  "log_msg_ack t p path_options ack_type s =
     (if po_ack_needed path_options
      then if cached t p s then Some (cache_ack t ack_type s)
      else do {
        (old_value, s) \<leftarrow> log_msg_update_ack_and_ref_and_abort_and_suspended p 0 (- 1)
           (ack_type = AT_ABORTED) (ack_type = AT_SUSPENDED) s;
        (if VALUE_TO_ACK old_value = 1
         then call_ack_func t p (last_ack_type ack_type old_value) s else Some s)
      }
      else Some s)"
  unfolding log_msg_ack.simps [of t p path_options ack_type s] call_ack_func_def log_msg_clone_ack_def
  by (auto simp: bind_eq_Some_conv split: option.splits ack_func.splits if_splits
       intro!: bind_option_cong [OF refl])

definition log_msg_drop :: "nat \<Rightarrow> nat \<Rightarrow> path_options \<Rightarrow> ack_type \<Rightarrow> msg_state \<Rightarrow> msg_state option" where
  "log_msg_drop t p path_options ack_type s = do {
     s \<leftarrow> log_msg_ack t p path_options ack_type s;
     log_msg_unref t p s
   }"

definition log_msg_break_ack ::
    "nat \<Rightarrow> nat \<Rightarrow> path_options \<Rightarrow> msg_state \<Rightarrow> (path_options \<times> msg_state) option" where
  "log_msg_break_ack t p path_options s = do {
     g_assert (\<not> po_flow_control_requested path_options);
     s \<leftarrow> log_msg_ack t p path_options AT_PROCESSED s;
     Some (path_options\<lparr>po_ack_needed := False\<rparr>, s)
   }"

subsection \<open>The cache\<close>

definition log_msg_refcache_start_producer :: "nat \<Rightarrow> nat \<Rightarrow> msg_state \<Rightarrow> msg_state option" where
  "log_msg_refcache_start_producer t p s = do {
     g_assert (logmsg_current (ms_tls s t) = None);
     self \<leftarrow> ms_heap s p;
     let v = (lm_value self AND NOT LOGMSG_REFCACHE_REF_MASK) +
               REF_TO_VALUE (VALUE_TO_REF (lm_value self) + LOGMSG_REFCACHE_BIAS);
     let v = (v AND NOT LOGMSG_REFCACHE_ACK_MASK) +
               ACK_TO_VALUE (VALUE_TO_ACK v + LOGMSG_REFCACHE_BIAS);
     Some (put_tls t \<lparr>logmsg_current = Some p, logmsg_cached_ack_needed = True,
         logmsg_cached_refs = - LOGMSG_REFCACHE_BIAS, logmsg_cached_acks = - LOGMSG_REFCACHE_BIAS,
         logmsg_cached_abort = False, logmsg_cached_suspend = False\<rparr>
       (put_msg p (self\<lparr>lm_value := v\<rparr>) s))
   }"

definition log_msg_refcache_start_consumer ::
    "nat \<Rightarrow> nat \<Rightarrow> path_options \<Rightarrow> msg_state \<Rightarrow> msg_state option" where
  "log_msg_refcache_start_consumer t p path_options s = do {
     g_assert (logmsg_current (ms_tls s t) = None);
     Some (put_tls t \<lparr>logmsg_current = Some p, logmsg_cached_ack_needed = po_ack_needed path_options,
         logmsg_cached_refs = 0, logmsg_cached_acks = 0,
         logmsg_cached_abort = False, logmsg_cached_suspend = False\<rparr> s)
   }"

definition in_bias_range :: "i32 \<Rightarrow> bool" where
  "in_bias_range n = (sint n < sint LOGMSG_REFCACHE_BIAS - 1 \<and> - sint LOGMSG_REFCACHE_BIAS \<le> sint n)"

definition cumulated_ack_type :: "bool \<Rightarrow> bool \<Rightarrow> u32 \<Rightarrow> ack_type" where
  "cumulated_ack_type cached_suspend cached_abort old_value =
     (if cached_suspend then AT_SUSPENDED
      else if cached_abort then AT_ABORTED
      else ack_and_ref_and_abort_and_suspend_to_acktype old_value)"

text \<open>Steps 2 and 3 of \<open>log_msg_refcache_stop\<close>: the acknowledgements are folded in.\<close>

definition fold_cached_acks :: "nat \<Rightarrow> nat \<Rightarrow> msg_state \<Rightarrow> msg_state option" where
  "fold_cached_acks t p s = do {
     let b = ms_tls s t;
     let s = put_tls t (b\<lparr>logmsg_cached_acks := 0, logmsg_cached_abort := False,
                           logmsg_cached_suspend := False\<rparr>) s;
     (old_value, s) \<leftarrow> log_msg_update_ack_and_ref_and_abort_and_suspended p 0 (logmsg_cached_acks b)
        (logmsg_cached_abort b) (logmsg_cached_suspend b) s;
     (if VALUE_TO_ACK old_value = - logmsg_cached_acks b \<and> logmsg_cached_ack_needed b
      then do {
        s \<leftarrow> call_ack_func t p
           (cumulated_ack_type (logmsg_cached_suspend b) (logmsg_cached_abort b) old_value) s;
        g_assert (logmsg_cached_acks (ms_tls s t) = 0);
        Some s
      }
      else Some s)
   }"

text \<open>Step 5: the references are folded in, and the message is freed with the last one.\<close>

definition fold_cached_refs :: "nat \<Rightarrow> nat \<Rightarrow> msg_state \<Rightarrow> msg_state option" where
  "fold_cached_refs t p s = do {
     let b = ms_tls s t;
     (old_value, s) \<leftarrow> log_msg_update_ack_and_ref p (logmsg_cached_refs b) 0 s;
     s \<leftarrow> (if VALUE_TO_REF old_value = - logmsg_cached_refs b then log_msg_free t p s else Some s);
     Some (put_tls t ((ms_tls s t)\<lparr>logmsg_cached_refs := 0, logmsg_current := None\<rparr>) s)
   }"

definition log_msg_refcache_stop :: "nat \<Rightarrow> msg_state \<Rightarrow> msg_state option" where
  "log_msg_refcache_stop t s = do {
     p \<leftarrow> logmsg_current (ms_tls s t);
     g_assert (in_bias_range (logmsg_cached_acks (ms_tls s t)));
     g_assert (in_bias_range (logmsg_cached_refs (ms_tls s t)));
     s \<leftarrow> log_msg_ref t p s;
     s \<leftarrow> fold_cached_acks t p s;
     s \<leftarrow> log_msg_unref t p s;
     fold_cached_refs t p s
   }"

subsection \<open>Creating messages\<close>

definition log_msg_alloc :: "bool \<Rightarrow> msg_state \<Rightarrow> nat \<times> msg_state" where
  "log_msg_alloc with_payload s =
     (let p = ms_next s; nodes = logmsg_queue_node_max s
      in (p, put_msg p \<lparr>lm_value = 0, lm_ack_func = None, lm_original = None, lm_tags = None,
           lm_sdata = None, lm_saddr = None, lm_payload = (if with_payload then Some p else None),
           lm_flags = 0, lm_num_tags = 0, lm_num_nodes = of_int nodes, lm_cur_node = 0,
           lm_space = nodes\<rparr> (s\<lparr>ms_next := p + 1\<rparr>)))"

definition log_msg_init :: "nat option \<Rightarrow> log_message \<Rightarrow> log_message" where
  "log_msg_init saddr self =
     self\<lparr>lm_value := REF_TO_VALUE 1, lm_sdata := None, lm_saddr := saddr, lm_original := None,
       lm_flags := lm_flags self OR LF_STATE_OWN_MASK\<rparr>"

definition log_msg_new_empty :: "msg_state \<Rightarrow> (nat \<times> msg_state) option" where
  "log_msg_new_empty s = (case log_msg_alloc True s of (p, s) \<Rightarrow> do {
     self \<leftarrow> ms_heap s p;
     Some (p, put_msg p (log_msg_init None self) s)
   })"

text \<open>
  A clone is a bitwise copy of the original with its own counters; it borrows
  the parts of the original, which it keeps alive with a reference.  The space
  for queue nodes is that of the new allocation, the number of nodes is copied.
\<close>

definition log_msg_clone_cow ::
    "nat \<Rightarrow> nat \<Rightarrow> path_options \<Rightarrow> msg_state \<Rightarrow> (nat \<times> msg_state) option" where
  "log_msg_clone_cow t msg path_options s = (case log_msg_alloc False s of (p, s) \<Rightarrow> do {
     fresh \<leftarrow> ms_heap s p;
     m \<leftarrow> ms_heap s msg;
     let m = log_msg_set_flag m LF_STATE_REFERENCED;
     let s = put_msg msg m s;
     s \<leftarrow> log_msg_ref t msg s;
     let self = m\<lparr>lm_space := lm_space fresh, lm_original := Some msg,
       lm_value := REF_TO_VALUE 1 + ACK_TO_VALUE 0 + ABORT_TO_VALUE 0, lm_cur_node := 0\<rparr>;
     s \<leftarrow> log_msg_add_ack t p path_options (put_msg p self s);
     self \<leftarrow> ms_heap s p;
     let self = self\<lparr>lm_ack_func := (if \<not> po_ack_needed path_options then None else Some Log_msg_clone_ack),
       lm_flags := lm_flags self AND NOT LF_STATE_MASK\<rparr>;
     Some (p, put_msg p (if lm_num_tags self = 0 then log_msg_set_flag self LF_STATE_OWN_TAGS else self) s)
   })"

subsection \<open>Queue nodes\<close>

text \<open>A node inside the message, with its index, or one of its own.\<close>

datatype queue_node_place = Embedded nat nat | Dynamic

definition init_queue_node :: "nat \<Rightarrow> nat \<Rightarrow> msg_state \<Rightarrow> msg_state option" where
  "init_queue_node t p s = do {
     s \<leftarrow> log_msg_ref t p s;
     msg \<leftarrow> ms_heap s p;
     Some (put_msg p (log_msg_set_flag msg LF_STATE_REFERENCED) s)
   }"

text \<open>
  \<open>nodes\<close> is the value of \<open>logmsg_queue_node_max\<close> read before the update; the
  variable is not protected, and another thread may write it in between.
\<close>

definition grow_node_max :: "int \<Rightarrow> log_message \<Rightarrow> msg_state \<Rightarrow> msg_state" where
  "grow_node_max nodes msg s =
     (if nodes < 32 \<and> nodes \<le> int (unat (lm_num_nodes msg))
      then s\<lparr>logmsg_queue_node_max := int (unat (lm_num_nodes msg)) + 1\<rparr> else s)"

definition log_msg_alloc_queue_node ::
    "nat \<Rightarrow> nat \<Rightarrow> path_options \<Rightarrow> msg_state \<Rightarrow> (queue_node_place \<times> nat queue_node \<times> msg_state) option" where
  "log_msg_alloc_queue_node t p path_options s = do {
     msg \<leftarrow> ms_heap s p;
     let (place, s) =
       (if lm_cur_node msg < lm_num_nodes msg
        then (Embedded p (unat (lm_cur_node msg)), put_msg p (msg\<lparr>lm_cur_node := lm_cur_node msg + 1\<rparr>) s)
        else (Dynamic, grow_node_max (logmsg_queue_node_max s) msg s));
     s \<leftarrow> init_queue_node t p s;
     Some (place, log_msg_init_queue_node p path_options, s)
   }"

definition log_msg_alloc_dynamic_queue_node ::
    "nat \<Rightarrow> nat \<Rightarrow> path_options \<Rightarrow> msg_state \<Rightarrow> (queue_node_place \<times> nat queue_node \<times> msg_state) option" where
  "log_msg_alloc_dynamic_queue_node t p path_options s = do {
     s \<leftarrow> init_queue_node t p s;
     Some (Dynamic, log_msg_init_queue_node p path_options, s)
   }"

definition log_msg_free_queue_node :: "queue_node_place \<Rightarrow> bool" where
  "log_msg_free_queue_node place = (place = Dynamic)"

subsection \<open>Effect of the counter update\<close>

definition msg_refs :: "log_message \<Rightarrow> int" where
  "msg_refs m = uint (VALUE_TO_REF (lm_value m))"

definition msg_acks :: "log_message \<Rightarrow> int" where
  "msg_acks m = uint (VALUE_TO_ACK (lm_value m))"

definition abort_flag :: "log_message \<Rightarrow> bool" where
  "abort_flag m = (VALUE_TO_ABORT (lm_value m) = 1)"

definition suspend_flag :: "log_message \<Rightarrow> bool" where
  "suspend_flag m = (VALUE_TO_SUSPEND (lm_value m) = 1)"

lemma uint_take_bit_15: "uint (take_bit 15 w :: u32) = uint w mod 32768"
  by (simp only: unsigned_take_bit_eq) (simp add: take_bit_eq_mod)

lemma uint_of_field:
  "0 \<le> uint w + k \<Longrightarrow> uint w + k < 32768 \<Longrightarrow> uint (take_bit 15 ((w :: u32) + of_int k)) = uint w + k"
proof -
  assume a: "0 \<le> uint w + k" "uint w + k < 32768"
  have "uint (w + of_int k) = (uint w + k) mod 2 ^ 32"
    by (simp add: uint_word_ariths unsigned_of_int take_bit_eq_mod mod_simps)
  then show ?thesis using a by (simp add: uint_take_bit_15)
qed

lemma count_bounds: "0 \<le> msg_refs m" "msg_refs m < 32768" "0 \<le> msg_acks m" "msg_acks m < 32768"
  by (simp_all add: msg_refs_def msg_acks_def value_fields uint_take_bit_15)

lemma take_bit_1_eq_1: "take_bit 1 w = (1 :: u32) \<longleftrightarrow> bit w 0"
  by (simp add: take_bit_eq_mod bit_0 odd_iff_mod_2_eq_one)

lemma flag_of_bit: "(take_bit 1 (take_bit 1 w OR of_flag b) = (1 :: u32)) \<longleftrightarrow> take_bit 1 w = (1 :: u32) \<or> b"
  unfolding take_bit_1_eq_1 by (simp only: bit_or_iff bit_take_bit_iff) (simp add: of_flag_def)

lemma updated_counts:
  assumes "m' = m\<lparr>lm_value := updated_value (lm_value m) (of_int r) (of_int a) (of_flag ab) (of_flag su)\<rparr>"
  shows "0 \<le> msg_refs m + r \<Longrightarrow> msg_refs m + r < 32768 \<Longrightarrow> msg_refs m' = msg_refs m + r"
    "0 \<le> msg_acks m + a \<Longrightarrow> msg_acks m + a < 32768 \<Longrightarrow> msg_acks m' = msg_acks m + a"
    "abort_flag m' \<longleftrightarrow> abort_flag m \<or> ab"
    "suspend_flag m' \<longleftrightarrow> suspend_flag m \<or> su"
proof -
  have v: "lm_value m' = updated_value (lm_value m) (of_int r) (of_int a) (of_flag ab) (of_flag su)"
    using assms by simp
  show "msg_refs m' = msg_refs m + r" if "0 \<le> msg_refs m + r" "msg_refs m + r < 32768"
    using that uint_of_field by (simp add: msg_refs_def v updated_fields)
  show "msg_acks m' = msg_acks m + a" if "0 \<le> msg_acks m + a" "msg_acks m + a < 32768"
    using that uint_of_field by (simp add: msg_acks_def v updated_fields)
  show "abort_flag m' \<longleftrightarrow> abort_flag m \<or> ab"
    unfolding abort_flag_def v updated_fields unfolding value_fields(3) by (rule flag_of_bit)
  show "suspend_flag m' \<longleftrightarrow> suspend_flag m \<or> su"
    unfolding suspend_flag_def v updated_fields unfolding value_fields(4) by (rule flag_of_bit)
qed

text \<open>
  C22: The four fields of the packed counter are independent.  Whatever the old
  value and the increments are, the update adds to the 15 bit reference field
  and to the 15 bit acknowledgement field with wrap-around inside the field
  only, and sets the two flags; nothing carries over into a neighbour.
\<close>
theorem counter_fields_independent:
  "let v' = updated_value v add_ref add_ack add_abort add_suspend in
     VALUE_TO_REF v' = take_bit 15 (VALUE_TO_REF v + add_ref) \<and>
     VALUE_TO_ACK v' = take_bit 15 (VALUE_TO_ACK v + add_ack) \<and>
     VALUE_TO_ABORT v' = take_bit 1 (VALUE_TO_ABORT v OR add_abort) \<and>
     VALUE_TO_SUSPEND v' = take_bit 1 (VALUE_TO_SUSPEND v OR add_suspend)"
  unfolding Let_def by (intro conjI updated_fields)

end
