(* ===== verification/Msg_Life.thy ===== *)
theory Msg_Life
  imports Msg_Ack
begin

text \<open>
  The lifetime of one message under any interleaving of threads.  An abstract
  specification counts, for every thread, the references it holds and the
  acknowledgements it owes; the packed counter and the per-thread caches of
  theory \<open>Msg_Ack\<close> are shown to implement it.
\<close>

subsection \<open>Operations of the threads\<close>

datatype life_op =
    L_ref nat
  | L_unref nat
  | L_add_ack nat
  | L_ack nat ack_type
  | L_pass nat nat nat nat
  | L_track nat
  | L_start_producer nat
  | L_start_consumer nat bool
  | L_stop nat

text \<open>
  The beginning of \<open>log_source_queue\<close>: the source takes a reference for its
  tracker, asks for an acknowledgement and installs its callback.
\<close>

definition log_source_track :: "nat \<Rightarrow> nat \<Rightarrow> msg_state \<Rightarrow> msg_state option" where
  "log_source_track t p s = do {
     s \<leftarrow> log_msg_ref t p s;
     s \<leftarrow> log_msg_add_ack t p ack_path s;
     msg \<leftarrow> ms_heap s p;
     Some (put_msg p (msg\<lparr>lm_ack_func := Some Log_source_msg_ack\<rparr>) s)
   }"

text \<open>
  \<open>L_pass t u r a\<close> hands \<open>r\<close> references and \<open>a\<close> pending acknowledgements
  over to another thread, e.g. through a queue; it runs no code of its own.
\<close>

fun life_exec :: "nat \<Rightarrow> life_op \<Rightarrow> msg_state \<Rightarrow> msg_state option" where
  "life_exec p (L_ref t) s = log_msg_ref t p s"
| "life_exec p (L_unref t) s = log_msg_unref t p s"
| "life_exec p (L_add_ack t) s = log_msg_add_ack t p ack_path s"
| "life_exec p (L_ack t ack_type) s = log_msg_ack t p ack_path ack_type s"
| "life_exec p (L_pass t u r a) s = Some s"
| "life_exec p (L_track t) s = log_source_track t p s"
| "life_exec p (L_start_producer t) s = log_msg_refcache_start_producer t p s"
| "life_exec p (L_start_consumer t b) s = log_msg_refcache_start_consumer t p (ack_path\<lparr>po_ack_needed := b\<rparr>) s"
| "life_exec p (L_stop t) s = log_msg_refcache_stop t s"

subsection \<open>The abstract specification\<close>

text \<open>What a thread has accumulated in its cache since it started caching.\<close>

record cache =
  c_refs :: int
  c_acks :: int
  c_ack_needed :: bool
  c_abort :: bool
  c_suspend :: bool

text \<open>What a thread holds: references, acknowledgements it still has to give.\<close>

record holder =
  h_refs :: int
  h_acks :: int
  h_cache :: "cache option"

record msg_life =
  lf_holders :: "holder list"
  lf_tracked :: bool
  lf_abort :: bool
  lf_suspend :: bool
  lf_acked :: "ack_type list"

text \<open>The part of a holder's counts that is in the shared counter.\<close>

definition share_refs :: "holder \<Rightarrow> int" where
  "share_refs h = h_refs h - (case h_cache h of None \<Rightarrow> 0 | Some c \<Rightarrow> c_refs c)"

definition share_acks :: "holder \<Rightarrow> int" where
  "share_acks h = h_acks h - (case h_cache h of None \<Rightarrow> 0 | Some c \<Rightarrow> c_acks c)"

text \<open>The source holds one reference from the start of tracking to the acknowledgement.\<close>

definition source_refs :: "msg_life \<Rightarrow> int" where
  "source_refs a = (if lf_tracked a \<and> lf_acked a = [] then 1 else 0)"

definition total_refs :: "msg_life \<Rightarrow> int" where
  "total_refs a = source_refs a + sum_list (map share_refs (lf_holders a))"

definition total_acks :: "msg_life \<Rightarrow> int" where
  "total_acks a = sum_list (map share_acks (lf_holders a))"

definition with_holder :: "nat \<Rightarrow> holder \<Rightarrow> msg_life \<Rightarrow> msg_life" where
  "with_holder t h a = a\<lparr>lf_holders := (lf_holders a)[t := h]\<rparr>"

abbreviation holder_of :: "msg_life \<Rightarrow> nat \<Rightarrow> holder" where
  "holder_of a t \<equiv> lf_holders a ! t"

definition take_refs :: "int \<Rightarrow> holder \<Rightarrow> holder" where
  "take_refs n h = h\<lparr>h_refs := h_refs h + n,
     h_cache := map_option (\<lambda>c. c\<lparr>c_refs := c_refs c + n\<rparr>) (h_cache h)\<rparr>"

definition take_acks :: "int \<Rightarrow> holder \<Rightarrow> holder" where
  "take_acks n h = h\<lparr>h_acks := h_acks h + n,
     h_cache := map_option (\<lambda>c. c\<lparr>c_acks := c_acks c + n\<rparr>) (h_cache h)\<rparr>"

text \<open>A reference for the source: only the cache of the thread changes.\<close>

definition take_for_source :: "holder \<Rightarrow> holder" where
  "take_for_source h = h\<lparr>h_cache := map_option (\<lambda>c. c\<lparr>c_refs := c_refs c + 1\<rparr>) (h_cache h)\<rparr>"

definition give :: "int \<Rightarrow> int \<Rightarrow> holder \<Rightarrow> holder" where
  "give r n h = h\<lparr>h_refs := h_refs h + r, h_acks := h_acks h + n\<rparr>"

definition flags_type :: "bool \<Rightarrow> bool \<Rightarrow> ack_type" where
  "flags_type suspend abort = (if suspend then AT_SUSPENDED else if abort then AT_ABORTED else AT_PROCESSED)"

text \<open>The shared flags are set; with no acknowledgement pending the source is told.\<close>

definition settle :: "bool \<Rightarrow> bool \<Rightarrow> msg_life \<Rightarrow> msg_life" where
  "settle abort suspend a =
     (let a' = a\<lparr>lf_abort := lf_abort a \<or> abort, lf_suspend := lf_suspend a \<or> suspend\<rparr>
      in if total_acks a = 0
         then a'\<lparr>lf_acked := lf_acked a @
           [if suspend then AT_SUSPENDED else if abort then AT_ABORTED else flags_type (lf_suspend a) (lf_abort a)]\<rparr>
         else a')"

fun life_step :: "life_op \<Rightarrow> msg_life \<Rightarrow> msg_life" where
  "life_step (L_ref t) a = with_holder t (take_refs 1 (holder_of a t)) a"
| "life_step (L_unref t) a = with_holder t (take_refs (- 1) (holder_of a t)) a"
| "life_step (L_add_ack t) a = with_holder t (take_acks 1 (holder_of a t)) a"
| "life_step (L_ack t ack_type) a =
     (let h = take_acks (- 1) (holder_of a t)
      in case h_cache h of
           None \<Rightarrow> settle (ack_type = AT_ABORTED) (ack_type = AT_SUSPENDED) (with_holder t h a)
         | Some c \<Rightarrow> with_holder t (h\<lparr>h_cache := Some (c\<lparr>c_abort := c_abort c \<or> ack_type = AT_ABORTED,
             c_suspend := c_suspend c \<or> ack_type = AT_SUSPENDED\<rparr>)\<rparr>) a)"
| "life_step (L_pass t u r n) a =
     (let a = with_holder t (give (- int r) (- int n) (holder_of a t)) a
      in with_holder u (give (int r) (int n) (holder_of a u)) a)"
| "life_step (L_track t) a =
     (with_holder t (take_acks 1 (take_for_source (holder_of a t))) a)\<lparr>lf_tracked := True\<rparr>"
| "life_step (L_start_producer t) a =
     with_holder t ((holder_of a t)\<lparr>h_cache := Some \<lparr>c_refs = - 8192, c_acks = - 8192,
       c_ack_needed = True, c_abort = False, c_suspend = False\<rparr>\<rparr>) a"
| "life_step (L_start_consumer t b) a =
     with_holder t ((holder_of a t)\<lparr>h_cache := Some \<lparr>c_refs = 0, c_acks = 0,
       c_ack_needed = b, c_abort = False, c_suspend = False\<rparr>\<rparr>) a"
| "life_step (L_stop t) a =
     (let h = holder_of a t; a' = with_holder t (h\<lparr>h_cache := None\<rparr>) a
      in case h_cache h of None \<Rightarrow> a
         | Some c \<Rightarrow> if c_ack_needed c then settle (c_abort c) (c_suspend c) a' else a')"

subsection \<open>The rules the threads keep\<close>

text \<open>
  A thread uses only what it holds.  The counts stay within 15 bits, what is
  cached stays within the bias, and a caching thread leaves at least one of its
  references (and, if it gives acknowledgements, one of those) in the shared
  counter.
\<close>

definition cache_room :: "int \<Rightarrow> bool" where
  "cache_room n = (- 8192 \<le> n \<and> n \<le> 8190)"

definition life_ok_pass :: "nat \<Rightarrow> nat \<Rightarrow> holder \<Rightarrow> bool" where
  "life_ok_pass r n h =
     (int r \<le> h_refs h \<and> int n \<le> h_acks h \<and>
      (case h_cache h of None \<Rightarrow> True
       | Some c \<Rightarrow> int r < share_refs h \<and> (if c_ack_needed c then int n < share_acks h else n = 0)))"

fun life_ok :: "life_op \<Rightarrow> msg_life \<Rightarrow> bool" where
  "life_ok (L_ref t) a =
     (t < length (lf_holders a) \<and> 1 \<le> h_refs (holder_of a t) \<and>
      (case h_cache (holder_of a t) of None \<Rightarrow> total_refs a < 32767 | Some c \<Rightarrow> cache_room (c_refs c + 1)))"
| "life_ok (L_unref t) a =
     (t < length (lf_holders a) \<and> 1 \<le> h_refs (holder_of a t) \<and>
      (case h_cache (holder_of a t) of None \<Rightarrow> True | Some c \<Rightarrow> cache_room (c_refs c - 1)))"
| "life_ok (L_add_ack t) a =
     (t < length (lf_holders a) \<and> 1 \<le> h_acks (holder_of a t) \<and>
      (case h_cache (holder_of a t) of None \<Rightarrow> total_acks a < 32767
       | Some c \<Rightarrow> c_ack_needed c \<and> cache_room (c_acks c + 1)))"
| "life_ok (L_ack t ack_type) a =
     (t < length (lf_holders a) \<and> 1 \<le> h_acks (holder_of a t) \<and>
      (case h_cache (holder_of a t) of None \<Rightarrow> True
       | Some c \<Rightarrow> c_ack_needed c \<and> cache_room (c_acks c - 1)))"
| "life_ok (L_pass t u r n) a =
     (t < length (lf_holders a) \<and> u < length (lf_holders a) \<and> t \<noteq> u \<and>
      life_ok_pass r n (holder_of a t))"
| "life_ok (L_track t) a =
     (t < length (lf_holders a) \<and> 1 \<le> h_refs (holder_of a t) \<and> \<not> lf_tracked a \<and>
      (case h_cache (holder_of a t) of None \<Rightarrow> total_refs a < 32767 \<and> total_acks a < 32767
       | Some c \<Rightarrow> c_ack_needed c \<and> 1 < share_refs (holder_of a t) \<and>
           cache_room (c_refs c + 1) \<and> cache_room (c_acks c + 1)))"
| "life_ok (L_start_producer t) a =
     (t < length (lf_holders a) \<and> 1 \<le> h_refs (holder_of a t) \<and> h_cache (holder_of a t) = None \<and>
      lf_acked a = [] \<and> total_refs a < 24576 \<and> total_acks a < 24576)"
| "life_ok (L_start_consumer t b) a =
     (t < length (lf_holders a) \<and> 1 \<le> h_refs (holder_of a t) \<and> h_cache (holder_of a t) = None \<and>
      (b \<longrightarrow> 1 \<le> h_acks (holder_of a t)))"
| "life_ok (L_stop t) a =
     (t < length (lf_holders a) \<and>
      (case h_cache (holder_of a t) of None \<Rightarrow> False
       | Some c \<Rightarrow> (c_ack_needed c \<longrightarrow> lf_tracked a) \<and>
           total_refs a + c_refs c < 32768 \<and> total_acks a + c_acks c < 32768))"

subsection \<open>Invariant of the specification\<close>

definition holder_inv :: "holder \<Rightarrow> bool" where
  "holder_inv h =
     (0 \<le> h_refs h \<and> 0 \<le> h_acks h \<and>
      (case h_cache h of None \<Rightarrow> True
       | Some c \<Rightarrow> 1 \<le> share_refs h \<and> cache_room (c_refs c) \<and> cache_room (c_acks c) \<and>
           (if c_ack_needed c then 1 \<le> share_acks h
            else c_acks c = 0 \<and> \<not> c_abort c \<and> \<not> c_suspend c)))"

definition life_inv :: "msg_life \<Rightarrow> bool" where
  "life_inv a =
     (list_all holder_inv (lf_holders a) \<and> total_refs a < 32768 \<and> total_acks a < 32768 \<and>
      (if lf_tracked a then length (lf_acked a) = (if total_acks a = 0 then 1 else 0)
       else lf_acked a = [] \<and> list_all (\<lambda>h. h_acks h = 0) (lf_holders a)))"

lemma share_holder:
  "holder_inv h \<Longrightarrow> 0 \<le> share_refs h" "holder_inv h \<Longrightarrow> 0 \<le> share_acks h"
  by (auto simp: holder_inv_def share_refs_def share_acks_def split: option.splits if_splits)

lemma sum_holders_update:
  "t < length hs \<Longrightarrow> sum_list (map f (hs[t := h])) = sum_list (map f hs) + f h - (f (hs ! t) :: int)"
  by (induction hs arbitrary: t) (auto split: nat.splits)

lemma member_le_sum_list:
  assumes "list_all P hs" and "\<And>h. P h \<Longrightarrow> 0 \<le> (f h :: int)" and "t < length hs"
  shows "f (hs ! t) \<le> sum_list (map f hs)" "0 \<le> sum_list (map f hs)"
proof -
  have n: "0 \<le> sum_list (map f hs)" if "list_all P hs" for hs
    by (rule sum_list_nonneg) (use that assms(2) in \<open>auto simp: list_all_iff\<close>)
  show "0 \<le> sum_list (map f hs)" by (rule n [OF assms(1)])
  have "hs = take t hs @ hs ! t # drop (Suc t) hs" using assms(3) by (rule id_take_nth_drop)
  then have "sum_list (map f hs) =
      sum_list (map f (take t hs)) + f (hs ! t) + sum_list (map f (drop (Suc t) hs))"
    by (metis map_append sum_list_append list.simps(9) sum_list.Cons add.assoc)
  moreover have "list_all P (take t hs)" "list_all P (drop (Suc t) hs)"
    using assms(1) by (auto simp: list_all_iff dest: in_set_takeD in_set_dropD)
  ultimately show "f (hs ! t) \<le> sum_list (map f hs)" using n by fastforce
qed

lemma totals_with_holder:
  assumes "t < length (lf_holders a)"
  shows "total_refs (with_holder t h a) = total_refs a + share_refs h - share_refs (holder_of a t)"
    "total_acks (with_holder t h a) = total_acks a + share_acks h - share_acks (holder_of a t)"
  using assms sum_holders_update [of t "lf_holders a"]
  by (simp_all add: total_refs_def total_acks_def with_holder_def source_refs_def)

lemma with_holder_simps [simp]:
  "lf_tracked (with_holder t h a) = lf_tracked a"
  "lf_abort (with_holder t h a) = lf_abort a"
  "lf_suspend (with_holder t h a) = lf_suspend a"
  "lf_acked (with_holder t h a) = lf_acked a"
  "lf_holders (with_holder t h a) = (lf_holders a)[t := h]"
  by (simp_all add: with_holder_def)

lemma life_invD:
  assumes "life_inv a" and "t < length (lf_holders a)"
  shows "holder_inv (holder_of a t)" "share_acks (holder_of a t) \<le> total_acks a" "0 \<le> total_acks a"
    "share_refs (holder_of a t) + source_refs a \<le> total_refs a" "0 \<le> total_refs a"
    "total_refs a < 32768" "total_acks a < 32768"
proof -
  have all: "list_all holder_inv (lf_holders a)" using assms(1) by (simp add: life_inv_def)
  note refs = member_le_sum_list [OF all share_holder(1) assms(2)]
    and acks = member_le_sum_list [OF all share_holder(2) assms(2)]
  show "holder_inv (holder_of a t)" using all assms(2) by (simp add: list_all_length)
  show "share_acks (holder_of a t) \<le> total_acks a" "0 \<le> total_acks a"
    using acks by (simp_all add: total_acks_def)
  show "share_refs (holder_of a t) + source_refs a \<le> total_refs a" "0 \<le> total_refs a"
    using refs by (simp_all add: total_refs_def source_refs_def)
  show "total_refs a < 32768" "total_acks a < 32768" using assms(1) by (simp_all add: life_inv_def)
qed

lemma share_take:
  "share_refs (take_refs n h) = (case h_cache h of None \<Rightarrow> share_refs h + n | Some c \<Rightarrow> share_refs h)"
  "share_acks (take_refs n h) = share_acks h"
  "share_acks (take_acks n h) = (case h_cache h of None \<Rightarrow> share_acks h + n | Some c \<Rightarrow> share_acks h)"
  "share_refs (take_acks n h) = share_refs h"
  "share_refs (take_for_source h) = (case h_cache h of None \<Rightarrow> share_refs h | Some c \<Rightarrow> share_refs h - 1)"
  "share_acks (take_for_source h) = share_acks h"
  "share_refs (give r k h) = share_refs h + r"
  "share_acks (give r k h) = share_acks h + k"
  by (simp_all add: share_refs_def share_acks_def take_refs_def take_acks_def take_for_source_def give_def
      split: option.splits)

lemma take_fields [simp]:
  "h_refs (take_refs n h) = h_refs h + n" "h_acks (take_refs n h) = h_acks h"
  "h_refs (take_acks n h) = h_refs h" "h_acks (take_acks n h) = h_acks h + n"
  "h_refs (take_for_source h) = h_refs h" "h_acks (take_for_source h) = h_acks h"
  "h_refs (give r k h) = h_refs h + r" "h_acks (give r k h) = h_acks h + k"
  "h_cache (give r k h) = h_cache h"
  "h_cache (take_refs n h) = map_option (\<lambda>c. c\<lparr>c_refs := c_refs c + n\<rparr>) (h_cache h)"
  "h_cache (take_acks n h) = map_option (\<lambda>c. c\<lparr>c_acks := c_acks c + n\<rparr>) (h_cache h)"
  "h_cache (take_for_source h) = map_option (\<lambda>c. c\<lparr>c_refs := c_refs c + 1\<rparr>) (h_cache h)"
  by (simp_all add: take_refs_def take_acks_def take_for_source_def give_def)

text \<open>Changing one holder keeps the invariant when the counts and the holder are in order.\<close>

lemma life_inv_with_holder:
  assumes "life_inv a" and "t < length (lf_holders a)" and "holder_inv h"
    and "total_refs a + share_refs h - share_refs (holder_of a t) < 32768"
    and "total_acks a + share_acks h - share_acks (holder_of a t) < 32768"
    and "lf_tracked a \<Longrightarrow> (total_acks a + share_acks h - share_acks (holder_of a t) = 0) = (total_acks a = 0)"
    and "\<not> lf_tracked a \<Longrightarrow> h_acks h = 0"
  shows "life_inv (with_holder t h a)"
proof -
  have "list_all P ((lf_holders a)[t := h])" if "list_all P (lf_holders a)" "P h" for P
    using that set_update_subset_insert [of "lf_holders a" t h] by (auto simp: list_all_iff)
  then show ?thesis
    using assms by (auto simp: life_inv_def totals_with_holder)
qed

lemma settle_simps [simp]:
  "lf_holders (settle ab su a) = lf_holders a"
  "lf_tracked (settle ab su a) = lf_tracked a"
  "lf_abort (settle ab su a) = (lf_abort a \<or> ab)"
  "lf_suspend (settle ab su a) = (lf_suspend a \<or> su)"
  "total_acks (settle ab su a) = total_acks a"
  by (simp_all add: settle_def Let_def total_acks_def)

lemma settle_acked:
  "lf_acked (settle ab su a) = (if total_acks a = 0 then lf_acked a @
     [if su then AT_SUSPENDED else if ab then AT_ABORTED else flags_type (lf_suspend a) (lf_abort a)]
     else lf_acked a)"
  by (simp add: settle_def Let_def)

lemma settle_refs:
  "total_refs (settle ab su a) = total_refs a - (if total_acks a = 0 then source_refs a else 0)"
  by (simp add: total_refs_def source_refs_def settle_acked)

text \<open>Giving the last acknowledgement: the invariant holds up to the pending callback.\<close>

lemma life_inv_settle:
  assumes "life_inv a" and "t < length (lf_holders a)" and "holder_inv h" and "lf_tracked a" and "lf_acked a = []"
    and "total_refs a + share_refs h - share_refs (holder_of a t) < 32768"
    and "total_acks a + share_acks h - share_acks (holder_of a t) < 32768"
  shows "life_inv (settle ab su (with_holder t h a))"
proof -
  have "list_all holder_inv ((lf_holders a)[t := h])"
    using assms(1,3) set_update_subset_insert [of "lf_holders a" t h] by (auto simp: list_all_iff life_inv_def)
  moreover have "total_refs (settle ab su (with_holder t h a)) < 32768"
    using assms(2,6) by (simp add: settle_refs totals_with_holder) (simp add: source_refs_def)
  ultimately show ?thesis
    using assms by (simp add: life_inv_def settle_acked) (simp add: totals_with_holder)
qed

lemma acked_iff:
  assumes "life_inv a" and "lf_tracked a"
  shows "lf_acked a = [] \<longleftrightarrow> total_acks a \<noteq> 0"
  using assms by (auto simp: life_inv_def split: if_splits)

lemma acks_tracked:
  assumes "life_inv a" and "t < length (lf_holders a)" and "1 \<le> h_acks (holder_of a t)"
  shows "lf_tracked a"
  using assms by (fastforce simp: life_inv_def list_all_length split: if_splits)

lemma pending_acks:
  assumes "life_inv a" and "t < length (lf_holders a)"
    and "1 \<le> h_acks (holder_of a t) \<or> (\<exists>c. h_cache (holder_of a t) = Some c \<and> c_ack_needed c)"
  shows "1 \<le> total_acks a"
proof -
  note inv = life_invD [OF assms(1,2)]
  have "1 \<le> share_acks (holder_of a t)"
    using inv(1) assms(3) by (auto simp: holder_inv_def share_acks_def split: option.splits if_splits)
  then show ?thesis using inv(2) by linarith
qed

lemma holder_inv_take:
  assumes "holder_inv h"
  shows "0 \<le> h_refs h + n \<Longrightarrow> (\<And>c. h_cache h = Some c \<Longrightarrow> cache_room (c_refs c + n)) \<Longrightarrow> holder_inv (take_refs n h)"
    "0 \<le> h_acks h + n \<Longrightarrow> (\<And>c. h_cache h = Some c \<Longrightarrow> c_ack_needed c \<and> cache_room (c_acks c + n)) \<Longrightarrow>
       holder_inv (take_acks n h)"
    "(\<And>c. h_cache h = Some c \<Longrightarrow> 1 < share_refs h \<and> cache_room (c_refs c + 1)) \<Longrightarrow>
       holder_inv (take_for_source h)"
  using assms by (auto simp: holder_inv_def share_take split: option.splits)

lemma life_inv_ref:
  assumes "life_inv a" and "life_ok (L_ref t) a \<and> n = 1 \<or> life_ok (L_unref t) a \<and> n = - 1"
  shows "life_inv (with_holder t (take_refs n (holder_of a t)) a)"
proof -
  have t: "t < length (lf_holders a)" using assms(2) by auto
  note inv = life_invD [OF assms(1) t]
  have "holder_inv (take_refs n (holder_of a t))"
    using assms(2) by (intro holder_inv_take inv) (auto split: option.splits)
  moreover have "h_acks (holder_of a t) = 0" if "\<not> lf_tracked a"
    using that assms(1) t by (auto simp: life_inv_def list_all_length)
  ultimately show ?thesis
    using assms inv by (intro life_inv_with_holder t) (auto simp: share_take split: option.splits)
qed

lemma life_inv_add_ack:
  assumes "life_inv a" and "life_ok (L_add_ack t) a"
  shows "life_inv (life_step (L_add_ack t) a)"
proof -
  have t: "t < length (lf_holders a)" and 1: "1 \<le> h_acks (holder_of a t)" using assms(2) by auto
  note inv = life_invD [OF assms(1) t]
  have "holder_inv (take_acks 1 (holder_of a t))"
    using assms(2) by (intro holder_inv_take inv) (auto split: option.splits)
  then show ?thesis
    using assms inv acks_tracked [OF assms(1) t 1] pending_acks [OF assms(1) t] 1
    by (auto intro!: life_inv_with_holder simp: share_take split: option.splits)
qed

lemma life_inv_track:
  assumes "life_inv a" and "life_ok (L_track t) a"
  shows "life_inv (life_step (L_track t) a)"
proof -
  have t: "t < length (lf_holders a)" using assms(2) by auto
  note inv = life_invD [OF assms(1) t]
  let ?h = "take_acks 1 (take_for_source (holder_of a t))"
  have h: "holder_inv (take_for_source (holder_of a t))"
    using assms(2) by (intro holder_inv_take inv) (auto split: option.splits)
  have "holder_inv ?h"
    using assms(2) h by (intro holder_inv_take h) (auto simp: holder_inv_def split: option.splits)
  then have all: "list_all holder_inv ((lf_holders a)[t := ?h])"
    using assms(1) set_update_subset_insert [of "lf_holders a" t ?h] by (auto simp: list_all_iff life_inv_def)
  let ?a = "with_holder t ?h a"
  have 1: "total_refs (?a\<lparr>lf_tracked := True\<rparr>) = total_refs ?a + 1" "total_acks (?a\<lparr>lf_tracked := True\<rparr>) = total_acks ?a"
    using assms by (simp_all add: total_refs_def source_refs_def total_acks_def life_inv_def)
  have "total_refs ?a < 32767" "1 \<le> total_acks ?a" "total_acks ?a < 32768"
    using assms(2) inv pending_acks [OF assms(1) t] t
    by (auto simp: totals_with_holder share_take split: option.splits)
  then show ?thesis
    using assms all 1 by (simp add: life_inv_def)
qed

lemma life_inv_ack:
  assumes "life_inv a" and "life_ok (L_ack t ty) a"
  shows "life_inv (life_step (L_ack t ty) a)"
proof -
  have t: "t < length (lf_holders a)" and 1: "1 \<le> h_acks (holder_of a t)" using assms(2) by auto
  note inv = life_invD [OF assms(1) t]
  note tr = acks_tracked [OF assms(1) t 1]
  have pend: "1 \<le> total_acks a" using pending_acks [OF assms(1) t] 1 by simp
  then have un: "lf_acked a = []" using acked_iff [OF assms(1) tr] by simp
  have h: "holder_inv (take_acks (- 1) (holder_of a t))"
    using assms(2) by (intro holder_inv_take inv) (auto split: option.splits)
  show ?thesis
  proof (cases "h_cache (holder_of a t)")
    case None
    then show ?thesis
      using life_inv_settle [OF assms(1) t h tr un] inv by (simp add: Let_def share_take)
  next
    case (Some c)
    let ?h = "(take_acks (- 1) (holder_of a t))\<lparr>h_cache := Some (c\<lparr>c_acks := c_acks c - 1,
        c_abort := c_abort c \<or> ty = AT_ABORTED, c_suspend := c_suspend c \<or> ty = AT_SUSPENDED\<rparr>)\<rparr>"
    have "holder_inv ?h" "share_refs ?h = share_refs (holder_of a t)" "share_acks ?h = share_acks (holder_of a t)"
      using h Some assms(2) by (auto simp: holder_inv_def share_refs_def share_acks_def split: if_splits)
    then have "life_inv (with_holder t ?h a)"
      using inv tr by (intro life_inv_with_holder assms(1) t) auto
    then show ?thesis using Some by (simp add: Let_def)
  qed
qed

lemma life_inv_pass:
  assumes "life_inv a" and "life_ok (L_pass t u r n) a"
  shows "life_inv (life_step (L_pass t u r n) a)"
proof -
  have t: "t < length (lf_holders a)" and u: "u < length (lf_holders a)" "t \<noteq> u"
    and ok: "life_ok_pass r n (holder_of a t)" using assms(2) by auto
  note inv = life_invD [OF assms(1) t] and invu = life_invD [OF assms(1) u(1)]
  let ?t = "give (- int r) (- int n) (holder_of a t)" and ?u = "give (int r) (int n) (holder_of a u)"
  let ?a = "with_holder u ?u (with_holder t ?t a)"
  have "holder_inv ?t" "holder_inv ?u"
    using inv(1) invu(1) ok by (auto simp: holder_inv_def life_ok_pass_def share_take split: option.splits if_splits)
  then have "list_all holder_inv (lf_holders ?a)"
    using assms(1) set_update_subset_insert [of "(lf_holders a)[t := ?t]" u ?u]
      set_update_subset_insert [of "lf_holders a" t ?t] by (auto simp: list_all_iff life_inv_def)
  moreover have "total_refs ?a = total_refs a" "total_acks ?a = total_acks a"
    using t u by (simp_all add: totals_with_holder share_take)
  moreover have "list_all (\<lambda>h. h_acks h = 0) (lf_holders ?a)" if "list_all (\<lambda>h. h_acks h = 0) (lf_holders a)"
  proof -
    have "n = 0" using that ok t by (auto simp: list_all_length life_ok_pass_def)
    then show ?thesis using that t u
      by (auto simp: list_all_length nth_list_update)
  qed
  ultimately have "life_inv ?a"
    using assms(1) by (simp add: life_inv_def)
  then show ?thesis using u by (simp add: Let_def)
qed

lemma life_inv_start_producer:
  assumes "life_inv a" and "life_ok (L_start_producer t) a"
  shows "life_inv (life_step (L_start_producer t) a)"
proof -
  have t: "t < length (lf_holders a)" using assms(2) by auto
  note inv = life_invD [OF assms(1) t]
  have "0 < total_acks a" if "lf_tracked a" using acked_iff [OF assms(1) that] assms(2) inv(3) by simp
  moreover have "h_acks (holder_of a t) = 0" if "\<not> lf_tracked a"
    using that assms(1) t by (auto simp: life_inv_def list_all_length)
  ultimately show ?thesis
    using assms inv unfolding life_step.simps
    by (intro life_inv_with_holder t) (auto simp: holder_inv_def share_refs_def share_acks_def cache_room_def)
qed

lemma life_inv_start_consumer:
  assumes "life_inv a" and "life_ok (L_start_consumer t b) a"
  shows "life_inv (life_step (L_start_consumer t b) a)"
proof -
  have t: "t < length (lf_holders a)" using assms(2) by auto
  note inv = life_invD [OF assms(1) t]
  have "h_acks (holder_of a t) = 0" if "\<not> lf_tracked a"
    using that assms(1) t by (auto simp: life_inv_def list_all_length)
  then show ?thesis
    using assms inv unfolding life_step.simps
    by (intro life_inv_with_holder t) (auto simp: holder_inv_def share_refs_def share_acks_def cache_room_def)
qed

lemma life_inv_stop:
  assumes "life_inv a" and "life_ok (L_stop t) a"
  shows "life_inv (life_step (L_stop t) a)"
proof -
  obtain c where t: "t < length (lf_holders a)" and c: "h_cache (holder_of a t) = Some c"
    and ok: "c_ack_needed c \<longrightarrow> lf_tracked a" "total_refs a + c_refs c < 32768" "total_acks a + c_acks c < 32768"
    using assms(2) by (auto split: option.splits)
  note inv = life_invD [OF assms(1) t]
  let ?h = "(holder_of a t)\<lparr>h_cache := None\<rparr>"
  have h: "holder_inv ?h" using inv(1) by (simp add: holder_inv_def)
  have sh: "share_refs ?h = share_refs (holder_of a t) + c_refs c" "share_acks ?h = share_acks (holder_of a t) + c_acks c"
    using c by (simp_all add: share_refs_def share_acks_def)
  show ?thesis
  proof (cases "c_ack_needed c")
    case True
    then have "lf_tracked a" "1 \<le> total_acks a" using ok pending_acks [OF assms(1) t] c by auto
    then show ?thesis
      using life_inv_settle [OF assms(1) t h] ok sh True c acked_iff [OF assms(1)] by (simp add: Let_def)
  next
    case False
    then have 0: "c_acks c = 0" using inv(1) c by (simp add: holder_inv_def)
    have "h_acks (holder_of a t) = 0" if "\<not> lf_tracked a"
      using that assms(1) t by (auto simp: life_inv_def list_all_length)
    then have "life_inv (with_holder t ?h a)"
      using inv sh ok 0 by (intro life_inv_with_holder assms(1) t h) auto
    then show ?thesis using False c by (simp add: Let_def)
  qed
qed

subsection \<open>The code on one message\<close>

definition bump :: "int \<Rightarrow> int \<Rightarrow> bool \<Rightarrow> bool \<Rightarrow> log_message \<Rightarrow> log_message" where
  "bump r n ab su m =
     m\<lparr>lm_value := updated_value (lm_value m) (of_int r) (of_int n) (of_flag ab) (of_flag su)\<rparr>"

lemma bump_simps [simp]:
  "lm_original (bump r n ab su m) = lm_original m"
  "lm_ack_func (bump r n ab su m) = lm_ack_func m"
  "abort_flag (bump r n ab su m) = (abort_flag m \<or> ab)"
  "suspend_flag (bump r n ab su m) = (suspend_flag m \<or> su)"
  using updated_counts(3,4) [OF bump_def [of r n ab su m]] by (simp_all add: bump_def)

lemma ack_func_counts [simp]:
  "msg_refs (m\<lparr>lm_ack_func := x\<rparr>) = msg_refs m" "msg_acks (m\<lparr>lm_ack_func := x\<rparr>) = msg_acks m"
  "abort_flag (m\<lparr>lm_ack_func := x\<rparr>) = abort_flag m" "suspend_flag (m\<lparr>lm_ack_func := x\<rparr>) = suspend_flag m"
  by (simp_all add: msg_refs_def msg_acks_def abort_flag_def suspend_flag_def)

lemmas bump_counts = updated_counts(1,2) [OF bump_def]

lemma put_simps [simp]:
  "ms_heap (put_msg p m s) = (ms_heap s)(p \<mapsto> m)"
  "ms_tls (put_msg p m s) = ms_tls s"
  "ms_acked (put_msg p m s) = ms_acked s"
  "ms_heap (put_tls t b s) = ms_heap s"
  "ms_tls (put_tls t b s) = (ms_tls s)(t := b)"
  "ms_acked (put_tls t b s) = ms_acked s"
  "ms_heap (cache_refs t n s) = ms_heap s"
  "ms_acked (cache_refs t n s) = ms_acked s"
  by (simp_all add: put_msg_def put_tls_def cache_refs_def)

lemma update_bump:
  assumes "ms_heap s p = Some m" and "r' = of_int r" and "n' = of_int n"
  shows "log_msg_update_ack_and_ref_and_abort_and_suspended p r' n' ab su s =
    Some (lm_value m, put_msg p (bump r n ab su m) s)"
  using assms by (simp add: log_msg_update_ack_and_ref_and_abort_and_suspended_def bump_def)

lemma counts_of_word:
  "VALUE_TO_REF (lm_value m) = of_int (msg_refs m)" "VALUE_TO_ACK (lm_value m) = of_int (msg_acks m)"
  by (simp_all add: msg_refs_def msg_acks_def)

lemma of_int_eq_u32:
  assumes "- 16384 \<le> x" "x < 32768" "- 16384 \<le> y" "y < 32768"
  shows "(of_int x :: u32) = of_int y \<longleftrightarrow> x = y"
proof
  assume "(of_int x :: u32) = of_int y"
  then have "sint (of_int x :: u32) = sint (of_int y :: u32)" by simp
  then show "x = y" using assms by (simp add: signed_of_int signed_take_bit_int_eq_self)
qed simp

lemma count_tests:
  "1 \<le> VALUE_TO_REF (lm_value m) \<longleftrightarrow> 1 \<le> msg_refs m"
  "VALUE_TO_REF (lm_value m) = 1 \<longleftrightarrow> msg_refs m = 1"
  "VALUE_TO_ACK (lm_value m) = 1 \<longleftrightarrow> msg_acks m = 1"
  "cache_room k \<Longrightarrow> VALUE_TO_ACK (lm_value m) = - of_int k \<longleftrightarrow> msg_acks m = - k"
  "- 8193 \<le> k \<Longrightarrow> k \<le> 8190 \<Longrightarrow> VALUE_TO_REF (lm_value m) = - of_int k \<longleftrightarrow> msg_refs m = - k"
proof -
  show "1 \<le> VALUE_TO_REF (lm_value m) \<longleftrightarrow> 1 \<le> msg_refs m"
    by (simp add: msg_refs_def word_le_def)
  show "VALUE_TO_REF (lm_value m) = 1 \<longleftrightarrow> msg_refs m = 1"
    using of_int_eq_u32 [of "msg_refs m" 1] count_bounds [of m] by (simp add: counts_of_word)
  show "VALUE_TO_ACK (lm_value m) = 1 \<longleftrightarrow> msg_acks m = 1"
    using of_int_eq_u32 [of "msg_acks m" 1] count_bounds [of m] by (simp add: counts_of_word)
  show "VALUE_TO_ACK (lm_value m) = - of_int k \<longleftrightarrow> msg_acks m = - k" if "cache_room k"
    using of_int_eq_u32 [of "msg_acks m" "- k"] count_bounds [of m] that
    by (simp add: counts_of_word cache_room_def)
  show "VALUE_TO_REF (lm_value m) = - of_int k \<longleftrightarrow> msg_refs m = - k" if "- 8193 \<le> k" "k \<le> 8190"
    using of_int_eq_u32 [of "msg_refs m" "- k"] count_bounds [of m] that
    by (simp add: counts_of_word cache_room_def)
qed

lemma in_bias_range_of_int: "cache_room k \<Longrightarrow> in_bias_range (of_int k)"
  by (simp add: in_bias_range_def LOGMSG_REFCACHE_BIAS_def cache_room_def signed_of_int
      signed_take_bit_int_eq_self)

lemma ref_uncached:
  assumes "ms_heap s p = Some m" and "\<not> cached t p s" and "1 \<le> msg_refs m"
  shows "log_msg_ref t p s = Some (put_msg p (bump 1 0 False False m) s)"
  using assms
  by (simp add: log_msg_ref_def log_msg_update_ack_and_ref_def update_bump [of s p m _ 1 _ 0] count_tests)

lemma unref_uncached:
  assumes "ms_heap s p = Some m" and "\<not> cached t p s" and "1 \<le> msg_refs m" and "lm_original m = None"
  obtains s' where "log_msg_unref t p s = Some s'" "ms_tls s' = ms_tls s" "ms_acked s' = ms_acked s"
    "ms_heap s' p = (if msg_refs m = 1 then None else Some (bump (- 1) 0 False False m))"
proof -
  have "log_msg_update_ack_and_ref p (- 1) 0 s = Some (lm_value m, put_msg p (bump (- 1) 0 False False m) s)"
    using assms(1) by (simp add: log_msg_update_ack_and_ref_def update_bump [of s p m _ "- 1" _ 0])
  then have u: "log_msg_unref t p s = (if msg_refs m = 1
      then log_msg_free t p (put_msg p (bump (- 1) 0 False False m) s)
      else Some (put_msg p (bump (- 1) 0 False False m) s))"
    using assms by (simp add: log_msg_unref_unfold [of t p s] count_tests)
  let ?m = "bump (- 1) 0 False False m"
  show thesis
  proof (cases "msg_refs m = 1")
    case True
    then have "log_msg_unref t p s = Some (drop_msg p (release_parts ?m (put_msg p ?m s)))"
      by (simp add: u log_msg_free_def assms(4))
    then show thesis by (rule that) (simp_all add: True drop_msg_def release_parts_def)
  next
    case False
    then have "log_msg_unref t p s = Some (put_msg p ?m s)" by (simp add: u)
    then show thesis by (rule that) (simp_all add: False)
  qed
qed

subsection \<open>The simulation\<close>

definition tls_sim :: "nat \<Rightarrow> tls_block \<Rightarrow> holder \<Rightarrow> bool" where
  "tls_sim p b h = (case h_cache h of None \<Rightarrow> logmsg_current b = None
     | Some c \<Rightarrow> logmsg_current b = Some p \<and> logmsg_cached_ack_needed b = c_ack_needed c \<and>
         logmsg_cached_refs b = of_int (c_refs c) \<and> logmsg_cached_acks b = of_int (c_acks c) \<and>
         logmsg_cached_abort b = c_abort c \<and> logmsg_cached_suspend b = c_suspend c)"

definition msg_sim :: "log_message \<Rightarrow> msg_life \<Rightarrow> bool" where
  "msg_sim m a =
     (lm_original m = None \<and> lm_ack_func m = (if lf_tracked a then Some Log_source_msg_ack else None) \<and>
      msg_refs m = total_refs a \<and> msg_acks m = total_acks a \<and>
      abort_flag m = lf_abort a \<and> suspend_flag m = lf_suspend a)"

definition heap_sim :: "log_message option \<Rightarrow> msg_life \<Rightarrow> bool" where
  "heap_sim x a = (case x of None \<Rightarrow> total_refs a = 0 | Some m \<Rightarrow> total_refs a \<noteq> 0 \<and> msg_sim m a)"

definition life_sim :: "nat \<Rightarrow> msg_state \<Rightarrow> msg_life \<Rightarrow> bool" where
  "life_sim p s a =
     (life_inv a \<and> (\<forall>t < length (lf_holders a). tls_sim p (ms_tls s t) (holder_of a t)) \<and>
      ms_acked s = map (Pair p) (lf_acked a) \<and> heap_sim (ms_heap s p) a)"

lemma life_simD:
  assumes "life_sim p s a" and "t < length (lf_holders a)"
  shows "life_inv a" "tls_sim p (ms_tls s t) (holder_of a t)" "ms_acked s = map (Pair p) (lf_acked a)"
    "heap_sim (ms_heap s p) a"
  using assms by (simp_all add: life_sim_def)

lemma tls_sim_update:
  assumes "life_sim p s a" and "tls_sim p b h" and "u < length (lf_holders a)"
  shows "tls_sim p (((ms_tls s)(t := b)) u) ((lf_holders a)[t := h] ! u)"
  using assms by (cases "t = u") (simp_all add: life_sim_def)

lemma alive:
  assumes "life_sim p s a" and "1 \<le> total_refs a"
  obtains m where "ms_heap s p = Some m" "msg_sim m a"
  using assms by (auto simp: life_sim_def heap_sim_def split: option.splits)

lemma held_alive:
  assumes "life_sim p s a" and "t < length (lf_holders a)"
    and "1 \<le> h_refs (holder_of a t) \<or> h_cache (holder_of a t) \<noteq> None \<or> 1 \<le> h_acks (holder_of a t)"
  shows "1 \<le> total_refs a"
proof -
  note inv = life_invD [OF life_simD(1) [OF assms(1,2)] assms(2)]
  have "source_refs a = 1" if "1 \<le> h_acks (holder_of a t)"
    using acks_tracked [OF life_simD(1) [OF assms(1,2)] assms(2) that] that
      acked_iff [OF life_simD(1) [OF assms(1,2)]] pending_acks [OF life_simD(1) [OF assms(1,2)] assms(2)]
    by (simp add: source_refs_def)
  moreover have "0 \<le> source_refs a" by (simp add: source_refs_def)
  ultimately show ?thesis
    using inv(1,4) share_holder [OF inv(1)] assms(3)
    by (auto simp: holder_inv_def share_refs_def split: option.splits)
qed

text \<open>A cached operation changes the thread's block only.\<close>

lemma sim_cached_step:
  assumes "life_sim p s a" and "t < length (lf_holders a)" and "life_inv (with_holder t h a)"
    and "tls_sim p b h" and "share_refs h = share_refs (holder_of a t)" and "share_acks h = share_acks (holder_of a t)"
  shows "life_sim p (put_tls t b s) (with_holder t h a)"
proof -
  have "total_refs (with_holder t h a) = total_refs a" "total_acks (with_holder t h a) = total_acks a"
    using assms by (simp_all add: totals_with_holder)
  then have "heap_sim (ms_heap s p) (with_holder t h a)"
    using life_simD(4) [OF assms(1,2)] by (simp add: heap_sim_def msg_sim_def split: option.splits)
  then show ?thesis
    using tls_sim_update [OF assms(1,4)] life_simD(3) [OF assms(1,2)] assms(3)
    by (simp add: life_sim_def)
qed

text \<open>An operation on the shared counter.\<close>

lemma sim_shared_step:
  assumes "life_sim p s a" and "t < length (lf_holders a)" and "life_inv (with_holder t h a)"
    and "tls_sim p (ms_tls s t) h" and "ms_tls s' = ms_tls s" and "ms_acked s' = ms_acked s"
    and "heap_sim (ms_heap s' p) (with_holder t h a)"
  shows "life_sim p s' (with_holder t h a)"
proof -
  have "ms_tls s = (ms_tls s)(t := ms_tls s t)" by simp
  then show ?thesis
    using tls_sim_update [OF assms(1,4)] life_simD(3) [OF assms(1,2)] assms(3,5-7)
    by (metis life_sim_def length_list_update with_holder_simps(4,5))
qed

lemma sim_ref:
  assumes "life_sim p s a" and "life_ok (L_ref t) a"
  shows "\<exists>s'. log_msg_ref t p s = Some s' \<and> life_sim p s' (life_step (L_ref t) a)"
proof -
  have t: "t < length (lf_holders a)" and 1: "1 \<le> h_refs (holder_of a t)" using assms(2) by auto
  note sim = life_simD [OF assms(1) t] and tot = totals_with_holder [OF t]
  have inv: "life_inv (with_holder t (take_refs 1 (holder_of a t)) a)"
    using life_inv_ref [OF sim(1)] assms(2) by blast
  show ?thesis
  proof (cases "h_cache (holder_of a t)")
    case None
    obtain m where m: "ms_heap s p = Some m" "msg_sim m a"
      using alive [OF assms(1) held_alive [OF assms(1) t]] 1 by auto
    have pos: "1 \<le> total_refs a" using held_alive [OF assms(1) t] 1 by simp
    have un: "\<not> cached t p s" using sim(2) None by (simp add: tls_sim_def)
    have r: "log_msg_ref t p s = Some (put_msg p (bump 1 0 False False m) s)"
      using ref_uncached [OF m(1) un] pos m(2) by (simp add: msg_sim_def)
    have "msg_sim (bump 1 0 False False m) (with_holder t (take_refs 1 (holder_of a t)) a)"
      using m(2) pos assms(2) None life_invD(3,7) [OF sim(1) t]
      by (simp add: msg_sim_def bump_counts tot share_take)
    then show ?thesis
      using r sim_shared_step [OF assms(1) t inv, of "put_msg p (bump 1 0 False False m) s"] sim(2) None pos
      by (simp add: heap_sim_def tot share_take tls_sim_def)
  next
    case (Some c)
    then have "cached t p s" using sim(2) by (simp add: tls_sim_def)
    then show ?thesis
      using sim_cached_step [OF assms(1) t inv] sim(2) Some
      by (simp add: log_msg_ref_def cache_refs_def share_take tls_sim_def)
  qed
qed

lemma sim_unref:
  assumes "life_sim p s a" and "life_ok (L_unref t) a"
  shows "\<exists>s'. log_msg_unref t p s = Some s' \<and> life_sim p s' (life_step (L_unref t) a)"
proof -
  have t: "t < length (lf_holders a)" and 1: "1 \<le> h_refs (holder_of a t)" using assms(2) by auto
  note sim = life_simD [OF assms(1) t] and tot = totals_with_holder [OF t]
  have inv: "life_inv (with_holder t (take_refs (- 1) (holder_of a t)) a)"
    using life_inv_ref [OF sim(1)] assms(2) by blast
  show ?thesis
  proof (cases "h_cache (holder_of a t)")
    case None
    obtain m where m: "ms_heap s p = Some m" "msg_sim m a"
      using alive [OF assms(1) held_alive [OF assms(1) t]] 1 by auto
    have pos: "1 \<le> total_refs a" using held_alive [OF assms(1) t] 1 by simp
    have un: "\<not> cached t p s" using sim(2) None by (simp add: tls_sim_def)
    have "1 \<le> msg_refs m" "lm_original m = None" using pos m(2) by (simp_all add: msg_sim_def)
    then obtain s' where s': "log_msg_unref t p s = Some s'" "ms_tls s' = ms_tls s" "ms_acked s' = ms_acked s"
      "ms_heap s' p = (if msg_refs m = 1 then None else Some (bump (- 1) 0 False False m))"
      by (rule unref_uncached [OF m(1) un])
    have "msg_sim (bump (- 1) 0 False False m) (with_holder t (take_refs (- 1) (holder_of a t)) a)"
      using m(2) pos None life_invD(3,6,7) [OF sim(1) t]
      by (simp add: msg_sim_def bump_counts tot share_take)
    then have "heap_sim (ms_heap s' p) (with_holder t (take_refs (- 1) (holder_of a t)) a)"
      using m(2) None s'(4) by (simp add: heap_sim_def tot share_take msg_sim_def)
    then show ?thesis
      using s' sim_shared_step [OF assms(1) t inv _ s'(2,3)] sim(2) None by (simp add: tls_sim_def)
  next
    case (Some c)
    then have "cached t p s" using sim(2) by (simp add: tls_sim_def)
    then show ?thesis
      using sim_cached_step [OF assms(1) t inv] sim(2) Some
      by (simp add: log_msg_unref_unfold [of t p s] cache_refs_def share_take tls_sim_def)
  qed
qed

lemma sim_add_ack:
  assumes "life_sim p s a" and "life_ok (L_add_ack t) a"
  shows "\<exists>s'. log_msg_add_ack t p ack_path s = Some s' \<and> life_sim p s' (life_step (L_add_ack t) a)"
proof -
  have t: "t < length (lf_holders a)" and 1: "1 \<le> h_acks (holder_of a t)" using assms(2) by auto
  note sim = life_simD [OF assms(1) t] and tot = totals_with_holder [OF t]
  have inv: "life_inv (with_holder t (take_acks 1 (holder_of a t)) a)"
    using life_inv_add_ack [OF sim(1) assms(2)] by simp
  show ?thesis
  proof (cases "h_cache (holder_of a t)")
    case None
    obtain m where m: "ms_heap s p = Some m" "msg_sim m a"
      using alive [OF assms(1) held_alive [OF assms(1) t]] 1 by auto
    have pos: "1 \<le> total_refs a" using held_alive [OF assms(1) t] 1 by simp
    have r: "log_msg_add_ack t p ack_path s = Some (put_msg p (bump 0 1 False False m) s)"
      using m(1) None sim(2)
      by (simp add: log_msg_add_ack_def ack_path_def log_msg_update_ack_and_ref_def
          update_bump [of s p m _ 0 _ 1] tls_sim_def)
    have "msg_sim (bump 0 1 False False m) (with_holder t (take_acks 1 (holder_of a t)) a)"
      using m(2) pos assms(2) None life_invD(3,6,7) [OF sim(1) t]
      by (simp add: msg_sim_def bump_counts tot share_take)
    then show ?thesis
      using r sim_shared_step [OF assms(1) t inv, of "put_msg p (bump 0 1 False False m) s"] sim(2) None pos
      by (simp add: heap_sim_def tot share_take tls_sim_def)
  next
    case (Some c)
    then have "cached t p s" using sim(2) by (simp add: tls_sim_def)
    then show ?thesis
      using sim_cached_step [OF assms(1) t inv] sim(2) Some
      by (simp add: log_msg_add_ack_def ack_path_def share_take tls_sim_def)
  qed
qed

lemma sim_start_consumer:
  assumes "life_sim p s a" and "life_ok (L_start_consumer t b) a"
  shows "\<exists>s'. life_exec p (L_start_consumer t b) s = Some s' \<and> life_sim p s' (life_step (L_start_consumer t b) a)"
proof -
  have t: "t < length (lf_holders a)" and n: "h_cache (holder_of a t) = None" using assms(2) by auto
  note sim = life_simD [OF assms(1) t]
  have "logmsg_current (ms_tls s t) = None" using sim(2) n by (simp add: tls_sim_def)
  then show ?thesis
    using sim_cached_step [OF assms(1) t life_inv_start_consumer [OF sim(1) assms(2), simplified]] n
    by (simp add: log_msg_refcache_start_consumer_def tls_sim_def share_refs_def share_acks_def ack_path_def)
qed

lemma flag_bits:
  "bit (VALUE_TO_ABORT x) 0 = bit x 30" "bit (VALUE_TO_SUSPEND x) 0 = bit x 31"
  unfolding value_fields by (simp_all only: bit_take_bit_iff bit_drop_bit_eq o_def) simp_all

lemma producer_value:
  assumes v: "v = (lm_value m AND NOT LOGMSG_REFCACHE_REF_MASK) +
      REF_TO_VALUE (VALUE_TO_REF (lm_value m) + LOGMSG_REFCACHE_BIAS)"
  shows "(v AND NOT LOGMSG_REFCACHE_ACK_MASK) + ACK_TO_VALUE (VALUE_TO_ACK v + LOGMSG_REFCACHE_BIAS) =
    lm_value (bump 8192 8192 False False m)"
proof -
  have b: "bit v n = (if n < 15 then bit (VALUE_TO_REF (lm_value m) + LOGMSG_REFCACHE_BIAS) n else bit (lm_value m) n)" for n
    unfolding v REF_TO_VALUE_def bit_insert_field mask_bits by simp
  have ack: "VALUE_TO_ACK v = VALUE_TO_ACK (lm_value m)"
    unfolding value_fields(2) by (rule bit_word_eqI, simp only: bit_take_bit_iff bit_drop_bit_eq o_def b) auto
  have u: "lm_value (bump 8192 8192 False False m) =
      updated_value (lm_value m) LOGMSG_REFCACHE_BIAS LOGMSG_REFCACHE_BIAS 0 0"
    by (simp add: bump_def of_flag_def LOGMSG_REFCACHE_BIAS_def)
  show ?thesis
  proof (rule bit_word_eqI)
    fix n assume "n < LENGTH(32)"
    then consider "n < 15" | "15 \<le> n" "n < 30" | "n = 30" | "n = 31" by fastforce
    then show "bit ((v AND NOT LOGMSG_REFCACHE_ACK_MASK) + ACK_TO_VALUE (VALUE_TO_ACK v + LOGMSG_REFCACHE_BIAS)) n =
        bit (lm_value (bump 8192 8192 False False m)) n"
      unfolding u ACK_TO_VALUE_def bit_insert_field mask_bits bit_updated_value ack
      by cases (simp_all add: b bit_or_iff flag_bits del: bit_0)
  qed
qed

lemma sim_holder_step:
  assumes "life_sim p s a" and "life_inv a'" and "lf_holders a' = (lf_holders a)[t := h]" and "tls_sim p b h"
    and "ms_tls s' = (ms_tls s)(t := b)" and "ms_acked s' = map (Pair p) (lf_acked a')"
    and "heap_sim (ms_heap s' p) a'"
  shows "life_sim p s' a'"
  using tls_sim_update [OF assms(1,4)] assms by (simp add: life_sim_def)

lemma sim_start_producer:
  assumes "life_sim p s a" and "life_ok (L_start_producer t) a"
  shows "\<exists>s'. life_exec p (L_start_producer t) s = Some s' \<and> life_sim p s' (life_step (L_start_producer t) a)"
proof -
  have t: "t < length (lf_holders a)" and n: "h_cache (holder_of a t) = None" using assms(2) by auto
  note sim = life_simD [OF assms(1) t] and tot = totals_with_holder [OF t]
  obtain m where m: "ms_heap s p = Some m" "msg_sim m a"
    using alive [OF assms(1) held_alive [OF assms(1) t]] assms(2) by auto
  have pos: "1 \<le> total_refs a" using held_alive [OF assms(1) t] assms(2) by simp
  have cur: "logmsg_current (ms_tls s t) = None" using sim(2) n by (simp add: tls_sim_def)
  let ?h = "(holder_of a t)\<lparr>h_cache := Some \<lparr>c_refs = - 8192, c_acks = - 8192,
       c_ack_needed = True, c_abort = False, c_suspend = False\<rparr>\<rparr>"
  let ?b = "\<lparr>logmsg_current = Some p, logmsg_cached_ack_needed = True,
    logmsg_cached_refs = - LOGMSG_REFCACHE_BIAS, logmsg_cached_acks = - LOGMSG_REFCACHE_BIAS,
    logmsg_cached_abort = False, logmsg_cached_suspend = False\<rparr>"
  let ?m = "bump 8192 8192 False False m" and ?a = "life_step (L_start_producer t) a"
  have "m\<lparr>lm_value := lm_value ?m\<rparr> = ?m" by (simp add: bump_def)
  then have r: "life_exec p (L_start_producer t) s = Some (put_tls t ?b (put_msg p ?m s))"
    using cur m(1) by (simp add: log_msg_refcache_start_producer_def producer_value [OF refl] Let_def)
  have "msg_sim ?m ?a"
    using m(2) assms(2) n life_invD(3,5) [OF sim(1) t]
    by (simp add: msg_sim_def bump_counts tot share_refs_def share_acks_def)
  moreover have "total_refs ?a \<noteq> 0"
    using pos n by (simp add: tot share_refs_def)
  ultimately have "heap_sim (Some ?m) ?a" by (simp add: heap_sim_def)
  moreover have "tls_sim p ?b ?h" by (simp add: tls_sim_def LOGMSG_REFCACHE_BIAS_def)
  ultimately have "life_sim p (put_tls t ?b (put_msg p ?m s)) ?a"
    by (intro sim_holder_step [OF assms(1) life_inv_start_producer [OF sim(1) assms(2)], where h = ?h and b = ?b and t = t])
      (simp_all add: sim(3))
  then show ?thesis using r by blast
qed

lemma sim_pass:
  assumes "life_sim p s a" and "life_ok (L_pass t u r n) a"
  shows "life_sim p s (life_step (L_pass t u r n) a)"
proof -
  have t: "t < length (lf_holders a)" and u: "u < length (lf_holders a)" "t \<noteq> u" using assms(2) by auto
  note sim = life_simD [OF assms(1) t]
  let ?a = "life_step (L_pass t u r n) a"
  have "total_refs ?a = total_refs a" "total_acks ?a = total_acks a"
    using t u by (simp_all add: Let_def totals_with_holder share_take)
  then have "heap_sim (ms_heap s p) ?a"
    using sim(4) by (simp add: heap_sim_def msg_sim_def Let_def split: option.splits)
  moreover have "tls_sim p (ms_tls s v) (lf_holders ?a ! v)" if "v < length (lf_holders a)" for v
    using assms(1) that t u by (auto simp: Let_def nth_list_update life_sim_def tls_sim_def)
  ultimately show ?thesis
    using life_inv_pass [OF sim(1) assms(2)] sim(3) by (simp add: life_sim_def Let_def)
qed

lemma sim_track:
  assumes "life_sim p s a" and "life_ok (L_track t) a"
  shows "\<exists>s'. log_source_track t p s = Some s' \<and> life_sim p s' (life_step (L_track t) a)"
proof -
  have t: "t < length (lf_holders a)" and 1: "1 \<le> h_refs (holder_of a t)" and nt: "\<not> lf_tracked a"
    using assms(2) by auto
  note sim = life_simD [OF assms(1) t]
  obtain m where m: "ms_heap s p = Some m" "msg_sim m a"
    using alive [OF assms(1) held_alive [OF assms(1) t]] 1 by auto
  have pos: "1 \<le> total_refs a" using held_alive [OF assms(1) t] 1 by simp
  let ?h = "take_acks 1 (take_for_source (holder_of a t))" and ?a = "life_step (L_track t) a"
  have acked: "lf_acked a = []" using sim(1) nt by (simp add: life_inv_def)
  have src: "source_refs a = 0" using nt by (simp add: source_refs_def)
  have tot: "total_refs ?a = 1 + total_refs a + share_refs ?h - share_refs (holder_of a t)"
    "total_acks ?a = total_acks a + share_acks ?h - share_acks (holder_of a t)"
    using totals_with_holder [OF t, of ?h] nt acked
    by (simp_all add: total_refs_def total_acks_def source_refs_def)
  note step = sim_holder_step [OF assms(1) life_inv_track [OF sim(1) assms(2)], where t = t and h = ?h]
  show ?thesis
  proof (cases "h_cache (holder_of a t)")
    case None
    let ?m = "(bump 0 1 False False (bump 1 0 False False m))\<lparr>lm_ack_func := Some Log_source_msg_ack\<rparr>"
    have un: "\<not> cached t p s" using sim(2) None by (simp add: tls_sim_def)
    have rc: "msg_refs m = total_refs a" "msg_acks m = total_acks a" using m(2) by (simp_all add: msg_sim_def)
    have r: "log_source_track t p s = Some (put_msg p ?m (put_msg p (bump 0 1 False False (bump 1 0 False False m)) (put_msg p (bump 1 0 False False m) s)))"
      using un pos rc
      by (simp add: log_source_track_def ref_uncached [OF m(1)] log_msg_add_ack_def ack_path_def
          log_msg_update_ack_and_ref_def update_bump [of _ p "bump 1 0 False False m" _ 0 _ 1])
    have "msg_refs ?m = total_refs a + 1" "msg_acks ?m = total_acks a + 1"
      using rc pos assms(2) None life_invD(3) [OF sim(1) t] by (simp_all add: bump_counts)
    then have "msg_sim ?m ?a" "total_refs ?a \<noteq> 0"
      using m(2) None tot pos by (simp_all add: msg_sim_def share_take)
    then show ?thesis
      using r step [of "ms_tls s t"] sim(2,3) None acked
      by (simp add: heap_sim_def tls_sim_def)
  next
    case (Some c)
    then have c: "cached t p s" using sim(2) by (simp add: tls_sim_def)
    let ?m = "m\<lparr>lm_ack_func := Some Log_source_msg_ack\<rparr>"
    let ?b = "(ms_tls s t)\<lparr>logmsg_cached_refs := of_int (c_refs c + 1), logmsg_cached_acks := of_int (c_acks c + 1)\<rparr>"
    have "log_source_track t p s = Some (put_msg p ?m (put_tls t ?b s))"
      using c Some sim(2) m(1)
      by (simp add: log_source_track_def log_msg_ref_def log_msg_add_ack_def ack_path_def cache_refs_def
          tls_sim_def put_tls_def)
    moreover have "msg_sim ?m ?a" "total_refs ?a \<noteq> 0"
      using m(2) Some tot pos by (simp_all add: msg_sim_def share_take)
    moreover have "tls_sim p ?b ?h" using sim(2) Some by (simp add: tls_sim_def)
    ultimately show ?thesis
      using step [of ?b "put_msg p ?m (put_tls t ?b s)"] sim(3) acked by (simp add: heap_sim_def)
  qed
qed

lemma to_acktype: "ack_and_ref_and_abort_and_suspend_to_acktype (lm_value m) = flags_type (suspend_flag m) (abort_flag m)"
  by (simp add: ack_and_ref_and_abort_and_suspend_to_acktype_def flags_type_def suspend_flag_def abort_flag_def)

lemma sim_ack_uncached:
  assumes "life_sim p s a" and "life_ok (L_ack t ty) a" and "h_cache (holder_of a t) = None"
  shows "\<exists>s'. log_msg_ack t p ack_path ty s = Some s' \<and> life_sim p s' (life_step (L_ack t ty) a)"
proof -
  have t: "t < length (lf_holders a)" and 1: "1 \<le> h_acks (holder_of a t)" using assms(2) by auto
  note sim = life_simD [OF assms(1) t]
  obtain m where m: "ms_heap s p = Some m" "msg_sim m a"
    using alive [OF assms(1) held_alive [OF assms(1) t]] 1 by auto
  have pos: "1 \<le> total_refs a" using held_alive [OF assms(1) t] 1 by simp
  have pend: "1 \<le> total_acks a" using pending_acks [OF sim(1) t] 1 by simp
  have tr: "lf_tracked a" "lf_acked a = []" "source_refs a = 1"
    using acks_tracked [OF sim(1) t 1] acked_iff [OF sim(1)] pend by (auto simp: source_refs_def)
  have un: "\<not> cached t p s" using sim(2) assms(3) by (simp add: tls_sim_def)
  let ?ab = "ty = AT_ABORTED" and ?su = "ty = AT_SUSPENDED" and ?h = "take_acks (- 1) (holder_of a t)"
  let ?m = "bump 0 (- 1) ?ab ?su m" and ?a = "life_step (L_ack t ty) a"
  have step: "?a = settle ?ab ?su (with_holder t ?h a)" using assms(3) by (simp add: Let_def)
  have acks: "total_acks (with_holder t ?h a) = total_acks a - 1" and refs: "total_refs (with_holder t ?h a) = total_refs a"
    using assms(3) t by (simp_all add: totals_with_holder share_take)
  note sim_step = sim_holder_step [OF assms(1) life_inv_ack [OF sim(1) assms(2)], where t = t and h = ?h and b = "ms_tls s t"]
  have tls: "tls_sim p (ms_tls s t) ?h" using sim(2) assms(3) by (simp add: tls_sim_def)
  have counts: "msg_acks ?m = total_acks a - 1" "msg_refs ?m = total_refs a"
    using m(2) pos pend life_invD(6,7) [OF sim(1) t] by (simp_all add: msg_sim_def bump_counts)
  have up: "log_msg_ack t p ack_path ty s = (if total_acks a = 1
      then call_ack_func t p (last_ack_type ty (lm_value m)) (put_msg p ?m s) else Some (put_msg p ?m s))"
    using un m by (simp add: log_msg_ack_unfold [of t p] ack_path_def update_bump [of s p m _ 0 _ "- 1"]
        count_tests msg_sim_def)
  show ?thesis
  proof (cases "total_acks a = 1")
    case False
    have "msg_sim ?m ?a" "total_refs ?a \<noteq> 0"
      using m(2) counts False pos unfolding step by (simp_all add: msg_sim_def settle_refs refs acks)
    then show ?thesis
      using up False sim_step [OF _ tls, of "put_msg p ?m s"] sim(3) unfolding step
      by (simp add: heap_sim_def settle_acked acks)
  next
    case True
    let ?s = "(put_msg p ?m s)\<lparr>ms_acked := ms_acked s @ [(p, last_ack_type ty (lm_value m))]\<rparr>"
    have c: "log_msg_ack t p ack_path ty s = log_msg_unref t p ?s"
      using True up m(2) tr by (simp add: call_ack_func_def log_source_msg_ack_def msg_sim_def)
    obtain s' where s': "log_msg_unref t p ?s = Some s'" "ms_tls s' = ms_tls ?s" "ms_acked s' = ms_acked ?s"
      "ms_heap s' p = (if msg_refs ?m = 1 then None else Some (bump (- 1) 0 False False ?m))"
      by (rule unref_uncached [of ?s p ?m t]) (use un counts pos m(2) in \<open>simp_all add: msg_sim_def\<close>)
    have r': "total_refs ?a = total_refs a - 1" unfolding step using tr
      by (simp add: settle_refs refs acks True) (simp add: source_refs_def)
    have "heap_sim (ms_heap s' p) ?a"
      using s'(4) counts m(2) pos True r' life_invD(6) [OF sim(1) t] unfolding step
      by (simp add: heap_sim_def msg_sim_def bump_counts acks)
    moreover have "ms_acked s' = map (Pair p) (lf_acked ?a)"
      using s'(3) sim(3) m(2) True tr unfolding step
      by (simp add: settle_acked acks last_ack_type_def to_acktype msg_sim_def)
    ultimately show ?thesis
      using c s' sim_step [OF _ tls, of s'] step by simp
  qed
qed

lemma sim_ack:
  assumes "life_sim p s a" and "life_ok (L_ack t ty) a"
  shows "\<exists>s'. log_msg_ack t p ack_path ty s = Some s' \<and> life_sim p s' (life_step (L_ack t ty) a)"
proof (cases "h_cache (holder_of a t)")
  case None
  then show ?thesis using sim_ack_uncached [OF assms] by blast
next
  case (Some c)
  have t: "t < length (lf_holders a)" using assms(2) by auto
  note sim = life_simD [OF assms(1) t]
  have "cached t p s" using sim(2) Some by (simp add: tls_sim_def)
  then have r: "log_msg_ack t p ack_path ty s = Some (cache_ack t ty s)"
    by (simp add: log_msg_ack_unfold [of t p] ack_path_def)
  let ?h = "(take_acks (- 1) (holder_of a t))\<lparr>h_cache := Some (c\<lparr>c_acks := c_acks c - 1,
        c_abort := c_abort c \<or> ty = AT_ABORTED, c_suspend := c_suspend c \<or> ty = AT_SUSPENDED\<rparr>)\<rparr>"
  have step: "life_step (L_ack t ty) a = with_holder t ?h a" using Some by (simp add: Let_def)
  have inv: "life_inv (with_holder t ?h a)" using life_inv_ack [OF sim(1) assms(2)] unfolding step .
  have "share_refs ?h = share_refs (holder_of a t)" "share_acks ?h = share_acks (holder_of a t)"
    using Some by (simp_all add: share_refs_def share_acks_def)
  moreover have "tls_sim p ((ms_tls s t)\<lparr>logmsg_cached_acks := logmsg_cached_acks (ms_tls s t) - 1,
      logmsg_cached_abort := logmsg_cached_abort (ms_tls s t) \<or> ty = AT_ABORTED,
      logmsg_cached_suspend := logmsg_cached_suspend (ms_tls s t) \<or> ty = AT_SUSPENDED\<rparr>) ?h"
    using sim(2) Some by (simp add: tls_sim_def)
  ultimately show ?thesis
    using sim_cached_step [OF assms(1) t inv] r unfolding step by (simp add: cache_ack_def Let_def)
qed

text \<open>The second half of stopping: the cached references reach the counter.\<close>

lemma fold_refs:
  assumes "ms_heap s p = Some m" and "lm_original m = None"
    and "logmsg_cached_refs (ms_tls s t) = of_int k" and "- 8193 \<le> k" and "k \<le> 8190"
  obtains s' where "fold_cached_refs t p s = Some s'"
    "ms_tls s' = (ms_tls s)(t := (ms_tls s t)\<lparr>logmsg_cached_refs := 0, logmsg_current := None\<rparr>)"
    "ms_acked s' = ms_acked s"
    "ms_heap s' p = (if msg_refs m = - k then None else Some (bump k 0 False False m))"
proof -
  let ?m = "bump k 0 False False m"
  let ?b = "(ms_tls s t)\<lparr>logmsg_cached_refs := 0, logmsg_current := None\<rparr>"
  have u: "fold_cached_refs t p s = do {
      s' \<leftarrow> (if msg_refs m = - k then log_msg_free t p (put_msg p ?m s) else Some (put_msg p ?m s));
      Some (put_tls t ((ms_tls s' t)\<lparr>logmsg_cached_refs := 0, logmsg_current := None\<rparr>) s')
    }"
    using assms by (simp add: fold_cached_refs_def log_msg_update_ack_and_ref_def update_bump [of s p m _ k _ 0]
        count_tests(5) [OF assms(4,5)])
  show thesis
  proof (cases "msg_refs m = - k")
    case True
    then have "fold_cached_refs t p s = Some (put_tls t ?b (drop_msg p (release_parts ?m (put_msg p ?m s))))"
      by (simp add: u log_msg_free_def assms(2) drop_msg_def release_parts_def)
    then show thesis by (rule that) (simp_all add: True drop_msg_def release_parts_def)
  next
    case False
    then have "fold_cached_refs t p s = Some (put_tls t ?b (put_msg p ?m s))" by (simp add: u)
    then show thesis by (rule that) (simp_all add: False)
  qed
qed

text \<open>The first half: the cached acknowledgements reach the counter.\<close>

lemma stop_until_refs:
  assumes "cached t p s" and "tls_sim p (ms_tls s t) h" and "h_cache h = Some c"
    and "cache_room (c_refs c)" and "cache_room (c_acks c)" and "ms_heap s p = Some m"
    and "c_ack_needed c \<Longrightarrow> lm_ack_func m = Some Log_source_msg_ack"
    and called: "called = (c_ack_needed c \<and> msg_acks m = - c_acks c)"
  obtains s' b where "log_msg_refcache_stop t s = fold_cached_refs t p s'"
    "ms_tls s' = (ms_tls s)(t := b)" "logmsg_cached_refs b = of_int (c_refs c - (if called then 1 else 0))"
    "ms_heap s' p = Some (bump 0 (c_acks c) (c_abort c) (c_suspend c) m)"
    "ms_acked s' = ms_acked s @ (if called then
       [(p, if c_suspend c then AT_SUSPENDED else if c_abort c then AT_ABORTED else flags_type (suspend_flag m) (abort_flag m))] else [])"
proof -
  let ?m = "bump 0 (c_acks c) (c_abort c) (c_suspend c) m"
  let ?ty = "cumulated_ack_type (c_suspend c) (c_abort c) (lm_value m)"
  let ?b = "\<lambda>k. (ms_tls s t)\<lparr>logmsg_cached_refs := of_int k, logmsg_cached_acks := 0,
    logmsg_cached_abort := False, logmsg_cached_suspend := False\<rparr>"
  let ?s = "\<lambda>k. put_msg p ?m (put_tls t (?b k) s)"
  have b: "logmsg_cached_refs (ms_tls s t) = of_int (c_refs c)" "logmsg_cached_acks (ms_tls s t) = of_int (c_acks c)"
    "logmsg_cached_abort (ms_tls s t) = c_abort c" "logmsg_cached_suspend (ms_tls s t) = c_suspend c"
    "logmsg_cached_ack_needed (ms_tls s t) = c_ack_needed c"
    using assms(2,3) by (simp_all add: tls_sim_def)
  have ref: "log_msg_ref t p s = Some (put_tls t ((ms_tls s t)\<lparr>logmsg_cached_refs := of_int (c_refs c + 1)\<rparr>) s)"
    using assms(1) b(1) by (simp add: log_msg_ref_def cache_refs_def)
  have "fold_cached_acks t p (put_tls t ((ms_tls s t)\<lparr>logmsg_cached_refs := of_int (c_refs c + 1)\<rparr>) s) =
      (if called then do { s' \<leftarrow> call_ack_func t p ?ty (?s (c_refs c + 1)); g_assert (logmsg_cached_acks (ms_tls s' t) = 0); Some s' }
       else Some (?s (c_refs c + 1)))"
    using assms(6) b count_tests(4) [OF assms(5), of m]
    by (simp add: fold_cached_acks_def update_bump [of _ p m _ 0 _ "c_acks c"] called put_tls_def put_msg_def conj_commute Let_def)
  moreover have "call_ack_func t p ?ty (?s (c_refs c + 1)) =
      Some ((?s (c_refs c))\<lparr>ms_acked := ms_acked s @ [(p, ?ty)]\<rparr>)" if called
    using that assms(1,7) called
    by (cases "ms_tls s t") (simp add: call_ack_func_def log_source_msg_ack_def log_msg_unref_unfold [of t p]
        cache_refs_def put_tls_def put_msg_def)
  ultimately have acks: "fold_cached_acks t p (put_tls t ((ms_tls s t)\<lparr>logmsg_cached_refs := of_int (c_refs c + 1)\<rparr>) s) =
      Some (if called then (?s (c_refs c))\<lparr>ms_acked := ms_acked s @ [(p, ?ty)]\<rparr> else ?s (c_refs c + 1))"
    by simp
  define x where "x = (if called then (?s (c_refs c))\<lparr>ms_acked := ms_acked s @ [(p, ?ty)]\<rparr> else ?s (c_refs c + 1))"
  have x: "ms_tls x = (ms_tls s)(t := ?b (c_refs c + (if called then 0 else 1)))" "ms_heap x p = Some ?m"
    "ms_acked x = ms_acked s @ (if called then [(p, ?ty)] else [])"
    by (simp_all add: x_def)
  have range: "in_bias_range (logmsg_cached_acks (ms_tls s t))" "in_bias_range (logmsg_cached_refs (ms_tls s t))"
    using assms(4,5) in_bias_range_of_int b(1,2) by simp_all
  have "log_msg_unref t p x = Some (cache_refs t (- 1) x)"
    using assms(1) x(1) by (simp add: log_msg_unref_unfold [of t p])
  then have "log_msg_refcache_stop t s = fold_cached_refs t p (cache_refs t (- 1) x)"
    using assms(1) ref acks range by (simp add: log_msg_refcache_stop_def x_def)
  then show thesis
    by (rule that [where b = "(ms_tls x t)\<lparr>logmsg_cached_refs := logmsg_cached_refs (ms_tls x t) - 1\<rparr>"])
      (simp_all add: cache_refs_def x cumulated_ack_type_def to_acktype)
qed

text \<open>The abstract step of stopping; the callback is made when no acknowledgement is left.\<close>

lemma stop_step:
  assumes "life_inv a" and "life_ok (L_stop t) a" and "h_cache (holder_of a t) = Some c"
    and "called = (c_ack_needed c \<and> total_acks a = - c_acks c)" and "a' = life_step (L_stop t) a"
  shows "lf_holders a' = (lf_holders a)[t := (holder_of a t)\<lparr>h_cache := None\<rparr>]"
    "total_refs a' = total_refs a + (c_refs c - (if called then 1 else 0))"
    "total_acks a' = total_acks a + c_acks c"
    "lf_tracked a' = lf_tracked a" "lf_abort a' = (lf_abort a \<or> c_abort c)" "lf_suspend a' = (lf_suspend a \<or> c_suspend c)"
    "lf_acked a' = lf_acked a @ (if called then
       [if c_suspend c then AT_SUSPENDED else if c_abort c then AT_ABORTED else flags_type (lf_suspend a) (lf_abort a)] else [])"
proof -
  have t: "t < length (lf_holders a)" using assms(2) by simp
  let ?h = "(holder_of a t)\<lparr>h_cache := None\<rparr>"
  have acks: "total_acks (with_holder t ?h a) = total_acks a + c_acks c"
    and refs: "total_refs (with_holder t ?h a) = total_refs a + c_refs c"
    using totals_with_holder [OF t, of ?h] assms(3) by (simp_all add: share_refs_def share_acks_def)
  have n: "c_acks c = 0" "\<not> c_abort c" "\<not> c_suspend c" if "\<not> c_ack_needed c"
    using life_invD(1) [OF assms(1) t] assms(3) that by (auto simp: holder_inv_def split: if_splits)
  have src: "source_refs (with_holder t ?h a) = 1" if "c_ack_needed c"
  proof -
    have tr: "lf_tracked a" using assms(2,3) that by simp
    have "1 \<le> total_acks a" using pending_acks [OF assms(1) t] assms(3) that by simp
    then have "lf_acked a = []" using acked_iff [OF assms(1) tr] by simp
    then show ?thesis using tr by (simp add: source_refs_def)
  qed
  have a': "a' = (if c_ack_needed c then settle (c_abort c) (c_suspend c) (with_holder t ?h a) else with_holder t ?h a)"
    using assms(3,5) by (simp add: Let_def)
  show "lf_holders a' = (lf_holders a)[t := ?h]" "total_acks a' = total_acks a + c_acks c"
    "lf_tracked a' = lf_tracked a" by (simp_all add: a' acks)
  show "lf_abort a' = (lf_abort a \<or> c_abort c)" "lf_suspend a' = (lf_suspend a \<or> c_suspend c)"
    using n by (auto simp: a')
  show "total_refs a' = total_refs a + (c_refs c - (if called then 1 else 0))"
    using src by (auto simp: a' settle_refs acks refs assms(4))
  show "lf_acked a' = lf_acked a @ (if called then
       [if c_suspend c then AT_SUSPENDED else if c_abort c then AT_ABORTED else flags_type (lf_suspend a) (lf_abort a)] else [])"
    by (auto simp: a' settle_acked acks assms(4))
qed

lemma sim_stop:
  assumes "life_sim p s a" and "life_ok (L_stop t) a"
  shows "\<exists>s'. log_msg_refcache_stop t s = Some s' \<and> life_sim p s' (life_step (L_stop t) a)"
proof -
  obtain c where t: "t < length (lf_holders a)" and c: "h_cache (holder_of a t) = Some c"
    and ok: "c_ack_needed c \<longrightarrow> lf_tracked a" "total_refs a + c_refs c < 32768" "total_acks a + c_acks c < 32768"
    using assms(2) by (auto split: option.splits)
  note sim = life_simD [OF assms(1) t]
  note inv = life_invD [OF sim(1) t]
  obtain m where m: "ms_heap s p = Some m" "msg_sim m a"
    using alive [OF assms(1) held_alive [OF assms(1) t]] c by auto
  have room: "cache_room (c_refs c)" "cache_room (c_acks c)" using inv(1) c by (simp_all add: holder_inv_def)
  have cur: "cached t p s" using sim(2) c by (simp add: tls_sim_def)
  let ?h = "(holder_of a t)\<lparr>h_cache := None\<rparr>"
  define a' where "a' = life_step (L_stop t) a"
  let ?m = "bump 0 (c_acks c) (c_abort c) (c_suspend c) m"
  define called where "called = (c_ack_needed c \<and> msg_acks m = - c_acks c)"
  define k where "k = c_refs c - (if called then 1 else 0)"
  have func: "lm_ack_func m = Some Log_source_msg_ack" if "c_ack_needed c"
    using m(2) ok(1) that by (simp add: msg_sim_def)
  obtain s' b where s': "log_msg_refcache_stop t s = fold_cached_refs t p s'"
    "ms_tls s' = (ms_tls s)(t := b)" "logmsg_cached_refs b = of_int k" "ms_heap s' p = Some ?m"
    "ms_acked s' = ms_acked s @ (if called then
       [(p, if c_suspend c then AT_SUSPENDED else if c_abort c then AT_ABORTED else flags_type (suspend_flag m) (abort_flag m))] else [])"
    unfolding k_def by (rule stop_until_refs [OF cur sim(2) c room m(1) func called_def])
  have "lm_original ?m = None" "logmsg_cached_refs (ms_tls s' t) = of_int k" "- 8193 \<le> k" "k \<le> 8190"
    using m(2) room(1) s'(2,3) by (auto simp: msg_sim_def k_def cache_room_def)
  then obtain s'' where s'': "fold_cached_refs t p s' = Some s''"
    "ms_tls s'' = (ms_tls s')(t := (ms_tls s' t)\<lparr>logmsg_cached_refs := 0, logmsg_current := None\<rparr>)"
    "ms_acked s'' = ms_acked s'"
    "ms_heap s'' p = (if msg_refs ?m = - k then None else Some (bump k 0 False False ?m))"
    by (rule fold_refs [OF s'(4)])
  have called: "called = (c_ack_needed c \<and> total_acks a = - c_acks c)"
    using m(2) by (simp add: called_def msg_sim_def)
  note step = stop_step [OF sim(1) assms(2) c called a'_def]
  have inv': "life_inv a'" unfolding a'_def by (rule life_inv_stop [OF sim(1) assms(2)])
  have "0 \<le> total_refs a'" "0 \<le> total_acks a'"
    using life_invD(3,5) [OF inv', of t] t step(1) by simp_all
  then have "msg_sim (bump k 0 False False ?m) a'"
    using m(2) ok inv(5-7) unfolding msg_sim_def step by (auto simp: bump_counts k_def)
  then have "heap_sim (ms_heap s'' p) a'"
    using s''(4) m(2) inv(5,6) unfolding heap_sim_def by (auto simp: step(2) k_def [symmetric] bump_counts msg_sim_def)
  moreover have "ms_acked s'' = map (Pair p) (lf_acked a')"
    using s''(3) s'(5) sim(3) m(2) by (simp add: step(7) msg_sim_def)
  moreover have "tls_sim p ((ms_tls s' t)\<lparr>logmsg_cached_refs := 0, logmsg_current := None\<rparr>) ?h"
    by (simp add: tls_sim_def)
  ultimately have "life_sim p s'' a'"
    using s''(2) s'(2) by (intro sim_holder_step [OF assms(1) inv' step(1)]) simp_all
  then show ?thesis using s'(1) s''(1) by (simp add: a'_def)
qed

lemma life_sim_step:
  assumes "life_sim p s a" and "life_ok op a"
  shows "\<exists>s'. life_exec p op s = Some s' \<and> life_sim p s' (life_step op a)"
proof (cases op)
  case (L_ref t)
  then show ?thesis using sim_ref [OF assms(1)] assms(2) by simp
next
  case (L_unref t)
  then show ?thesis using sim_unref [OF assms(1)] assms(2) by simp
next
  case (L_add_ack t)
  then show ?thesis using sim_add_ack [OF assms(1)] assms(2) by simp
next
  case (L_ack t ty)
  then show ?thesis using sim_ack [OF assms(1)] assms(2) by simp
next
  case (L_pass t u r n)
  then show ?thesis using sim_pass [OF assms(1)] assms(2) by simp
next
  case (L_track t)
  then show ?thesis using sim_track [OF assms(1)] assms(2) by simp
next
  case (L_start_producer t)
  then show ?thesis using sim_start_producer [OF assms(1)] assms(2) by simp
next
  case (L_start_consumer t b)
  then show ?thesis using sim_start_consumer [OF assms(1)] assms(2) by simp
next
  case (L_stop t)
  then show ?thesis using sim_stop [OF assms(1)] assms(2) by simp
qed

definition life_run_step :: "nat \<Rightarrow> life_op \<Rightarrow> msg_state option \<Rightarrow> msg_state option" where
  "life_run_step p op c = Option.bind c (life_exec p op)"

definition life_rel :: "nat \<Rightarrow> msg_state option \<Rightarrow> msg_life \<Rightarrow> bool" where
  "life_rel p c a = (case c of None \<Rightarrow> False | Some s \<Rightarrow> life_sim p s a)"

interpretation life: simulation "life_run_step p" life_step life_ok "life_rel p" for p
proof
  fix c a op
  assume "life_rel p c a" and "life_ok op a"
  then obtain s where "c = Some s" "life_sim p s a" by (auto simp: life_rel_def split: option.splits)
  then show "life_rel p (life_run_step p op c) (life_step op a)"
    using life_sim_step \<open>life_ok op a\<close> by (fastforce simp: life_rel_def life_run_step_def)
qed

subsection \<open>A message from creation to its end\<close>

text \<open>A new message: thread 0 of \<open>n\<close> threads has the only reference.\<close>

definition new_life :: "nat \<Rightarrow> msg_life" where
  "new_life n = \<lparr>lf_holders = \<lparr>h_refs = 1, h_acks = 0, h_cache = None\<rparr> #
     replicate (n - 1) \<lparr>h_refs = 0, h_acks = 0, h_cache = None\<rparr>,
     lf_tracked = False, lf_abort = False, lf_suspend = False, lf_acked = []\<rparr>"

definition idle_tls :: tls_block where
  "idle_tls = \<lparr>logmsg_current = None, logmsg_cached_ack_needed = False, logmsg_cached_refs = 0,
     logmsg_cached_acks = 0, logmsg_cached_abort = False, logmsg_cached_suspend = False\<rparr>"

definition idle_state :: msg_state where
  "idle_state = \<lparr>ms_heap = (\<lambda>_. None), ms_next = 0, ms_tls = (\<lambda>_. idle_tls), ms_acked = [],
     ms_released = [], logmsg_queue_node_max = 1\<rparr>"

lemma new_message:
  obtains s where "log_msg_new_empty idle_state = Some (0, s)" "life_sim 0 s (new_life n)"
proof -
  obtain s where s: "log_msg_new_empty idle_state = Some (0, s)"
    by (simp add: log_msg_new_empty_def log_msg_alloc_def idle_state_def put_msg_def Let_def)
  define m where "m = the (ms_heap s 0)"
  have m: "ms_heap s 0 = Some m" "lm_original m = None" "lm_ack_func m = None" "lm_value m = 1"
    "ms_tls s = (\<lambda>_. idle_tls)" "ms_acked s = []"
    using s by (auto simp: m_def log_msg_new_empty_def log_msg_alloc_def idle_state_def put_msg_def Let_def
        log_msg_init_def REF_TO_VALUE_def mask_defs)
  have v: "VALUE_TO_REF 1 = 1" "VALUE_TO_ACK 1 = 0" "VALUE_TO_ABORT 1 = 0" "VALUE_TO_SUSPEND 1 = 0"
    by (simp_all add: VALUE_TO_REF_def VALUE_TO_ACK_def VALUE_TO_ABORT_def VALUE_TO_SUSPEND_def mask_defs)
  have t: "total_refs (new_life n) = 1" "total_acks (new_life n) = 0"
    by (simp_all add: total_refs_def total_acks_def new_life_def source_refs_def share_refs_def share_acks_def
        sum_list_replicate map_replicate_const)
  have "life_inv (new_life n)"
    unfolding life_inv_def t by (auto simp: new_life_def holder_inv_def list_all_iff)
  moreover have "msg_sim m (new_life n)"
    unfolding msg_sim_def t using m v
    by (simp add: new_life_def msg_refs_def msg_acks_def abort_flag_def suspend_flag_def)
  moreover have "tls_sim 0 idle_tls (lf_holders (new_life n) ! t)" if "t < length (lf_holders (new_life n))" for t
    using that by (cases t) (auto simp: new_life_def tls_sim_def idle_tls_def)
  ultimately have "life_sim 0 s (new_life n)"
    using m t by (simp add: life_sim_def heap_sim_def) (simp add: new_life_def)
  then show thesis using that s by blast
qed

definition unheld :: "msg_life \<Rightarrow> bool" where
  "unheld a = (list_all (\<lambda>h. h_refs h = 0 \<and> h_cache h = None) (lf_holders a) \<and>
     (lf_tracked a \<longrightarrow> lf_acked a \<noteq> []))"

definition all_acked :: "msg_life \<Rightarrow> bool" where
  "all_acked a = (lf_tracked a \<and> list_all (\<lambda>h. h_acks h = 0 \<and>
     (case h_cache h of None \<Rightarrow> True | Some c \<Rightarrow> \<not> c_ack_needed c)) (lf_holders a))"

lemma sum_list_zero_iff:
  "list_all (\<lambda>h. 0 \<le> f h) hs \<Longrightarrow> sum_list (map f hs) = (0 :: int) \<longleftrightarrow> list_all (\<lambda>h. f h = 0) hs"
proof (induction hs)
  case (Cons h hs)
  then have "0 \<le> sum_list (map f hs)" by (intro sum_list_nonneg) (auto simp: list_all_iff)
  then show ?case using Cons by auto
qed simp

lemma life_inv_ends:
  assumes "life_inv a"
  shows "total_refs a = 0 \<longleftrightarrow> unheld a"
    and "length (lf_acked a) = (if all_acked a then 1 else 0)"
proof -
  have inv: "list_all holder_inv (lf_holders a)" using assms by (simp add: life_inv_def)
  have refs: "sum_list (map share_refs (lf_holders a)) = 0 \<longleftrightarrow> list_all (\<lambda>h. share_refs h = 0) (lf_holders a)"
    and acks: "total_acks a = 0 \<longleftrightarrow> list_all (\<lambda>h. share_acks h = 0) (lf_holders a)"
    unfolding total_acks_def
    by (rule sum_list_zero_iff; use inv share_holder in \<open>auto simp: list_all_iff\<close>)+
  have "0 \<le> sum_list (map share_refs (lf_holders a))"
    using inv share_holder(1) by (intro sum_list_nonneg) (auto simp: list_all_iff)
  then have "total_refs a = 0 \<longleftrightarrow> source_refs a = 0 \<and> list_all (\<lambda>h. share_refs h = 0) (lf_holders a)"
    using refs by (auto simp: total_refs_def source_refs_def)
  moreover have "share_refs h = 0 \<longleftrightarrow> h_refs h = 0 \<and> h_cache h = None" if "holder_inv h" for h
    using that by (auto simp: holder_inv_def share_refs_def split: option.splits)
  ultimately show "total_refs a = 0 \<longleftrightarrow> unheld a"
    using inv by (auto simp: unheld_def source_refs_def list_all_iff)
  have "share_acks h = 0 \<longleftrightarrow> h_acks h = 0 \<and> (case h_cache h of None \<Rightarrow> True | Some c \<Rightarrow> \<not> c_ack_needed c)"
    if "holder_inv h" for h
    using that by (auto simp: holder_inv_def share_acks_def split: option.splits if_splits)
  then have "all_acked a \<longleftrightarrow> lf_tracked a \<and> total_acks a = 0"
    unfolding all_acked_def acks using inv by (auto simp: list_all_iff)
  then show "length (lf_acked a) = (if all_acked a then 1 else 0)"
    using assms by (auto simp: life_inv_def split: if_splits)
qed


text \<open>A source thread hands a message to a destination thread; both cache.\<close>

definition life_demo :: "life_op list" where
  "life_demo = [L_start_producer 0, L_track 0, L_ref 0, L_add_ack 0, L_pass 0 1 1 1,
     L_start_consumer 1 True, L_ack 0 AT_PROCESSED, L_unref 0, L_stop 0,
     L_ack 1 AT_PROCESSED, L_unref 1, L_stop 1]"

lemma life_demo_ok: "ok_run life_ok life_step life_demo (new_life 2)"
  by code_simp

lemma life_demo_end: "unheld (fold life_step life_demo (new_life 2)) \<and> all_acked (fold life_step life_demo (new_life 2))"
  by code_simp


subsection \<open>The cache is transparent\<close>

fun cache_op :: "life_op \<Rightarrow> bool" where
  "cache_op (L_start_producer t) = True"
| "cache_op (L_start_consumer t b) = True"
| "cache_op (L_stop t) = True"
| "cache_op op = False"

text \<open>What the threads hold, without how it is counted.\<close>

definition holdings :: "msg_life \<Rightarrow> (int \<times> int) list \<times> bool" where
  "holdings a = (map (\<lambda>h. (h_refs h, h_acks h)) (lf_holders a), lf_tracked a)"

lemma holdings_with_holder:
  "holdings (with_holder t h a) = ((fst (holdings a))[t := (h_refs h, h_acks h)], snd (holdings a))"
  by (simp add: holdings_def map_update)

lemma holdings_settle: "holdings (settle ab su a) = holdings a"
  by (simp add: holdings_def)

lemma holdings_same:
  assumes "h_refs h = h_refs (holder_of a t)" and "h_acks h = h_acks (holder_of a t)"
  shows "holdings (with_holder t h a) = holdings a"
proof (cases "t < length (lf_holders a)")
  case True
  then show ?thesis using assms
    by (auto simp: holdings_def nth_list_update intro!: nth_equalityI)
qed (simp add: holdings_def list_update_beyond)

lemma holdings_cache_op: "cache_op op \<Longrightarrow> holdings (life_step op a) = holdings a"
  by (cases op) (simp_all add: holdings_settle holdings_same Let_def split: option.splits)

text \<open>The effect of the other operations on the holdings depends on the holdings only.\<close>

lemma holdings_step:
  assumes "\<not> cache_op op" and "holdings a = holdings b" and "life_ok op a"
  shows "holdings (life_step op a) = holdings (life_step op b)"
proof -
  have h: "h_refs (holder_of a t) = h_refs (holder_of b t)" "h_acks (holder_of a t) = h_acks (holder_of b t)"
    if "t < length (lf_holders a)" for t
  proof -
    have m: "map (\<lambda>h. (h_refs h, h_acks h)) (lf_holders a) = map (\<lambda>h. (h_refs h, h_acks h)) (lf_holders b)"
      using assms(2) by (simp add: holdings_def)
    then have "length (lf_holders a) = length (lf_holders b)" by (rule map_eq_imp_length_eq)
    then show "h_refs (holder_of a t) = h_refs (holder_of b t)" "h_acks (holder_of a t) = h_acks (holder_of b t)"
      using arg_cong [OF m, of "\<lambda>xs. xs ! t"] that by simp_all
  qed
  have tracked: "holdings (x\<lparr>lf_tracked := True\<rparr>) = (fst (holdings x), True)" for x
    by (simp add: holdings_def)
  show ?thesis
    using assms(1-3) h
    by (cases op) (simp_all add: holdings_settle holdings_with_holder tracked Let_def split: option.split)
qed

lemma holdings_run:
  assumes "ok_run life_ok life_step ops a" and "ok_run life_ok life_step (filter (\<lambda>op. \<not> cache_op op) ops) b"
    and "holdings a = holdings b"
  shows "holdings (fold life_step ops a) = holdings (fold life_step (filter (\<lambda>op. \<not> cache_op op) ops) b)"
  using assms
proof (induction ops arbitrary: a b)
  case (Cons op ops)
  show ?case
  proof (cases "cache_op op")
    case True
    then show ?thesis using Cons.IH [of "life_step op a" b] Cons.prems holdings_cache_op by simp
  next
    case False
    then show ?thesis
      using Cons.IH [of "life_step op a" "life_step op b"] Cons.prems holdings_step [of op a b] by simp
  qed
qed simp

text \<open>No thread caches.\<close>

definition no_caches :: "msg_life \<Rightarrow> bool" where
  "no_caches a = list_all (\<lambda>h. h_cache h = None) (lf_holders a)"

lemma no_caches_totals:
  assumes "no_caches a"
  shows "total_refs a = source_refs a + sum_list (map fst (fst (holdings a)))"
    and "total_acks a = sum_list (map snd (fst (holdings a)))"
proof -
  have "map share_refs (lf_holders a) = map h_refs (lf_holders a)" "map share_acks (lf_holders a) = map h_acks (lf_holders a)"
    using assms by (auto simp: no_caches_def list_all_iff share_refs_def share_acks_def)
  then show "total_refs a = source_refs a + sum_list (map fst (fst (holdings a)))"
    "total_acks a = sum_list (map snd (fst (holdings a)))"
    by (simp_all only: total_refs_def total_acks_def holdings_def fst_conv snd_conv map_map o_def)
qed

lemma no_caches_run:
  assumes "ok_run life_ok life_step (filter (\<lambda>op. \<not> cache_op op) ops) a" and "no_caches a"
  shows "no_caches (fold life_step (filter (\<lambda>op. \<not> cache_op op) ops) a)"
  using assms
proof (induction ops arbitrary: a)
  case (Cons op ops)
  have "no_caches (life_step op a)" if "\<not> cache_op op" "life_ok op a"
  proof -
    have up: "no_caches (with_holder t h a)" if "h_cache h = None" "no_caches a" for t h a
      using that set_update_subset_insert [of "lf_holders a" t h] by (auto simp: no_caches_def list_all_iff)
    have at: "h_cache (holder_of a t) = None" if "t < length (lf_holders a)" for t
      using that Cons.prems(2) by (simp add: no_caches_def list_all_length)
    have "no_caches (settle ab su x) = no_caches x" "no_caches (x\<lparr>lf_tracked := True\<rparr>) = no_caches x" for ab su x
      by (simp_all add: no_caches_def)
    then show ?thesis
      using that up at Cons.prems(2) by (cases op) (simp_all add: Let_def nth_list_update)
  qed
  then show ?case using Cons by (auto split: if_splits)
qed simp

lemma equal_holdings_equal_counts:
  assumes "life_inv a" and "life_inv b" and "no_caches a" and "no_caches b" and "holdings a = holdings b"
  shows "total_refs a = total_refs b" "total_acks a = total_acks b" "length (lf_acked a) = length (lf_acked b)"
proof -
  have tr: "lf_tracked a = lf_tracked b" using assms(5) by (simp add: holdings_def)
  show acks: "total_acks a = total_acks b" using assms(3-5) by (simp add: no_caches_totals)
  show "length (lf_acked a) = length (lf_acked b)"
    using assms(1,2) tr acks by (auto simp: life_inv_def split: if_splits)
  then have "source_refs a = source_refs b" using tr by (auto simp: source_refs_def)
  then show "total_refs a = total_refs b" using assms(3-5) by (simp add: no_caches_totals)
qed

text \<open>
  C11: The per-thread cache is transparent.  Leaving out every start and stop of
  a cache from a run (in which no thread caches at the end) changes nothing in
  the outcome: neither run aborts, the message is freed in both or in neither,
  its two counters are equal, and the source is told equally often.
\<close>
theorem refcache_transparent:
  assumes "log_msg_new_empty idle_state = Some (p, s0)"
    and "ok_run life_ok life_step ops (new_life n)"
    and "ok_run life_ok life_step (filter (\<lambda>op. \<not> cache_op op) ops) (new_life n)"
    and "no_caches (fold life_step ops (new_life n))"
  shows "\<exists>s s'. fold (life_run_step p) ops (Some s0) = Some s \<and>
    fold (life_run_step p) (filter (\<lambda>op. \<not> cache_op op) ops) (Some s0) = Some s' \<and>
    map_option (\<lambda>m. (msg_refs m, msg_acks m)) (ms_heap s p) =
      map_option (\<lambda>m. (msg_refs m, msg_acks m)) (ms_heap s' p) \<and>
    length (ms_acked s) = length (ms_acked s')"
proof -
  obtain s' where s': "log_msg_new_empty idle_state = Some (0, s')" "life_sim 0 s' (new_life n)"
    by (rule new_message)
  then have p: "p = 0" and rel: "life_rel p (Some s0) (new_life n)" using assms(1) by (auto simp: life_rel_def)
  let ?a = "fold life_step ops (new_life n)"
  let ?b = "fold life_step (filter (\<lambda>op. \<not> cache_op op) ops) (new_life n)"
  obtain s s' where s: "fold (life_run_step p) ops (Some s0) = Some s" "life_sim p s ?a"
    "fold (life_run_step p) (filter (\<lambda>op. \<not> cache_op op) ops) (Some s0) = Some s'" "life_sim p s' ?b"
    using life.run [OF rel assms(2)] life.run [OF rel assms(3)] by (auto simp: life_rel_def split: option.splits)
  have "no_caches (new_life n)" by (auto simp: no_caches_def new_life_def list_all_iff)
  then have "no_caches ?b" using no_caches_run [OF assms(3)] by blast
  with s have "total_refs ?a = total_refs ?b" "total_acks ?a = total_acks ?b" "length (lf_acked ?a) = length (lf_acked ?b)"
    using equal_holdings_equal_counts [of ?a ?b] assms(4) holdings_run [OF assms(2,3) refl]
    by (simp_all add: life_sim_def)
  then have "map_option (\<lambda>m. (msg_refs m, msg_acks m)) (ms_heap s p) = map_option (\<lambda>m. (msg_refs m, msg_acks m)) (ms_heap s' p)"
    "length (ms_acked s) = length (ms_acked s')"
    using s(2,4) by (auto simp: life_sim_def heap_sim_def msg_sim_def split: option.splits)
  then show ?thesis using s by blast
qed

lemma life_demo_plain_ok: "ok_run life_ok life_step (filter (\<lambda>op. \<not> cache_op op) life_demo) (new_life 2)"
  by code_simp

lemma life_demo_no_caches: "no_caches (fold life_step life_demo (new_life 2))"
  by code_simp

theorem refcache_transparent_witness:
  "\<exists>s0 s s'. log_msg_new_empty idle_state = Some (0, s0) \<and>
     fold (life_run_step 0) life_demo (Some s0) = Some s \<and>
     fold (life_run_step 0) (filter (\<lambda>op. \<not> cache_op op) life_demo) (Some s0) = Some s' \<and>
     length (ms_acked s) = length (ms_acked s')"
proof -
  obtain s0 where s0: "log_msg_new_empty idle_state = Some (0, s0)" by (rule new_message)
  show ?thesis
    using refcache_transparent [OF s0 life_demo_ok life_demo_plain_ok life_demo_no_caches] s0 by blast
qed

end
