(* ===== verification/Msg_Clone.thy ===== *)
theory Msg_Clone
  imports Msg_Life
begin

text \<open>
  Clones of messages and the queue nodes embedded in them: a clone that is
  dropped gives back exactly what it took from its original, the type of the
  last acknowledgement, and the space reserved for embedded queue nodes.
\<close>

subsection \<open>Cloning and dropping the clone\<close>

definition clone_and_drop ::
    "nat \<Rightarrow> nat \<Rightarrow> path_options \<Rightarrow> ack_type \<Rightarrow> msg_state \<Rightarrow> msg_state option" where
  "clone_and_drop t p po ack_type s = do {
     s \<leftarrow> log_msg_add_ack t p po s;
     (q, s) \<leftarrow> log_msg_clone_cow t p po s;
     log_msg_drop t q po ack_type s
   }"

lemma flag_counts [simp]:
  "msg_refs (log_msg_set_flag m f) = msg_refs m" "msg_acks (log_msg_set_flag m f) = msg_acks m"
  "abort_flag (log_msg_set_flag m f) = abort_flag m" "suspend_flag (log_msg_set_flag m f) = suspend_flag m"
  "lm_value (log_msg_set_flag m f) = lm_value m" "lm_original (log_msg_set_flag m f) = lm_original m"
  "lm_ack_func (log_msg_set_flag m f) = lm_ack_func m"
  "msg_refs (m\<lparr>lm_flags := x\<rparr>) = msg_refs m" "msg_acks (m\<lparr>lm_flags := x\<rparr>) = msg_acks m"
  "abort_flag (m\<lparr>lm_flags := x\<rparr>) = abort_flag m" "suspend_flag (m\<lparr>lm_flags := x\<rparr>) = suspend_flag m"
  by (simp_all add: log_msg_set_flag_def msg_refs_def msg_acks_def abort_flag_def suspend_flag_def)

lemma add_ack_uncached:
  assumes "ms_heap s p = Some m" and "\<not> cached t p s" and "po_ack_needed po"
  shows "log_msg_add_ack t p po s = Some (put_msg p (bump 0 1 False False m) s)"
  using assms
  by (simp add: log_msg_add_ack_def log_msg_update_ack_and_ref_def update_bump [of s p m _ 0 _ 1])

lemma ack_uncached_more:
  assumes "ms_heap s p = Some m" and "\<not> cached t p s" and "po_ack_needed po" and "msg_acks m \<noteq> 1"
  shows "log_msg_ack t p po ty s = Some (put_msg p (bump 0 (- 1) (ty = AT_ABORTED) (ty = AT_SUSPENDED) m) s)"
  using assms by (simp add: log_msg_ack_unfold [of t p] update_bump [of s p m _ 0 _ "- 1"] count_tests)

lemma unref_uncached_more:
  assumes "ms_heap s p = Some m" and "\<not> cached t p s" and "1 < msg_refs m"
  shows "log_msg_unref t p s = Some (put_msg p (bump (- 1) 0 False False m) s)"
  using assms
  by (simp add: log_msg_unref_unfold [of t p s] log_msg_update_ack_and_ref_def
      update_bump [of s p m _ "- 1" _ 0] count_tests)

text \<open>A clone right after its creation.\<close>

definition fresh_clone :: "nat \<Rightarrow> nat \<Rightarrow> msg_state \<Rightarrow> log_message \<Rightarrow> bool" where
  "fresh_clone q p s c \<longleftrightarrow> ms_heap s q = Some c \<and> msg_refs c = 1 \<and> msg_acks c = 1 \<and> \<not> abort_flag c \<and>
     \<not> suspend_flag c \<and> lm_original c = Some p \<and> lm_ack_func c = Some Log_msg_clone_ack"

lemma one_ref_counts:
  assumes "lm_value c = REF_TO_VALUE 1 + ACK_TO_VALUE 0 + ABORT_TO_VALUE 0"
  shows "msg_refs c = 1" "msg_acks c = 0" "\<not> abort_flag c" "\<not> suspend_flag c"
proof -
  have "lm_value c = 1" using assms by (simp add: REF_TO_VALUE_def ACK_TO_VALUE_def ABORT_TO_VALUE_def mask_defs)
  then show "msg_refs c = 1" "msg_acks c = 0" "\<not> abort_flag c" "\<not> suspend_flag c"
    by (simp_all add: msg_refs_def msg_acks_def abort_flag_def suspend_flag_def VALUE_TO_REF_def
        VALUE_TO_ACK_def VALUE_TO_ABORT_def VALUE_TO_SUSPEND_def mask_defs)
qed

lemma clone_uncached:
  assumes "ms_heap s p = Some m" and "p < ms_next s" and "logmsg_current (ms_tls s t) = None"
    and "po_ack_needed po" and "1 \<le> msg_refs m"
  obtains s' c where "log_msg_clone_cow t p po s = Some (ms_next s, s')" "fresh_clone (ms_next s) p s' c"
    "ms_heap s' = (ms_heap s)(p \<mapsto> bump 1 0 False False (log_msg_set_flag m LF_STATE_REFERENCED), ms_next s \<mapsto> c)"
    "ms_tls s' = ms_tls s" "ms_acked s' = ms_acked s"
proof -
  let ?q = "ms_next s" and ?m = "log_msg_set_flag m LF_STATE_REFERENCED"
  have n: "?q \<noteq> p" using assms(2) by simp
  define f where "f = \<lparr>lm_value = 0, lm_ack_func = None, lm_original = None, lm_tags = None,
    lm_sdata = None, lm_saddr = None, lm_payload = None, lm_flags = 0, lm_num_tags = 0,
    lm_num_nodes = of_int (logmsg_queue_node_max s), lm_cur_node = 0, lm_space = logmsg_queue_node_max s\<rparr>"
  define s1 where "s1 = put_msg p ?m (put_msg ?q f (s\<lparr>ms_next := Suc ?q\<rparr>))"
  define self where "self = ?m\<lparr>lm_space := lm_space f, lm_original := Some p,
    lm_value := REF_TO_VALUE 1 + ACK_TO_VALUE 0 + ABORT_TO_VALUE 0, lm_cur_node := 0\<rparr>"
  define self1 where "self1 = (bump 0 1 False False self)\<lparr>lm_ack_func := Some Log_msg_clone_ack,
    lm_flags := lm_flags (bump 0 1 False False self) AND NOT LF_STATE_MASK\<rparr>"
  define c where "c = (if lm_num_tags self1 = 0 then log_msg_set_flag self1 LF_STATE_OWN_TAGS else self1)"
  let ?s2 = "put_msg ?q self (put_msg p (bump 1 0 False False ?m) s1)"
  let ?s3 = "put_msg ?q c (put_msg ?q (bump 0 1 False False self) ?s2)"
  have r1: "log_msg_ref t p s1 = Some (put_msg p (bump 1 0 False False ?m) s1)"
    using assms(3,5) by (intro ref_uncached) (simp_all add: s1_def)
  have r2: "log_msg_add_ack t ?q po ?s2 = Some (put_msg ?q (bump 0 1 False False self) ?s2)"
    using assms(3,4) by (intro add_ack_uncached) (simp_all add: s1_def)
  have r: "log_msg_clone_cow t p po s = Some (?q, ?s3)"
    using assms(1,4) n r1 r2
    by (simp add: log_msg_clone_cow_def log_msg_alloc_def Let_def f_def [symmetric] s1_def [symmetric]
        self_def [symmetric]) (simp add: self1_def c_def)
  have "lm_value self = REF_TO_VALUE 1 + ACK_TO_VALUE 0 + ABORT_TO_VALUE 0" by (simp add: self_def)
  note v = one_ref_counts [OF this]
  have "msg_refs self1 = 1" "msg_acks self1 = 1" "\<not> abort_flag self1" "\<not> suspend_flag self1"
    using v by (simp_all add: self1_def bump_counts)
  then have c: "fresh_clone ?q p ?s3 c"
    by (simp add: fresh_clone_def c_def) (simp add: self1_def self_def)
  show thesis
    by (rule that [OF r c]) (use n in \<open>auto simp: s1_def\<close>)
qed

lemma release_simps [simp]:
  "ms_heap (release_parts c s) = ms_heap s" "ms_tls (release_parts c s) = ms_tls s"
  "ms_acked (release_parts c s) = ms_acked s"
  "ms_heap (drop_msg q s) = (ms_heap s)(q := None)" "ms_acked (drop_msg q s) = ms_acked s"
  by (simp_all add: release_parts_def drop_msg_def)

lemma drop_clone:
  assumes "fresh_clone q p s c" and "ms_heap s p = Some m" and "p \<noteq> q" and "logmsg_current (ms_tls s t) = None"
    and "po_ack_needed po" and "1 < msg_refs m" and "msg_acks m \<noteq> 1"
  obtains s' where "log_msg_drop t q po ty s = Some s'"
    "ms_heap s' = (ms_heap s)(q := None,
       p \<mapsto> bump (- 1) 0 False False (bump 0 (- 1) (ty = AT_ABORTED) (ty = AT_SUSPENDED) m))"
    "ms_acked s' = ms_acked s"
proof -
  let ?ab = "ty = AT_ABORTED" and ?su = "ty = AT_SUSPENDED" and ?ty = "last_ack_type ty (lm_value c)"
  let ?c1 = "bump 0 (- 1) ?ab ?su c" and ?m1 = "bump 0 (- 1) ?ab ?su m"
  let ?s1 = "put_msg p ?m1 (put_msg q ?c1 s)"
  let ?c2 = "bump (- 1) 0 False False ?c1" and ?m2 = "bump (- 1) 0 False False ?m1"
  let ?s2 = "release_parts ?c2 (put_msg q ?c2 ?s1)"
  note c = assms(1) [unfolded fresh_clone_def]
  have ty: "(?ty = AT_ABORTED) = ?ab" "(?ty = AT_SUSPENDED) = ?su"
    using c by (auto simp: last_ack_type_def to_acktype flags_type_def)
  have "log_msg_ack t p ack_path ?ty (put_msg q ?c1 s) = Some ?s1"
    using assms(2,3,4,7) ack_uncached_more [of "put_msg q ?c1 s" p m t ack_path ?ty] ty
    by (simp add: ack_path_def)
  then have ack: "log_msg_ack t q po ty s = Some ?s1"
    using c assms(4,5)
    by (simp add: log_msg_ack_unfold [of t q] update_bump [of s q c _ 0 _ "- 1"] count_tests
        call_ack_func_def log_msg_clone_ack_def)
  have c1: "msg_refs ?c1 = 1" using c by (simp add: bump_counts)
  have m1: "1 < msg_refs ?m1" using assms(6) count_bounds [of m] by (simp add: bump_counts)
  have "log_msg_unref t p ?s2 = Some (put_msg p ?m2 ?s2)"
    using assms(3,4) m1 by (intro unref_uncached_more) simp_all
  then have "log_msg_unref t q ?s1 = Some (drop_msg q (put_msg p ?m2 ?s2))"
    using c c1 assms(3,4)
    by (simp add: log_msg_unref_unfold [of t q] log_msg_update_ack_and_ref_def
        update_bump [of ?s1 q ?c1 _ "- 1" _ 0] count_tests log_msg_free_def)
  then have "log_msg_drop t q po ty s = Some (drop_msg q (put_msg p ?m2 ?s2))"
    using ack by (simp add: log_msg_drop_def)
  then show thesis by (rule that) (use assms(3) in auto)
qed


text \<open>A message with the given counter and number of queue nodes, alone in the store.\<close>

definition demo_message :: "u32 \<Rightarrow> u8 \<Rightarrow> log_message" where
  "demo_message v nodes = \<lparr>lm_value = v, lm_ack_func = Some Log_source_msg_ack, lm_original = None,
     lm_tags = None, lm_sdata = None, lm_saddr = None, lm_payload = Some 0, lm_flags = LF_STATE_OWN_MASK,
     lm_num_tags = 0, lm_num_nodes = nodes, lm_cur_node = 0, lm_space = int (unat nodes)\<rparr>"

definition demo_state :: "u32 \<Rightarrow> msg_state" where
  "demo_state v = put_msg 0 (demo_message v 1) (idle_state\<lparr>ms_next := 1\<rparr>)"

lemma demo_state_simps [simp]:
  "ms_heap (demo_state v) = [0 \<mapsto> demo_message v 1]" "ms_next (demo_state v) = 1"
  "ms_tls (demo_state v) t = idle_tls" "ms_acked (demo_state v) = []"
  by (simp_all add: demo_state_def put_msg_def idle_state_def)

lemmas demo_counts = msg_refs_def msg_acks_def abort_flag_def suspend_flag_def VALUE_TO_REF_def
  VALUE_TO_ACK_def VALUE_TO_ABORT_def VALUE_TO_SUSPEND_def mask_defs demo_message_def


subsection \<open>The type of the last acknowledgement\<close>

text \<open>
  C37: An acknowledgement of type aborted hides an earlier suspension.  When the
  message was already marked as suspended and the last acknowledgement is
  given as aborted, the source is told that the message was aborted; the
  same two acknowledgements in the other order are reported as suspended.
\<close>
theorem abort_hides_suspension:
  assumes "ms_heap s p = Some m" and "\<not> cached t p s" and "po_ack_needed po" and "lm_original m = None"
    and "lm_ack_func m = Some Log_source_msg_ack" and "1 \<le> msg_refs m" and "msg_acks m = 2"
  shows "\<exists>s1 s2. log_msg_ack t p po AT_SUSPENDED s \<bind> log_msg_ack t p po AT_ABORTED = Some s1 \<and>
    log_msg_ack t p po AT_ABORTED s \<bind> log_msg_ack t p po AT_SUSPENDED = Some s2 \<and>
    ms_acked s1 = ms_acked s @ [(p, AT_ABORTED)] \<and> ms_acked s2 = ms_acked s @ [(p, AT_SUSPENDED)]"
proof -
  have last: "\<exists>s'. log_msg_ack t p po ty (put_msg p m' s) = Some s' \<and> ms_acked s' = ms_acked s @ [(p, ty)]"
    if "ty = AT_ABORTED \<or> ty = AT_SUSPENDED" and m': "m' = bump 0 (- 1) ab su m" for ty m' ab su
  proof -
    have c: "msg_acks m' = 1" "1 \<le> msg_refs m'" "lm_original m' = None" "lm_ack_func m' = Some Log_source_msg_ack"
      using assms(4-7) count_bounds [of m] by (simp_all add: m' bump_counts)
    let ?m = "bump 0 (- 1) (ty = AT_ABORTED) (ty = AT_SUSPENDED) m'"
    let ?s = "(put_msg p ?m (put_msg p m' s))\<lparr>ms_acked := ms_acked s @ [(p, ty)]\<rparr>"
    have "1 \<le> msg_refs ?m" using c(2) count_bounds [of m'] by (simp add: bump_counts)
    then obtain s' where s': "log_msg_unref t p ?s = Some s'" "ms_acked s' = ms_acked ?s"
      by (rule unref_uncached [of ?s p ?m t, rotated 2]) (use assms(2) c(3) in simp_all)
    have "log_msg_ack t p po ty (put_msg p m' s) = log_msg_unref t p ?s"
      using assms(2,3) c that(1)
      by (auto simp: log_msg_ack_unfold [of t p] update_bump [of "put_msg p m' s" p m' _ 0 _ "- 1"] count_tests
          call_ack_func_def log_source_msg_ack_def last_ack_type_def)
    then show ?thesis using s' by simp
  qed
  have first: "log_msg_ack t p po ty s = Some (put_msg p (bump 0 (- 1) (ty = AT_ABORTED) (ty = AT_SUSPENDED) m) s)" for ty
    by (rule ack_uncached_more [OF assms(1-3)]) (simp add: assms(7))
  show ?thesis
    using last [of AT_ABORTED _ False True, OF _ refl] last [of AT_SUSPENDED _ True False, OF _ refl]
    by (auto simp: first)
qed

theorem abort_hides_suspension_witness:
  "\<exists>s1 s2. log_msg_ack 0 0 ack_path AT_SUSPENDED (demo_state 0x10001) \<bind> log_msg_ack 0 0 ack_path AT_ABORTED = Some s1 \<and>
     log_msg_ack 0 0 ack_path AT_ABORTED (demo_state 0x10001) \<bind> log_msg_ack 0 0 ack_path AT_SUSPENDED = Some s2 \<and>
     ms_acked s1 = [(0, AT_ABORTED)] \<and> ms_acked s2 = [(0, AT_SUSPENDED)]"
proof -
  have "msg_refs (demo_message 0x10001 1) = 1" "msg_acks (demo_message 0x10001 1) = 2"
    by (simp_all add: demo_counts)
  then show ?thesis
    using abort_hides_suspension [of "demo_state 0x10001" 0 "demo_message 0x10001 1" 0 ack_path]
    by (simp add: idle_tls_def ack_path_def) (simp add: demo_message_def)
qed

subsection \<open>Space for queue nodes\<close>

text \<open>Operations that neither create messages nor hand out nodes keep the node fields.\<close>

definition same_nodes :: "msg_state \<Rightarrow> msg_state \<Rightarrow> bool" where
  "same_nodes s s' \<longleftrightarrow> logmsg_queue_node_max s' = logmsg_queue_node_max s \<and> ms_next s' = ms_next s \<and>
     (\<forall>p m'. ms_heap s' p = Some m' \<longrightarrow> (\<exists>m. ms_heap s p = Some m \<and>
        lm_num_nodes m' = lm_num_nodes m \<and> lm_space m' = lm_space m))"

lemma same_nodesD:
  "same_nodes s s' \<Longrightarrow> ms_heap s' p = Some m' \<Longrightarrow>
    \<exists>m. ms_heap s p = Some m \<and> lm_num_nodes m' = lm_num_nodes m \<and> lm_space m' = lm_space m"
  by (simp add: same_nodes_def)

lemma same_nodes_refl [simp]: "same_nodes s s"
  by (simp add: same_nodes_def)

lemma same_nodes_trans: "same_nodes s s' \<Longrightarrow> same_nodes s' s'' \<Longrightarrow> same_nodes s s''"
  by (simp add: same_nodes_def) metis

lemma same_nodes_basic [simp]:
  "same_nodes s (put_tls t b s)" "same_nodes s (cache_refs t n s)" "same_nodes s (cache_ack t ty s)"
  "same_nodes s (release_parts m s)" "same_nodes s (drop_msg p s)" "same_nodes s (s\<lparr>ms_acked := x\<rparr>)"
  by (auto simp: same_nodes_def put_tls_def cache_refs_def cache_ack_def release_parts_def drop_msg_def Let_def)

lemma same_nodes_put:
  "ms_heap s p = Some m \<Longrightarrow> lm_num_nodes m' = lm_num_nodes m \<Longrightarrow> lm_space m' = lm_space m \<Longrightarrow>
    same_nodes s (put_msg p m' s)"
  by (auto simp: same_nodes_def put_msg_def)

lemma same_nodes_update:
  "log_msg_update_ack_and_ref_and_abort_and_suspended p r n ab su s = Some (v, s') \<Longrightarrow> same_nodes s s'"
  "log_msg_update_ack_and_ref p r n s = Some (v, s') \<Longrightarrow> same_nodes s s'"
  by (auto simp: log_msg_update_ack_and_ref_def log_msg_update_ack_and_ref_and_abort_and_suspended_def
      bind_eq_Some_conv intro!: same_nodes_put)

lemma same_nodes_release:
  assumes "\<And>q s s'. f q s = Some s' \<Longrightarrow> same_nodes s s'"
    and "(case lm_original self of None \<Rightarrow> Some (release_parts self s) | Some q \<Rightarrow> f q (release_parts self s)) = Some s1"
  shows "same_nodes s (drop_msg p s1)"
proof -
  have "same_nodes (release_parts self s) s1" using assms by (auto split: option.splits)
  then show ?thesis
    by (rule same_nodes_trans [OF same_nodes_trans [OF same_nodes_basic(4)] same_nodes_basic(5)])
qed

lemma same_nodes_unref:
  assumes "log_msg_unref t p s = Some s'"
  shows "same_nodes s s'"
proof (rule log_msg_unref.raw_induct [OF _ assms, where P = "\<lambda>t p s s'. same_nodes s s'"])
  fix f t p s s'
  assume f: "\<And>t p s s'. f t p s = Some s' \<Longrightarrow> same_nodes s s'"
    and body: "(if cached t p s then Some (cache_refs t (- 1) s)
      else do {
        (old_value, s) \<leftarrow> log_msg_update_ack_and_ref p (- 1) 0 s;
        g_assert (1 \<le> VALUE_TO_REF old_value);
        (if VALUE_TO_REF old_value = 1
         then do {
           self \<leftarrow> ms_heap s p;
           let s = release_parts self s;
           s \<leftarrow> (case lm_original self of None \<Rightarrow> Some s | Some original \<Rightarrow> f t original s);
           Some (drop_msg p s)
         }
         else Some s)
      }) = Some s'"
  show "same_nodes s s'"
  proof (cases "cached t p s")
    case False
    with body obtain v s1 where u: "log_msg_update_ack_and_ref p (- 1) 0 s = Some (v, s1)"
      and r: "(if VALUE_TO_REF v = 1 then do {
           self \<leftarrow> ms_heap s1 p;
           let s = release_parts self s1;
           s \<leftarrow> (case lm_original self of None \<Rightarrow> Some s | Some original \<Rightarrow> f t original s);
           Some (drop_msg p s) } else Some s1) = Some s'"
      by (auto simp: bind_eq_Some_conv)
    have "same_nodes s1 s'"
    proof (cases "VALUE_TO_REF v = 1")
      case True
      then obtain self s2 where e: "(case lm_original self of None \<Rightarrow> Some (release_parts self s1)
          | Some q \<Rightarrow> f t q (release_parts self s1)) = Some s2" and s': "s' = drop_msg p s2"
        using r by (auto simp: bind_eq_Some_conv Let_def)
      show ?thesis unfolding s' by (rule same_nodes_release [where f = "f t", OF _ e]) (rule f)
    qed (use r in simp)
    then show ?thesis by (rule same_nodes_trans [OF same_nodes_update(2) [OF u]])
  qed (use body in auto)
qed

lemma same_nodes_free: "log_msg_free t p s = Some s' \<Longrightarrow> same_nodes s s'"
  by (auto simp: log_msg_free_def bind_eq_Some_conv Let_def
      intro: same_nodes_release [of "log_msg_unref t"] same_nodes_unref)

lemma same_nodes_ref: "log_msg_ref t p s = Some s' \<Longrightarrow> same_nodes s s'"
  by (auto simp: log_msg_ref_def bind_eq_Some_conv split: if_splits intro: same_nodes_update)

lemma same_nodes_add_ack: "log_msg_add_ack t p po s = Some s' \<Longrightarrow> same_nodes s s'"
  by (auto simp: log_msg_add_ack_def split: if_splits intro: same_nodes_update)

lemma same_nodes_source_ack: "log_source_msg_ack t p ty s = Some s' \<Longrightarrow> same_nodes s s'"
  unfolding log_source_msg_ack_def by (drule same_nodes_unref) (rule same_nodes_trans [OF same_nodes_basic(6)])

lemma ack_func_neq [simp]: "x \<noteq> Log_source_msg_ack \<longleftrightarrow> x = Log_msg_clone_ack"
  by (cases x) simp_all

lemma same_nodes_ack:
  assumes "log_msg_ack t p po ty s = Some s'"
  shows "same_nodes s s'"
proof (rule log_msg_ack.raw_induct [OF _ assms, where P = "\<lambda>t p po ty s s'. same_nodes s s'"])
  fix f t p po ty s s'
  assume f: "\<And>t p po ty s s'. f t p po ty s = Some s' \<Longrightarrow> same_nodes s s'"
    and body: "(if po_ack_needed po
      then if cached t p s then Some (cache_ack t ty s)
      else do {
        (old_value, s) \<leftarrow> log_msg_update_ack_and_ref_and_abort_and_suspended p 0 (- 1)
           (ty = AT_ABORTED) (ty = AT_SUSPENDED) s;
        (if VALUE_TO_ACK old_value = 1
         then do {
           self \<leftarrow> ms_heap s p;
           ack_func \<leftarrow> lm_ack_func self;
           (case ack_func of
              Log_source_msg_ack \<Rightarrow> log_source_msg_ack t p (last_ack_type ty old_value) s
            | Log_msg_clone_ack \<Rightarrow> do {
                original \<leftarrow> lm_original self;
                f t original ack_path (last_ack_type ty old_value) s
              })
         }
         else Some s)
      }
      else Some s) = Some s'"
  show "same_nodes s s'"
  proof (cases "po_ack_needed po \<and> \<not> cached t p s")
    case True
    with body obtain v s1 where u: "log_msg_update_ack_and_ref_and_abort_and_suspended p 0 (- 1)
           (ty = AT_ABORTED) (ty = AT_SUSPENDED) s = Some (v, s1)"
      and r: "VALUE_TO_ACK v \<noteq> 1 \<and> s1 = s' \<or> log_source_msg_ack t p (last_ack_type ty v) s1 = Some s' \<or>
         (\<exists>q. f t q ack_path (last_ack_type ty v) s1 = Some s')"
      by (fastforce simp: bind_eq_Some_conv split: if_splits ack_func.splits)
    from r have "same_nodes s1 s'" using f same_nodes_source_ack by auto
    then show ?thesis by (rule same_nodes_trans [OF same_nodes_update(1) [OF u]])
  qed (use body in \<open>auto split: if_splits\<close>)
qed

lemma same_nodes_call: "call_ack_func t p ty s = Some s' \<Longrightarrow> same_nodes s s'"
  by (auto simp: call_ack_func_def log_msg_clone_ack_def bind_eq_Some_conv split: ack_func.splits
      intro: same_nodes_ack same_nodes_source_ack)

lemma same_nodes_fold_acks:
  assumes "fold_cached_acks t p s = Some s'"
  shows "same_nodes s s'"
proof -
  obtain b v s1 where "log_msg_update_ack_and_ref_and_abort_and_suspended p 0 (logmsg_cached_acks (ms_tls s t))
      (logmsg_cached_abort (ms_tls s t)) (logmsg_cached_suspend (ms_tls s t)) (put_tls t b s) = Some (v, s1)"
    and r: "s1 = s' \<or> (\<exists>ty. call_ack_func t p ty s1 = Some s')"
    using assms by (auto simp: fold_cached_acks_def Let_def bind_eq_Some_conv split: if_splits)
  then have "same_nodes s s1" by (intro same_nodes_trans [OF same_nodes_basic(1) same_nodes_update(1)])
  moreover have "same_nodes s1 s'" using r same_nodes_call by auto
  ultimately show ?thesis by (rule same_nodes_trans)
qed

lemma same_nodes_fold_refs:
  assumes "fold_cached_refs t p s = Some s'"
  shows "same_nodes s s'"
proof -
  obtain v s1 s2 b where u: "log_msg_update_ack_and_ref p (logmsg_cached_refs (ms_tls s t)) 0 s = Some (v, s1)"
    and r: "s2 = s1 \<or> log_msg_free t p s1 = Some s2" and s': "s' = put_tls t b s2"
    using assms by (auto simp: fold_cached_refs_def Let_def bind_eq_Some_conv split: if_splits)
  have "same_nodes s1 s2" using r same_nodes_free by auto
  then show ?thesis unfolding s'
    by (rule same_nodes_trans [OF same_nodes_trans [OF same_nodes_update(2) [OF u]] same_nodes_basic(1)])
qed

lemma same_nodes_stop:
  assumes "log_msg_refcache_stop t s = Some s'"
  shows "same_nodes s s'"
proof -
  from assms obtain p s1 s2 s3 where "log_msg_ref t p s = Some s1" "fold_cached_acks t p s1 = Some s2"
    "log_msg_unref t p s2 = Some s3" "fold_cached_refs t p s3 = Some s'"
    by (auto simp: log_msg_refcache_stop_def bind_eq_Some_conv)
  then show ?thesis
    using same_nodes_ref same_nodes_fold_acks same_nodes_unref same_nodes_fold_refs
    by (blast intro: same_nodes_trans)
qed

lemma same_nodes_track:
  assumes "log_source_track t p s = Some s'"
  shows "same_nodes s s'"
proof -
  obtain s1 s2 m where s1: "log_msg_ref t p s = Some s1" and s2: "log_msg_add_ack t p ack_path s1 = Some s2"
    and m: "ms_heap s2 p = Some m" and s': "s' = put_msg p (m\<lparr>lm_ack_func := Some Log_source_msg_ack\<rparr>) s2"
    using assms by (auto simp: log_source_track_def bind_eq_Some_conv)
  have "same_nodes s2 s'" unfolding s' by (rule same_nodes_put [OF m]) simp_all
  then show ?thesis
    by (rule same_nodes_trans [OF same_nodes_trans [OF same_nodes_ref [OF s1] same_nodes_add_ack [OF s2]]])
qed

lemma same_nodes_start_producer:
  assumes "log_msg_refcache_start_producer t p s = Some s'"
  shows "same_nodes s s'"
proof -
  obtain m v b where m: "ms_heap s p = Some m" and s': "s' = put_tls t b (put_msg p (m\<lparr>lm_value := v\<rparr>) s)"
    using assms by (auto simp: log_msg_refcache_start_producer_def bind_eq_Some_conv Let_def)
  have "same_nodes s (put_msg p (m\<lparr>lm_value := v\<rparr>) s)" by (rule same_nodes_put [OF m]) simp_all
  then show ?thesis unfolding s' by (rule same_nodes_trans [OF _ same_nodes_basic(1)])
qed

lemma same_nodes_life: "life_exec p op s = Some s' \<Longrightarrow> same_nodes s s'"
  by (cases op) (auto simp: log_msg_refcache_start_consumer_def
    intro: same_nodes_ref same_nodes_unref same_nodes_add_ack same_nodes_ack same_nodes_stop
      same_nodes_track same_nodes_start_producer)

text \<open>
  The operations that create messages and hand out nodes, and all the others;
  \<open>N_dynamic\<close> and \<open>N_alloc\<close> allocate a queue node for the message.
\<close>

datatype node_op =
    N_new
  | N_clone nat nat path_options
  | N_alloc nat nat path_options
  | N_dynamic nat nat path_options
  | N_life nat life_op

fun node_exec :: "node_op \<Rightarrow> msg_state \<Rightarrow> msg_state option" where
  "node_exec N_new s = map_option snd (log_msg_new_empty s)"
| "node_exec (N_clone t p po) s = map_option snd (log_msg_clone_cow t p po s)"
| "node_exec (N_alloc t p po) s = map_option (snd \<circ> snd) (log_msg_alloc_queue_node t p po s)"
| "node_exec (N_dynamic t p po) s = map_option (snd \<circ> snd) (log_msg_alloc_dynamic_queue_node t p po s)"
| "node_exec (N_life p op) s = life_exec p op s"

primrec node_run :: "node_op list \<Rightarrow> msg_state \<Rightarrow> msg_state option" where
  "node_run [] s = Some s"
| "node_run (op # ops) s = Option.bind (node_exec op s) (node_run ops)"

definition nodes_fit :: "msg_state \<Rightarrow> bool" where
  "nodes_fit s \<longleftrightarrow> 0 \<le> logmsg_queue_node_max s \<and> logmsg_queue_node_max s \<le> 32 \<and>
     (\<forall>p m. ms_heap s p = Some m \<longrightarrow> int (unat (lm_num_nodes m)) \<le> lm_space m \<and>
        int (unat (lm_num_nodes m)) \<le> logmsg_queue_node_max s)"

lemma nodes_fit_same: "nodes_fit s \<Longrightarrow> same_nodes s s' \<Longrightarrow> nodes_fit s'"
  by (fastforce simp: nodes_fit_def same_nodes_def)

lemma nodes_fit_put:
  "nodes_fit s \<Longrightarrow> int (unat (lm_num_nodes m)) \<le> lm_space m \<Longrightarrow>
    int (unat (lm_num_nodes m)) \<le> logmsg_queue_node_max s \<Longrightarrow> nodes_fit (put_msg p m s)"
  by (simp add: nodes_fit_def put_msg_def) (rule order_trans [OF uint_ge_0])

lemma unat_of_nodes: "0 \<le> n \<Longrightarrow> n \<le> 32 \<Longrightarrow> int (unat (of_int n :: u8)) = n"
  by (simp add: unsigned_of_int take_bit_int_eq_self)

lemma nodes_fit_alloc:
  assumes "nodes_fit s" and "log_msg_alloc b s = (p, s')"
  shows "nodes_fit s'" "\<exists>m. ms_heap s' p = Some m \<and> lm_space m = logmsg_queue_node_max s"
    "logmsg_queue_node_max s' = logmsg_queue_node_max s" "q \<noteq> p \<Longrightarrow> ms_heap s' q = ms_heap s q"
proof -
  have n: "0 \<le> logmsg_queue_node_max s" "logmsg_queue_node_max s \<le> 32" using assms(1) by (simp_all add: nodes_fit_def)
  have "nodes_fit (s\<lparr>ms_next := x\<rparr>)" for x using assms(1) by (simp add: nodes_fit_def)
  then show "nodes_fit s'"
    using assms(2) unat_of_nodes [OF n] by (auto simp: log_msg_alloc_def Let_def intro!: nodes_fit_put)
  show "\<exists>m. ms_heap s' p = Some m \<and> lm_space m = logmsg_queue_node_max s"
    "logmsg_queue_node_max s' = logmsg_queue_node_max s" "q \<noteq> p \<Longrightarrow> ms_heap s' q = ms_heap s q"
    using assms(2) by (auto simp: log_msg_alloc_def Let_def put_msg_def)
qed

lemma clone_parts:
  assumes "log_msg_clone_cow t p po s = Some (q, s')"
  obtains s1 f m s2 s3 self x y where "log_msg_alloc False s = (q, s1)" "ms_heap s1 q = Some f" "ms_heap s1 p = Some m"
    "log_msg_ref t p (put_msg p (log_msg_set_flag m LF_STATE_REFERENCED) s1) = Some s2"
    "log_msg_add_ack t q po (put_msg q ((log_msg_set_flag m LF_STATE_REFERENCED)\<lparr>lm_space := lm_space f,
       lm_original := Some p, lm_value := REF_TO_VALUE 1 + ACK_TO_VALUE 0 + ABORT_TO_VALUE 0, lm_cur_node := 0\<rparr>) s2) = Some s3"
    "ms_heap s3 q = Some self"
    "s' = put_msg q (if lm_num_tags self = 0 then log_msg_set_flag (self\<lparr>lm_ack_func := x, lm_flags := y\<rparr>) LF_STATE_OWN_TAGS
       else self\<lparr>lm_ack_func := x, lm_flags := y\<rparr>) s3"
proof -
  obtain s1 where "log_msg_alloc False s = (q, s1)" using assms
    by (cases "log_msg_alloc False s") (auto simp: log_msg_clone_cow_def bind_eq_Some_conv Let_def)
  then show thesis
    using assms that by (auto simp: log_msg_clone_cow_def bind_eq_Some_conv Let_def)
qed

lemma nodes_fit_clone:
  assumes "nodes_fit s" and "log_msg_clone_cow t p po s = Some (q, s')"
  shows "nodes_fit s'"
  using assms(2)
proof (rule clone_parts)
  fix s1 f m s2 s3 self x y
  assume a: "log_msg_alloc False s = (q, s1)" and f: "ms_heap s1 q = Some f" and m: "ms_heap s1 p = Some m"
    and s2: "log_msg_ref t p (put_msg p (log_msg_set_flag m LF_STATE_REFERENCED) s1) = Some s2"
    and s3: "log_msg_add_ack t q po (put_msg q ((log_msg_set_flag m LF_STATE_REFERENCED)\<lparr>lm_space := lm_space f,
       lm_original := Some p, lm_value := REF_TO_VALUE 1 + ACK_TO_VALUE 0 + ABORT_TO_VALUE 0, lm_cur_node := 0\<rparr>) s2) = Some s3"
    and self: "ms_heap s3 q = Some self"
    and s': "s' = put_msg q (if lm_num_tags self = 0 then log_msg_set_flag (self\<lparr>lm_ack_func := x, lm_flags := y\<rparr>) LF_STATE_OWN_TAGS
       else self\<lparr>lm_ack_func := x, lm_flags := y\<rparr>) s3"
  note alloc = nodes_fit_alloc [OF assms(1) a]
  have mf: "int (unat (lm_num_nodes m)) \<le> lm_space m" "int (unat (lm_num_nodes m)) \<le> logmsg_queue_node_max s"
    using alloc(1,3) m by (auto simp: nodes_fit_def)
  let ?m = "log_msg_set_flag m LF_STATE_REFERENCED"
  have "nodes_fit (put_msg p ?m s1)"
    using alloc(1,3) mf by (intro nodes_fit_put) (simp_all add: log_msg_set_flag_def)
  then have fit2: "nodes_fit s2" by (rule nodes_fit_same [OF _ same_nodes_ref [OF s2]])
  have "logmsg_queue_node_max s2 = logmsg_queue_node_max s"
    using same_nodes_ref [OF s2] alloc(3) by (simp add: same_nodes_def put_msg_def)
  then have "nodes_fit s3"
    using fit2 mf alloc(2) f by (intro nodes_fit_same [OF _ same_nodes_add_ack [OF s3]] nodes_fit_put) (auto simp: log_msg_set_flag_def)
  then show "nodes_fit s'" unfolding s' using self
    by (intro nodes_fit_put) (auto simp: nodes_fit_def log_msg_set_flag_def)
qed

lemma clone_nodes:
  assumes "log_msg_clone_cow t p po s = Some (q, s')" and "ms_heap s p = Some m" and "p < ms_next s"
  shows "\<exists>c. ms_heap s' q = Some c \<and> lm_num_nodes c = lm_num_nodes m \<and> lm_space c = logmsg_queue_node_max s"
  using assms(1)
proof (rule clone_parts)
  fix s1 f m' s2 s3 self x y
  assume a: "log_msg_alloc False s = (q, s1)" and f: "ms_heap s1 q = Some f" and m': "ms_heap s1 p = Some m'"
    and s3: "log_msg_add_ack t q po (put_msg q ((log_msg_set_flag m' LF_STATE_REFERENCED)\<lparr>lm_space := lm_space f,
       lm_original := Some p, lm_value := REF_TO_VALUE 1 + ACK_TO_VALUE 0 + ABORT_TO_VALUE 0, lm_cur_node := 0\<rparr>) s2) = Some s3"
    and self: "ms_heap s3 q = Some self"
    and s': "s' = put_msg q (if lm_num_tags self = 0 then log_msg_set_flag (self\<lparr>lm_ack_func := x, lm_flags := y\<rparr>) LF_STATE_OWN_TAGS
       else self\<lparr>lm_ack_func := x, lm_flags := y\<rparr>) s3"
  have "m' = m" "lm_space f = logmsg_queue_node_max s"
    using a f m' assms(2,3) by (auto simp: log_msg_alloc_def Let_def put_msg_def)
  moreover have "lm_num_nodes self = lm_num_nodes m'" "lm_space self = lm_space f"
    using same_nodesD [OF same_nodes_add_ack [OF s3] self] by (auto simp: log_msg_set_flag_def)
  ultimately show ?thesis by (simp add: s' log_msg_set_flag_def)
qed

lemma nodes_fit_init_node:
  assumes "nodes_fit s" and "init_queue_node t p s = Some s'"
  shows "nodes_fit s'"
proof -
  obtain s1 m where s1: "log_msg_ref t p s = Some s1" and m: "ms_heap s1 p = Some m"
    and s': "s' = put_msg p (log_msg_set_flag m LF_STATE_REFERENCED) s1"
    using assms(2) by (auto simp: init_queue_node_def bind_eq_Some_conv)
  have "nodes_fit s1" by (rule nodes_fit_same [OF assms(1) same_nodes_ref [OF s1]])
  then show ?thesis unfolding s' using m
    by (intro nodes_fit_put) (auto simp: nodes_fit_def log_msg_set_flag_def)
qed

lemma nodes_fit_grow:
  assumes "nodes_fit s" and "int (unat (lm_num_nodes m)) \<le> logmsg_queue_node_max s"
  shows "nodes_fit (grow_node_max (logmsg_queue_node_max s) m s)"
proof (cases "logmsg_queue_node_max s < 32 \<and> logmsg_queue_node_max s \<le> int (unat (lm_num_nodes m))")
  case True
  then have n: "int (unat (lm_num_nodes m)) = logmsg_queue_node_max s" using assms(2) by linarith
  have "nodes_fit (s\<lparr>logmsg_queue_node_max := logmsg_queue_node_max s + 1\<rparr>)"
    using assms(1) True unfolding nodes_fit_def by (simp add: add_increasing2 del: of_nat_unat)
  then show ?thesis using True n by (simp add: grow_node_max_def del: of_nat_unat)
next
  case False
  then show ?thesis using assms(1) by (auto simp: grow_node_max_def)
qed

lemma nodes_fit_exec:
  assumes "nodes_fit s" and "node_exec op s = Some s'"
  shows "nodes_fit s'"
proof (cases op)
  case N_new
  obtain p s1 where a: "log_msg_alloc True s = (p, s1)" by (cases "log_msg_alloc True s")
  note alloc = nodes_fit_alloc [OF assms(1) a]
  from alloc(2) obtain m where m: "ms_heap s1 p = Some m" by blast
  have s': "s' = put_msg p (log_msg_init None m) s1"
    using assms(2) N_new a m by (simp add: log_msg_new_empty_def)
  have "int (unat (lm_num_nodes m)) \<le> lm_space m" "int (unat (lm_num_nodes m)) \<le> logmsg_queue_node_max s1"
    using alloc(1) m by (auto simp: nodes_fit_def)
  then show ?thesis unfolding s' by (intro nodes_fit_put alloc(1)) (simp_all add: log_msg_init_def)
next
  case (N_clone t p po)
  then show ?thesis using assms nodes_fit_clone by auto
next
  case (N_alloc t p po)
  then obtain m where m: "ms_heap s p = Some m"
    and r: "init_queue_node t p (if lm_cur_node m < lm_num_nodes m
      then put_msg p (m\<lparr>lm_cur_node := lm_cur_node m + 1\<rparr>) s else grow_node_max (logmsg_queue_node_max s) m s) = Some s'"
    using assms(2) by (auto simp: log_msg_alloc_queue_node_def bind_eq_Some_conv split: if_splits)
  have fit: "int (unat (lm_num_nodes m)) \<le> lm_space m" "int (unat (lm_num_nodes m)) \<le> logmsg_queue_node_max s"
    using assms(1) m by (auto simp: nodes_fit_def)
  have "nodes_fit (grow_node_max (logmsg_queue_node_max s) m s)" using assms(1) fit(2) by (rule nodes_fit_grow)
  moreover have "nodes_fit (put_msg p (m\<lparr>lm_cur_node := lm_cur_node m + 1\<rparr>) s)"
    using assms(1) fit by (intro nodes_fit_put) simp_all
  ultimately show ?thesis using nodes_fit_init_node [OF _ r] by (simp split: if_splits)
next
  case (N_dynamic t p po)
  then show ?thesis
    using assms nodes_fit_init_node by (auto simp: log_msg_alloc_dynamic_queue_node_def bind_eq_Some_conv)
next
  case (N_life p op)
  then show ?thesis using assms nodes_fit_same same_nodes_life by simp
qed

lemma nodes_fit_run: "nodes_fit s \<Longrightarrow> node_run ops s = Some s' \<Longrightarrow> nodes_fit s'"
  by (induction ops arbitrary: s) (auto simp: bind_eq_Some_conv intro: nodes_fit_exec)


definition nodes_demo :: "node_op list" where
  "nodes_demo = [N_new, N_alloc 0 0 ack_path, N_clone 0 0 ack_path]"


text \<open>
  C35: A lost update of the node limit overflows a clone.  A thread that read
  the limit before other threads raised it writes back a smaller value than
  the number of nodes of an existing message; a clone of that message then
  claims more embedded nodes than it has space for.
\<close>
theorem stale_node_limit_overflows_clone:
  assumes "ms_heap s p = Some m" and "p < ms_next s" and "nodes < 32" and "nodes \<le> int (unat (lm_num_nodes m'))"
    and "unat (lm_num_nodes m') + 1 < unat (lm_num_nodes m)"
    and "log_msg_clone_cow t p po (grow_node_max nodes m' s) = Some (q, s')"
  shows "\<exists>c. ms_heap s' q = Some c \<and> lm_space c < int (unat (lm_num_nodes c))"
proof -
  let ?s = "grow_node_max nodes m' s"
  have "ms_heap ?s p = Some m" "p < ms_next ?s" "logmsg_queue_node_max ?s = int (unat (lm_num_nodes m')) + 1"
    using assms(1-4) by (auto simp: grow_node_max_def)
  then show ?thesis using clone_nodes [OF assms(6)] assms(5) by (auto simp del: of_nat_unat)
qed

theorem stale_node_limit_overflows_clone_witness:
  "\<exists>q s' c. log_msg_clone_cow 0 0 ack_path (grow_node_max 1 (demo_message 1 1)
       ((put_msg 0 (demo_message 1 3) (idle_state\<lparr>ms_next := 1\<rparr>))\<lparr>logmsg_queue_node_max := 3\<rparr>)) = Some (q, s') \<and>
     ms_heap s' q = Some c \<and> lm_space c < int (unat (lm_num_nodes c))"
proof -
  let ?s = "(put_msg 0 (demo_message 1 3) (idle_state\<lparr>ms_next := 1\<rparr>))\<lparr>logmsg_queue_node_max := 3\<rparr>"
  have "log_msg_clone_cow 0 0 ack_path (grow_node_max 1 (demo_message 1 1) ?s) \<noteq> None"
    by code_simp
  then obtain q s' where r: "log_msg_clone_cow 0 0 ack_path (grow_node_max 1 (demo_message 1 1) ?s) = Some (q, s')"
    by auto
  have "ms_heap ?s 0 = Some (demo_message 1 3)" by simp
  from stale_node_limit_overflows_clone [OF this _ _ _ _ r]
  have "\<exists>c. ms_heap s' q = Some c \<and> lm_space c < int (unat (lm_num_nodes c))"
    by (simp add: demo_message_def put_msg_def)
  then show ?thesis using r by blast
qed

end
