(* ===== verification/Rcptid.thy ===== *)
theory Rcptid
  imports Prelude
begin

text \<open>
  Receipt identifiers of messages (end of lib/logmsg.c): the counter that is
  kept in the persist file, its restoration at startup and the handing out of
  identifiers.  The entry of the persist file is an optional record; its
  counter is the number the host reads from the mapped memory.
\<close>

record rcptid_entry =
  re_version :: u8
  re_big_endian :: bool
  re_rcptid :: u64

record rcptid_globals =
  rg_state_set :: bool
  rg_entry :: "rcptid_entry option"
  rg_version :: u8
  rg_big_endian :: bool
  rg_rcptid :: u64

text \<open>\<open>GUINT64_SWAP_LE_BE\<close>\<close>

definition swap64 :: "u64 \<Rightarrow> u64" where
  "swap64 w = foldr (OR) (map (\<lambda>i. push_bit (8 * (7 - i)) (take_bit 8 (drop_bit (8 * i) w))) [0..<8]) 0"

text \<open>
  \<open>log_msg_init_rcptid\<close>: restore the counter from the entry of the persist file, or
  create the entry; \<open>host_big\<close> is the byte order of the host.
\<close>

definition log_msg_init_rcptid :: "bool \<Rightarrow> rcptid_globals \<Rightarrow> bool \<times> rcptid_globals" where
  "log_msg_init_rcptid host_big g =
     (let g = g\<lparr>rg_state_set := True\<rparr>
      in case rg_entry g of
           Some data \<Rightarrow>
             if re_version data > 0 then (False, g)
             else let data = (if re_big_endian data \<and> \<not> host_big \<or> \<not> re_big_endian data \<and> host_big
                     then data\<lparr>re_big_endian := \<not> re_big_endian data, re_rcptid := swap64 (re_rcptid data)\<rparr>
                     else data)
                  in (True, g\<lparr>rg_entry := Some data, rg_version := 0,
                        rg_big_endian := re_big_endian data, rg_rcptid := re_rcptid data\<rparr>)
         | None \<Rightarrow>
             (True, g\<lparr>rg_entry := Some \<lparr>re_version = 0, re_big_endian = host_big, re_rcptid = 1\<rparr>,
                rg_version := 0, rg_big_endian := host_big, rg_rcptid := 1\<rparr>))"

definition log_msg_deinit_rcptid :: "rcptid_globals \<Rightarrow> rcptid_globals" where
  "log_msg_deinit_rcptid g = (if rg_state_set g then g\<lparr>rg_state_set := False\<rparr> else g)"

text \<open>The identifier given to the message, if any; mapping a missing entry is an abort.\<close>

definition log_msg_create_rcptid :: "rcptid_globals \<Rightarrow> (u64 option \<times> rcptid_globals) option" where
  "log_msg_create_rcptid g =
     (if rg_state_set g
      then do {
        data \<leftarrow> rg_entry g;
        let next = rg_rcptid g + 1;
        let next = (if next = 0 then next + 1 else next);
        Some (Some (rg_rcptid g), g\<lparr>rg_rcptid := next, rg_entry := Some (data\<lparr>re_rcptid := next\<rparr>)\<rparr>)
      }
      else Some (None, g))"

text \<open>A run of the program: identifiers are created, and the program is restarted.\<close>

datatype rcptid_op = Create | Restart

fun rcptid_exec :: "bool \<Rightarrow> rcptid_op \<Rightarrow> rcptid_globals \<Rightarrow> (u64 list \<times> rcptid_globals) option" where
  "rcptid_exec host_big Create g = do {
     (i, g) \<leftarrow> log_msg_create_rcptid g;
     Some (case i of None \<Rightarrow> [] | Some i \<Rightarrow> [i], g)
   }"
| "rcptid_exec host_big Restart g = do {
     let (ok, g) = log_msg_init_rcptid host_big ((log_msg_deinit_rcptid g)\<lparr>rg_rcptid := 0\<rparr>);
     g_assert ok;
     Some ([], g)
   }"

fun rcptid_run :: "bool \<Rightarrow> rcptid_op list \<Rightarrow> rcptid_globals \<Rightarrow> (u64 list \<times> rcptid_globals) option" where
  "rcptid_run host_big [] g = Some ([], g)"
| "rcptid_run host_big (op # ops) g = do {
     (is, g) \<leftarrow> rcptid_exec host_big op g;
     (js, g) \<leftarrow> rcptid_run host_big ops g;
     Some (is @ js, g)
   }"

definition fresh_globals :: rcptid_globals where
  "fresh_globals = \<lparr>rg_state_set = False, rg_entry = None, rg_version = 0, rg_big_endian = False, rg_rcptid = 0\<rparr>"

definition next_rcptid :: "u64 \<Rightarrow> u64" where
  "next_rcptid i = (if i + 1 = 0 then 1 else i + 1)"

text \<open>The counter is initialised, and the persist file holds the same number.\<close>

definition rcptid_inv :: "bool \<Rightarrow> rcptid_globals \<Rightarrow> bool" where
  "rcptid_inv host_big g = (rg_state_set g \<and> rg_rcptid g \<noteq> 0 \<and>
     (\<exists>v. rg_entry g = Some \<lparr>re_version = 0, re_big_endian = host_big, re_rcptid = v\<rparr> \<and> v = rg_rcptid g))"

lemma rcptid_create:
  assumes "rcptid_inv b g"
  obtains g' where "rcptid_exec b Create g = Some ([rg_rcptid g], g')" "rcptid_inv b g'"
    "rg_rcptid g' = next_rcptid (rg_rcptid g)"
proof -
  let ?n = "next_rcptid (rg_rcptid g)"
  have "rcptid_exec b Create g = Some ([rg_rcptid g],
      g\<lparr>rg_rcptid := ?n, rg_entry := Some \<lparr>re_version = 0, re_big_endian = b, re_rcptid = ?n\<rparr>\<rparr>)"
    using assms by (auto simp: log_msg_create_rcptid_def rcptid_inv_def next_rcptid_def Let_def)
  then show thesis
    by (rule that) (use assms in \<open>auto simp: rcptid_inv_def next_rcptid_def\<close>)
qed

lemma rcptid_restart:
  assumes "rcptid_inv b g"
  obtains g' where "rcptid_exec b Restart g = Some ([], g')" "rcptid_inv b g'" "rg_rcptid g' = rg_rcptid g"
proof -
  have "rcptid_exec b Restart g = Some ([], g\<lparr>rg_version := 0, rg_big_endian := b\<rparr>)"
    using assms by (auto simp: log_msg_init_rcptid_def log_msg_deinit_rcptid_def rcptid_inv_def Let_def)
  then show thesis
    by (rule that) (use assms in \<open>auto simp: rcptid_inv_def\<close>)
qed

definition creates :: "rcptid_op list \<Rightarrow> nat" where
  "creates ops = length (filter (\<lambda>op. op = Create) ops)"

lemma rcptid_run_ids:
  assumes "rcptid_inv b g"
  shows "\<exists>g'. rcptid_run b ops g = Some (map (\<lambda>k. (next_rcptid ^^ k) (rg_rcptid g)) [0..<creates ops], g') \<and>
    rcptid_inv b g' \<and> rg_rcptid g' = (next_rcptid ^^ creates ops) (rg_rcptid g)"
  using assms
proof (induction ops arbitrary: g)
  case Nil
  then show ?case by (simp add: creates_def)
next
  case (Cons op ops)
  show ?case
  proof (cases op)
    case Create
    obtain g1 where g1: "rcptid_exec b Create g = Some ([rg_rcptid g], g1)" "rcptid_inv b g1"
      "rg_rcptid g1 = next_rcptid (rg_rcptid g)" by (rule rcptid_create [OF Cons.prems])
    have n: "creates (op # ops) = Suc (creates ops)" by (simp add: creates_def Create)
    show ?thesis
      using Cons.IH [OF g1(2)] g1 unfolding n
      by (auto simp: Create funpow_swap1 map_upt_Suc simp del: upt_Suc rcptid_exec.simps)
  next
    case Restart
    obtain g1 where "rcptid_exec b Restart g = Some ([], g1)" "rcptid_inv b g1" "rg_rcptid g1 = rg_rcptid g"
      by (rule rcptid_restart [OF Cons.prems])
    then show ?thesis
      using Cons.IH [of g1] by (auto simp: Restart creates_def simp del: rcptid_exec.simps)
  qed
qed

text \<open>The number of identifiers: all 64 bit numbers but 0.\<close>

definition rcptid_count :: nat where
  "rcptid_count = 2 ^ 64 - 1"

lemma unat_le_count: "unat (i :: u64) \<le> rcptid_count"
  using unsigned_less [of i, where ?'a = nat] by (simp add: rcptid_count_def)

lemma unat_next:
  assumes "i \<noteq> 0"
  shows "unat (next_rcptid i) = (if unat i = rcptid_count then 1 else unat i + 1)"
proof (cases "i + 1 = 0")
  case True
  then have "i = - 1" by (simp add: eq_neg_iff_add_eq_0)
  then have "unat i = rcptid_count" by (simp add: rcptid_count_def unsigned_minus_1_eq_mask mask_eq_exp_minus_1)
  then show ?thesis using True by (simp add: next_rcptid_def)
next
  case False
  then have u: "unat (i + 1) = unat i + 1" using unatSuc [of i] by (simp add: add.commute)
  then have "unat i \<noteq> rcptid_count" using unat_le_count [of "i + 1"] by simp
  then show ?thesis using False u by (simp add: next_rcptid_def)
qed

lemma next_nonzero: "next_rcptid i \<noteq> 0"
  by (simp add: next_rcptid_def)

lemma unat_next_power:
  assumes "i \<noteq> 0"
  shows "(next_rcptid ^^ k) i \<noteq> 0 \<and> unat ((next_rcptid ^^ k) i) = (unat i - 1 + k) mod rcptid_count + 1"
proof (induction k)
  case 0
  have "0 < unat i" using assms by (simp add: unat_gt_0)
  moreover from this have "unat i - 1 < rcptid_count" using unat_le_count [of i] by linarith
  ultimately show ?case using assms by simp
next
  case (Suc k)
  let ?i = "(next_rcptid ^^ k) i" and ?m = "(unat i - 1 + k) mod rcptid_count"
  have "0 < rcptid_count" by (simp add: rcptid_count_def)
  then have "?m < rcptid_count" by simp
  have m: "Suc ?m mod rcptid_count = (unat i - 1 + Suc k) mod rcptid_count" by (simp add: mod_Suc_eq)
  show ?case
  proof (cases "Suc ?m = rcptid_count")
    case True
    then show ?thesis using unat_next [of ?i] Suc next_nonzero [of ?i] m by simp
  next
    case False
    then have "Suc ?m mod rcptid_count = Suc ?m" using \<open>?m < rcptid_count\<close> by simp
    then show ?thesis using False unat_next [of ?i] Suc next_nonzero [of ?i] m by simp
  qed
qed

text \<open>
  C27: Receipt identifiers are unique and never 0.  A first start of the program,
  followed by any number of restarts and fewer than 2^64 - 1 messages, gives
  each message an identifier of its own, in increasing order from 1, and the
  persist file always holds the next one.
\<close>
theorem rcptids_unique:
  assumes "creates ops < rcptid_count"
  shows "\<exists>is g. rcptid_run host_big (Restart # ops) fresh_globals = Some (is, g) \<and>
    length is = creates ops \<and> distinct is \<and> 0 \<notin> set is \<and> sorted (map unat is) \<and>
    map_option re_rcptid (rg_entry g) = Some (rg_rcptid g)"
proof -
  obtain g0 where g0: "rcptid_exec host_big Restart fresh_globals = Some ([], g0)" "rcptid_inv host_big g0" "rg_rcptid g0 = 1"
    by (simp add: log_msg_init_rcptid_def log_msg_deinit_rcptid_def fresh_globals_def rcptid_inv_def)
  define ids where "ids = map (\<lambda>k. (next_rcptid ^^ k) (1 :: u64)) [0..<creates ops]"
  have u: "(next_rcptid ^^ k) 1 \<noteq> 0 \<and> unat ((next_rcptid ^^ k) (1 :: u64)) = k + 1" if "k < creates ops" for k
    using unat_next_power [of 1 k] that assms by simp
  have m: "map unat ids = map Suc [0..<creates ops]"
    by (simp add: ids_def u)
  have "distinct (map unat ids)" "sorted (map unat ids)"
    unfolding m by (simp_all add: distinct_map map_Suc_upt del: upt_Suc)
  moreover from this have "distinct ids" by (simp add: distinct_map)
  moreover have "0 \<notin> set ids" using u by (auto simp: ids_def)
  moreover obtain g where "rcptid_run host_big ops g0 = Some (ids, g)" "rcptid_inv host_big g"
    using rcptid_run_ids [OF g0(2), of ops] g0(3) by (auto simp: ids_def)
  ultimately show ?thesis
    using g0 by (auto simp: ids_def rcptid_inv_def simp del: rcptid_exec.simps)
qed

theorem rcptids_unique_witness:
  "\<exists>is g. rcptid_run False (Restart # [Create, Create, Restart, Create]) fresh_globals = Some (is, g) \<and>
     length is = 3 \<and> distinct is \<and> 0 \<notin> set is"
  using rcptids_unique [of "[Create, Create, Restart, Create]" False]
  by (auto simp: creates_def rcptid_count_def simp del: rcptid_run.simps)

lemma bit_foldr_or: "bit (foldr (OR) xs 0) n \<longleftrightarrow> (\<exists>x \<in> set xs. bit (x :: u64) n)"
  by (induction xs) (auto simp: bit_or_iff)

text \<open>Where the bits of a number come from when its bytes are reversed.\<close>

definition swapped_bit :: "nat \<Rightarrow> nat" where
  "swapped_bit n = 8 * (7 - n div 8) + n mod 8"

lemma swapped_bit_decomp: "r < 8 \<Longrightarrow> swapped_bit (8 * q + r) = 8 * (7 - q) + r"
  by (simp add: swapped_bit_def)

lemma bit_index_decomp:
  assumes "n < 64"
  obtains q r :: nat where "n = 8 * q + r" "q < 8" "r < 8"
  using that [of "n div 8" "n mod 8"] assms by simp

lemma bit_swap64:
  assumes "n < 64"
  shows "bit (swap64 w) n = bit w (swapped_bit n)"
proof -
  obtain q r where n: "n = 8 * q + r" "q < 8" "r < 8" using assms by (rule bit_index_decomp)
  have "bit (swap64 w) n \<longleftrightarrow> (\<exists>i. (i < 8 \<and> 8 * (7 - i) \<le> n \<and> n - 8 * (7 - i) < 8) \<and> bit w (8 * i + (n - 8 * (7 - i))))"
    using assms unfolding swap64_def bit_foldr_or
    by (auto simp: bit_push_bit_iff bit_take_bit_iff bit_drop_bit_eq Bex_def)
  moreover have "i < 8 \<and> 8 * (7 - i) \<le> n \<and> n - 8 * (7 - i) < 8 \<longleftrightarrow> i = 7 - q" for i
    using n by auto
  ultimately have "bit (swap64 w) n \<longleftrightarrow> bit w (8 * (7 - q) + (n - 8 * (7 - (7 - q))))"
    by (simp only: simp_thms)
  moreover have "n - 8 * (7 - (7 - q)) = r" using n by simp
  ultimately show ?thesis using n by (simp add: swapped_bit_decomp)
qed

lemma swap64_swap64: "swap64 (swap64 w) = w"
proof (rule bit_word_eqI)
  fix n assume "n < LENGTH(64)"
  then have n: "n < 64" by simp
  then obtain q r where q: "n = 8 * q + r" "q < 8" "r < 8" by (rule bit_index_decomp)
  then have "swapped_bit n < 64" "swapped_bit (swapped_bit n) = n" by (simp_all add: swapped_bit_decomp)
  then show "bit (swap64 (swap64 w)) n = bit w n" using n by (simp add: bit_swap64)
qed

text \<open>
  A persist file from a host of the other byte order is converted.  Reading
  the stored number on such a host yields it with its bytes reversed; the
  restored counter is the original one, and the entry is rewritten in the byte
  order of the host.
\<close>
theorem rcptid_restored_across_byte_order:
  assumes "rg_entry g = Some \<lparr>re_version = 0, re_big_endian = (\<not> host_big), re_rcptid = swap64 n\<rparr>"
  shows "\<exists>g'. log_msg_init_rcptid host_big g = (True, g') \<and> rg_rcptid g' = n \<and>
    rg_entry g' = Some \<lparr>re_version = 0, re_big_endian = host_big, re_rcptid = n\<rparr>"
  using assms by (simp add: log_msg_init_rcptid_def swap64_swap64 Let_def)

theorem rcptid_restored_across_byte_order_witness:
  "\<exists>g'. log_msg_init_rcptid False
       (fresh_globals\<lparr>rg_entry := Some \<lparr>re_version = 0, re_big_endian = True, re_rcptid = swap64 7\<rparr>\<rparr>) = (True, g') \<and>
     rg_rcptid g' = 7"
  using rcptid_restored_across_byte_order
    [of "fresh_globals\<lparr>rg_entry := Some \<lparr>re_version = 0, re_big_endian = True, re_rcptid = swap64 7\<rparr>\<rparr>" False 7]
  by auto

end
