(* ===== verification/Serialize.thy ===== *)
theory Serialize
  imports Prelude
begin

text \<open>
  The archives of lib/serialize.c: byte streams over a file, a string or a
  fixed buffer, with a sticky error, and the encoding of numbers, blobs and
  strings on top of them.  Bytes are 8 bit words.  A file is its unread bytes,
  the bytes written and the room left on the device (\<open>None\<close>: no limit); a
  position is a natural number, as memory objects are far smaller than
  \<^verbatim>\<open>gsize\<close> allows.  Error messages are not modelled, only that an error is
  set.
\<close>

subsection \<open>Archives\<close>

datatype archive_store =
    File_archive "u8 list" "u8 list" "nat option"
  | String_archive nat "u8 list"
  | Buffer_archive nat nat "u8 list"

record archive =
  ar_store :: archive_store
  ar_error :: bool

definition serialize_file_archive_new :: "u8 list \<Rightarrow> nat option \<Rightarrow> archive" where
  "serialize_file_archive_new unread room = \<lparr>ar_store = File_archive unread [] room, ar_error = False\<rparr>"

definition serialize_string_archive_new :: "u8 list \<Rightarrow> archive" where
  "serialize_string_archive_new str = \<lparr>ar_store = String_archive 0 str, ar_error = False\<rparr>"

definition serialize_buffer_archive_new :: "u8 list \<Rightarrow> nat \<Rightarrow> archive" where
  "serialize_buffer_archive_new buff len = \<lparr>ar_store = Buffer_archive 0 len buff, ar_error = False\<rparr>"

text \<open>
  The \<open>read_bytes\<close> and \<open>write_bytes\<close> methods; \<open>None\<close> stands for a failure.  A short read
  of a file consumes what was there, a short write stores what fits.
\<close>

definition serialize_file_archive_read_bytes ::
    "u8 list \<Rightarrow> u8 list \<Rightarrow> nat option \<Rightarrow> nat \<Rightarrow> u8 list option \<times> archive_store" where
  "serialize_file_archive_read_bytes unread written room buflen =
     (if length (take buflen unread) \<noteq> buflen then (None, File_archive [] written room)
      else (Some (take buflen unread), File_archive (drop buflen unread) written room))"

definition serialize_file_archive_write_bytes ::
    "u8 list \<Rightarrow> u8 list \<Rightarrow> nat option \<Rightarrow> u8 list \<Rightarrow> bool \<times> archive_store" where
  "serialize_file_archive_write_bytes unread written room buf =
     (let n = (case room of None \<Rightarrow> length buf | Some r \<Rightarrow> min r (length buf))
      in (n = length buf, File_archive unread (written @ take n buf) (map_option (\<lambda>r. r - n) room)))"

definition serialize_string_archive_read_bytes ::
    "nat \<Rightarrow> u8 list \<Rightarrow> nat \<Rightarrow> u8 list option \<times> archive_store" where
  "serialize_string_archive_read_bytes pos str buflen =
     (if pos + buflen > length str then (None, String_archive pos str)
      else (Some (take buflen (drop pos str)), String_archive (pos + buflen) str))"

definition serialize_string_archive_write_bytes :: "nat \<Rightarrow> u8 list \<Rightarrow> u8 list \<Rightarrow> bool \<times> archive_store" where
  "serialize_string_archive_write_bytes pos str buf = (True, String_archive pos (str @ buf))"

definition serialize_buffer_archive_read_bytes ::
    "nat \<Rightarrow> nat \<Rightarrow> u8 list \<Rightarrow> nat \<Rightarrow> u8 list option \<times> archive_store" where
  "serialize_buffer_archive_read_bytes pos len buff buflen =
     (if pos + buflen > len then (None, Buffer_archive pos len buff)
      else (Some (take buflen (drop pos buff)), Buffer_archive (pos + buflen) len buff))"

definition serialize_buffer_archive_write_bytes ::
    "nat \<Rightarrow> nat \<Rightarrow> u8 list \<Rightarrow> u8 list \<Rightarrow> bool \<times> archive_store" where
  "serialize_buffer_archive_write_bytes pos len buff buf =
     (if pos + length buf > len then (False, Buffer_archive pos len buff)
      else (True, Buffer_archive (pos + length buf) len
             (take pos buff @ buf @ drop (pos + length buf) buff)))"

definition serialize_buffer_archive_get_pos :: "archive \<Rightarrow> nat option" where
  "serialize_buffer_archive_get_pos self =
     (case ar_store self of Buffer_archive pos len buff \<Rightarrow> Some pos | _ \<Rightarrow> None)"

fun read_bytes :: "archive_store \<Rightarrow> nat \<Rightarrow> u8 list option \<times> archive_store" where
  "read_bytes (File_archive unread written room) n = serialize_file_archive_read_bytes unread written room n"
| "read_bytes (String_archive pos str) n = serialize_string_archive_read_bytes pos str n"
| "read_bytes (Buffer_archive pos len buff) n = serialize_buffer_archive_read_bytes pos len buff n"

fun write_bytes :: "archive_store \<Rightarrow> u8 list \<Rightarrow> bool \<times> archive_store" where
  "write_bytes (File_archive unread written room) buf = serialize_file_archive_write_bytes unread written room buf"
| "write_bytes (String_archive pos str) buf = serialize_string_archive_write_bytes pos str buf"
| "write_bytes (Buffer_archive pos len buff) buf = serialize_buffer_archive_write_bytes pos len buff buf"

text \<open>The first failure sets the error; nothing is read or written after it.\<close>

definition serialize_archive_read_bytes :: "archive \<Rightarrow> nat \<Rightarrow> u8 list option \<times> archive" where
  "serialize_archive_read_bytes self buflen =
     (if ar_error self then (None, self)
      else case read_bytes (ar_store self) buflen of
        (None, store) \<Rightarrow> (None, self\<lparr>ar_store := store, ar_error := True\<rparr>)
      | (Some buf, store) \<Rightarrow> (Some buf, self\<lparr>ar_store := store\<rparr>))"

definition serialize_archive_write_bytes :: "archive \<Rightarrow> u8 list \<Rightarrow> bool \<times> archive" where
  "serialize_archive_write_bytes self buf =
     (if ar_error self then (False, self)
      else case write_bytes (ar_store self) buf of
        (ok, store) \<Rightarrow> (ok, self\<lparr>ar_store := store, ar_error := \<not> ok\<rparr>))"

subsection \<open>Numbers\<close>

text \<open>The bytes of a number, most significant first, and the number of such bytes.\<close>

definition be_bytes :: "nat \<Rightarrow> 'a::len word \<Rightarrow> u8 list" where
  "be_bytes n w = map (\<lambda>i. ucast (drop_bit (8 * i) w)) (rev [0..<n])"

definition be_word :: "u8 list \<Rightarrow> 'a::len word" where
  "be_word bs = foldl (\<lambda>w b. push_bit 8 w OR ucast b) 0 bs"

definition serialize_write_uint32 :: "archive \<Rightarrow> u32 \<Rightarrow> bool \<times> archive" where
  "serialize_write_uint32 archive value = serialize_archive_write_bytes archive (be_bytes 4 value)"

definition serialize_read_uint32 :: "archive \<Rightarrow> u32 option \<times> archive" where
  "serialize_read_uint32 archive =
     (case serialize_archive_read_bytes archive 4 of (r, archive) \<Rightarrow> (map_option be_word r, archive))"

definition serialize_write_uint64 :: "archive \<Rightarrow> u64 \<Rightarrow> bool \<times> archive" where
  "serialize_write_uint64 archive value = serialize_archive_write_bytes archive (be_bytes 8 value)"

definition serialize_read_uint64 :: "archive \<Rightarrow> u64 option \<times> archive" where
  "serialize_read_uint64 archive =
     (case serialize_archive_read_bytes archive 8 of (r, archive) \<Rightarrow> (map_option be_word r, archive))"

definition serialize_write_uint16 :: "archive \<Rightarrow> u16 \<Rightarrow> bool \<times> archive" where
  "serialize_write_uint16 archive value = serialize_archive_write_bytes archive (be_bytes 2 value)"

definition serialize_read_uint16 :: "archive \<Rightarrow> u16 option \<times> archive" where
  "serialize_read_uint16 archive =
     (case serialize_archive_read_bytes archive 2 of (r, archive) \<Rightarrow> (map_option be_word r, archive))"

definition serialize_write_uint8 :: "archive \<Rightarrow> u8 \<Rightarrow> bool \<times> archive" where
  "serialize_write_uint8 archive value = serialize_archive_write_bytes archive [value]"

definition serialize_read_uint8 :: "archive \<Rightarrow> u8 option \<times> archive" where
  "serialize_read_uint8 archive =
     (case serialize_archive_read_bytes archive 1 of (r, archive) \<Rightarrow> (map_option hd r, archive))"

subsection \<open>Blobs and strings\<close>

definition serialize_write_blob :: "archive \<Rightarrow> u8 list \<Rightarrow> bool \<times> archive" where
  "serialize_write_blob archive blob = serialize_archive_write_bytes archive blob"

definition serialize_read_blob :: "archive \<Rightarrow> nat \<Rightarrow> u8 list option \<times> archive" where
  "serialize_read_blob archive len = serialize_archive_read_bytes archive len"

definition serialize_write_string :: "archive \<Rightarrow> u8 list \<Rightarrow> bool \<times> archive" where
  "serialize_write_string archive str =
     (case serialize_write_uint32 archive (of_nat (length str)) of
        (True, archive) \<Rightarrow> serialize_archive_write_bytes archive str
      | (False, archive) \<Rightarrow> (False, archive))"

text \<open>
  The allocations made while reading may fail; \<open>can_alloc n\<close> says whether \<open>n\<close> bytes
  can be had.  A string that fits into the space already allocated needs none.
\<close>

definition serialize_read_string ::
    "(nat \<Rightarrow> bool) \<Rightarrow> nat \<Rightarrow> archive \<Rightarrow> u8 list option \<times> archive" where
  "serialize_read_string can_alloc allocated_len archive =
     (case serialize_read_uint32 archive of
        (Some len, archive) \<Rightarrow>
          if unat len > allocated_len \<and> \<not> can_alloc (unat (len + 1)) then (None, archive)
          else serialize_archive_read_bytes archive (unat len)
      | (None, archive) \<Rightarrow> (None, archive))"

definition serialize_write_cstring :: "archive \<Rightarrow> u8 list \<Rightarrow> bool \<times> archive" where
  "serialize_write_cstring archive str =
     (case serialize_write_uint32 archive (of_nat (length str)) of
        (True, archive) \<Rightarrow>
          if str = [] then (True, archive) else serialize_archive_write_bytes archive str
      | (False, archive) \<Rightarrow> (False, archive))"

definition serialize_read_cstring :: "(nat \<Rightarrow> bool) \<Rightarrow> archive \<Rightarrow> u8 list option \<times> archive" where
  "serialize_read_cstring can_alloc archive =
     (case serialize_read_uint32 archive of
        (Some len, archive) \<Rightarrow>
          if \<not> can_alloc (unat (len + 1)) then (None, archive)
          else serialize_archive_read_bytes archive (unat len)
      | (None, archive) \<Rightarrow> (None, archive))"

subsection \<open>Encoding of numbers\<close>

lemma length_be_bytes [simp]: "length (be_bytes n w) = n"
  by (simp add: be_bytes_def)

lemma be_bytes_Suc: "be_bytes (Suc n) w = ucast (drop_bit (8 * n) w) # be_bytes n w"
  by (simp add: be_bytes_def)

lemma push_byte:
  "push_bit (8 * n) (push_bit 8 acc OR ucast (ucast (drop_bit (8 * n) w) :: u8)) OR take_bit (8 * n) w =
     push_bit (8 * Suc n) acc OR take_bit (8 * Suc n) (w :: 'a::len word)"
  by (rule bit_word_eqI) (auto simp: bit_simps le_diff_conv2 add.commute)

lemma foldl_be_bytes:
  "foldl (\<lambda>w b. push_bit 8 w OR ucast b) acc (be_bytes n w) = push_bit (8 * n) acc OR take_bit (8 * n) (w :: 'a::len word)"
proof (induction n arbitrary: acc)
  case (Suc n)
  then show ?case using push_byte [of n acc w] by (simp add: be_bytes_Suc)
qed (simp add: be_bytes_def)

lemma be_word_be_bytes: "8 * n = LENGTH('a) \<Longrightarrow> be_word (be_bytes n w) = (w :: 'a::len word)"
  by (simp add: be_word_def foldl_be_bytes)

subsection \<open>Readers and writers\<close>

text \<open>
  What a client relies on: a reader hands out the pending bytes in order and
  fails when they are too few; a writer appends to what was written as long as
  there is room.
\<close>

locale byte_reader =
  fixes reader :: "'s \<Rightarrow> nat \<Rightarrow> u8 list option \<times> 's"
    and pending :: "'s \<Rightarrow> u8 list" and readable :: "'s \<Rightarrow> bool"
  assumes enough: "readable s \<Longrightarrow> n \<le> length (pending s) \<Longrightarrow>
      \<exists>s'. reader s n = (Some (take n (pending s)), s') \<and> readable s' \<and> pending s' = drop n (pending s)"
    and too_few: "readable s \<Longrightarrow> length (pending s) < n \<Longrightarrow> \<exists>s'. reader s n = (None, s') \<and> \<not> readable s'"
begin

lemma prefix:
  assumes "readable s" and "pending s = xs @ rest" and "length xs = n"
  obtains s' where "reader s n = (Some xs, s')" "readable s'" "pending s' = rest"
  using enough [of s n] assms by auto

end

locale byte_writer =
  fixes writer :: "'s \<Rightarrow> u8 list \<Rightarrow> bool \<times> 's"
    and written :: "'s \<Rightarrow> u8 list" and room :: "'s \<Rightarrow> nat option" and writable :: "'s \<Rightarrow> bool"
  assumes appends: "writable s \<Longrightarrow> (\<And>r. room s = Some r \<Longrightarrow> length bs \<le> r) \<Longrightarrow>
      \<exists>s'. writer s bs = (True, s') \<and> writable s' \<and> written s' = written s @ bs \<and>
        room s' = map_option (\<lambda>r. r - length bs) (room s)"
    and full: "writable s \<Longrightarrow> room s = Some r \<Longrightarrow> r < length bs \<Longrightarrow>
      \<exists>s'. writer s bs = (False, s') \<and> \<not> writable s'"
begin

lemma appends_both:
  assumes "writable s" and "\<And>r. room s = Some r \<Longrightarrow> length (xs @ ys) \<le> r"
  shows "\<exists>s' s''. writer s xs = (True, s') \<and> writer s' ys = (True, s'') \<and> writable s'' \<and>
    written s'' = written s @ xs @ ys \<and> room s'' = map_option (\<lambda>r. r - length (xs @ ys)) (room s)"
proof -
  obtain s' where s': "writer s xs = (True, s')" "writable s'" "written s' = written s @ xs"
    "room s' = map_option (\<lambda>r. r - length xs) (room s)"
    using appends [of s xs] assms by force
  have "length ys \<le> r" if "room s' = Some r" for r
    using assms(2) s'(4) that by (cases "room s") fastforce+
  then obtain s'' where "writer s' ys = (True, s'')" "writable s''" "written s'' = written s' @ ys"
    "room s'' = map_option (\<lambda>r. r - length ys) (room s')"
    using appends [of s' ys] s'(2) by auto
  then show ?thesis using s' by (auto simp: option.map_comp o_def)
qed

end

text \<open>The three kinds of archives seen as reader and writer.\<close>

definition archive_pending :: "archive \<Rightarrow> u8 list" where
  "archive_pending ar = (case ar_store ar of File_archive unread written room \<Rightarrow> unread
     | String_archive pos str \<Rightarrow> drop pos str
     | Buffer_archive pos len buff \<Rightarrow> take (len - pos) (drop pos buff))"

definition archive_written :: "archive \<Rightarrow> u8 list" where
  "archive_written ar = (case ar_store ar of File_archive unread written room \<Rightarrow> written
     | String_archive pos str \<Rightarrow> str
     | Buffer_archive pos len buff \<Rightarrow> take pos buff)"

definition archive_room :: "archive \<Rightarrow> nat option" where
  "archive_room ar = (case ar_store ar of File_archive unread written room \<Rightarrow> room
     | String_archive pos str \<Rightarrow> None
     | Buffer_archive pos len buff \<Rightarrow> Some (len - pos))"

definition archive_ok :: "archive \<Rightarrow> bool" where
  "archive_ok ar = (\<not> ar_error ar \<and> (case ar_store ar of File_archive unread written room \<Rightarrow> True
     | String_archive pos str \<Rightarrow> pos \<le> length str
     | Buffer_archive pos len buff \<Rightarrow> pos \<le> len \<and> len \<le> length buff))"

lemmas archive_views = archive_pending_def archive_written_def archive_room_def archive_ok_def

interpretation sread: byte_reader serialize_archive_read_bytes archive_pending archive_ok
proof
  fix ar n
  assume ok: "archive_ok ar" and n: "n \<le> length (archive_pending ar)"
  show "\<exists>ar'. serialize_archive_read_bytes ar n = (Some (take n (archive_pending ar)), ar') \<and>
      archive_ok ar' \<and> archive_pending ar' = drop n (archive_pending ar)"
    using ok n
    by (cases "ar_store ar")
      (auto simp: serialize_archive_read_bytes_def archive_views serialize_file_archive_read_bytes_def
        serialize_string_archive_read_bytes_def serialize_buffer_archive_read_bytes_def min_def drop_take
        add.commute split: if_splits)
next
  fix ar n
  assume "archive_ok ar" and "length (archive_pending ar) < n"
  then show "\<exists>ar'. serialize_archive_read_bytes ar n = (None, ar') \<and> \<not> archive_ok ar'"
    by (cases "ar_store ar")
      (auto simp: serialize_archive_read_bytes_def archive_views serialize_file_archive_read_bytes_def
        serialize_string_archive_read_bytes_def serialize_buffer_archive_read_bytes_def)
qed

interpretation swrite: byte_writer serialize_archive_write_bytes archive_written archive_room archive_ok
proof
  fix ar :: archive and bs :: "u8 list"
  assume ok: "archive_ok ar" and r: "\<And>r. archive_room ar = Some r \<Longrightarrow> length bs \<le> r"
  show "\<exists>ar'. serialize_archive_write_bytes ar bs = (True, ar') \<and> archive_ok ar' \<and>
      archive_written ar' = archive_written ar @ bs \<and> archive_room ar' = map_option (\<lambda>r. r - length bs) (archive_room ar)"
    using ok r
    by (cases "ar_store ar")
      (auto simp: serialize_archive_write_bytes_def archive_views serialize_file_archive_write_bytes_def
        serialize_string_archive_write_bytes_def serialize_buffer_archive_write_bytes_def Let_def min_def
        split: option.splits)
next
  fix ar r and bs :: "u8 list"
  assume "archive_ok ar" and "archive_room ar = Some r" and "r < length bs"
  then show "\<exists>ar'. serialize_archive_write_bytes ar bs = (False, ar') \<and> \<not> archive_ok ar'"
    by (cases "ar_store ar")
      (auto simp: serialize_archive_write_bytes_def archive_views serialize_file_archive_write_bytes_def
        serialize_buffer_archive_write_bytes_def Let_def)
qed

subsection \<open>Sequences of values\<close>

datatype ser_item =
    Item_u8 u8
  | Item_u16 u16
  | Item_u32 u32
  | Item_u64 u64
  | Item_blob "u8 list"
  | Item_string "u8 list"
  | Item_cstring "u8 list"

datatype ser_shape = Shape_u8 | Shape_u16 | Shape_u32 | Shape_u64 | Shape_blob nat | Shape_string nat | Shape_cstring

fun write_item :: "ser_item \<Rightarrow> archive \<Rightarrow> bool \<times> archive" where
  "write_item (Item_u8 v) ar = serialize_write_uint8 ar v"
| "write_item (Item_u16 v) ar = serialize_write_uint16 ar v"
| "write_item (Item_u32 v) ar = serialize_write_uint32 ar v"
| "write_item (Item_u64 v) ar = serialize_write_uint64 ar v"
| "write_item (Item_blob b) ar = serialize_write_blob ar b"
| "write_item (Item_string b) ar = serialize_write_string ar b"
| "write_item (Item_cstring b) ar = serialize_write_cstring ar b"

fun read_item :: "(nat \<Rightarrow> bool) \<Rightarrow> ser_shape \<Rightarrow> archive \<Rightarrow> ser_item option \<times> archive" where
  "read_item can_alloc Shape_u8 ar = apfst (map_option Item_u8) (serialize_read_uint8 ar)"
| "read_item can_alloc Shape_u16 ar = apfst (map_option Item_u16) (serialize_read_uint16 ar)"
| "read_item can_alloc Shape_u32 ar = apfst (map_option Item_u32) (serialize_read_uint32 ar)"
| "read_item can_alloc Shape_u64 ar = apfst (map_option Item_u64) (serialize_read_uint64 ar)"
| "read_item can_alloc (Shape_blob n) ar = apfst (map_option Item_blob) (serialize_read_blob ar n)"
| "read_item can_alloc (Shape_string a) ar = apfst (map_option Item_string) (serialize_read_string can_alloc a ar)"
| "read_item can_alloc Shape_cstring ar = apfst (map_option Item_cstring) (serialize_read_cstring can_alloc ar)"

text \<open>What a reader has to ask for to get an item back; \<open>a\<close> is the space of its string buffer.\<close>

fun shape_of :: "nat \<Rightarrow> ser_item \<Rightarrow> ser_shape" where
  "shape_of a (Item_u8 v) = Shape_u8"
| "shape_of a (Item_u16 v) = Shape_u16"
| "shape_of a (Item_u32 v) = Shape_u32"
| "shape_of a (Item_u64 v) = Shape_u64"
| "shape_of a (Item_blob b) = Shape_blob (length b)"
| "shape_of a (Item_string b) = Shape_string a"
| "shape_of a (Item_cstring b) = Shape_cstring"

fun item_bytes :: "ser_item \<Rightarrow> u8 list" where
  "item_bytes (Item_u8 v) = [v]"
| "item_bytes (Item_u16 v) = be_bytes 2 v"
| "item_bytes (Item_u32 v) = be_bytes 4 v"
| "item_bytes (Item_u64 v) = be_bytes 8 v"
| "item_bytes (Item_blob b) = b"
| "item_bytes (Item_string b) = be_bytes 4 (of_nat (length b) :: u32) @ b"
| "item_bytes (Item_cstring b) = be_bytes 4 (of_nat (length b) :: u32) @ b"

text \<open>Strings shorter than 4 GB, whose allocation succeeds.\<close>

fun item_fits :: "(nat \<Rightarrow> bool) \<Rightarrow> ser_item \<Rightarrow> bool" where
  "item_fits can_alloc (Item_string b) = (length b < 2 ^ 32 - 1 \<and> can_alloc (length b + 1))"
| "item_fits can_alloc (Item_cstring b) = (length b < 2 ^ 32 - 1 \<and> can_alloc (length b + 1))"
| "item_fits can_alloc _ = True"

primrec write_items :: "ser_item list \<Rightarrow> archive \<Rightarrow> bool \<times> archive" where
  "write_items [] ar = (True, ar)"
| "write_items (x # xs) ar = (case write_item x ar of (True, ar) \<Rightarrow> write_items xs ar | (False, ar) \<Rightarrow> (False, ar))"

primrec read_items :: "(nat \<Rightarrow> bool) \<Rightarrow> ser_shape list \<Rightarrow> archive \<Rightarrow> ser_item list option \<times> archive" where
  "read_items can_alloc [] ar = (Some [], ar)"
| "read_items can_alloc (h # hs) ar = (case read_item can_alloc h ar of
     (None, ar) \<Rightarrow> (None, ar)
   | (Some x, ar) \<Rightarrow> apfst (map_option (\<lambda>xs. x # xs)) (read_items can_alloc hs ar))"

definition archive_has_room :: "archive \<Rightarrow> nat \<Rightarrow> bool" where
  "archive_has_room ar n = (case archive_room ar of None \<Rightarrow> True | Some r \<Rightarrow> n \<le> r)"

lemma has_room_after:
  "archive_room ar' = map_option (\<lambda>r. r - k) (archive_room ar) \<Longrightarrow> archive_has_room ar (k + n) \<Longrightarrow>
    archive_has_room ar' n"
  by (auto simp: archive_has_room_def split: option.splits)

lemma write_item_appends:
  assumes "archive_ok ar" and "archive_has_room ar (length (item_bytes x))"
  shows "\<exists>ar'. write_item x ar = (True, ar') \<and> archive_ok ar' \<and>
    archive_written ar' = archive_written ar @ item_bytes x \<and>
    archive_room ar' = map_option (\<lambda>r. r - length (item_bytes x)) (archive_room ar)"
proof -
  have room: "length (item_bytes x) \<le> r" if "archive_room ar = Some r" for r
    using assms(2) that by (simp add: archive_has_room_def)
  note one = swrite.appends [OF assms(1) room]
  have two: "\<exists>ar1 ar2. serialize_archive_write_bytes ar (be_bytes 4 (of_nat (length b) :: u32)) = (True, ar1) \<and>
      serialize_archive_write_bytes ar1 b = (True, ar2) \<and> archive_ok ar2 \<and>
      archive_written ar2 = archive_written ar @ item_bytes x \<and>
      archive_room ar2 = map_option (\<lambda>r. r - length (item_bytes x)) (archive_room ar)"
    if "item_bytes x = be_bytes 4 (of_nat (length b) :: u32) @ b" for b
    using swrite.appends_both [OF assms(1), of "be_bytes 4 (of_nat (length b) :: u32)" b] room that by simp
  show ?thesis
  proof (cases x)
    case (Item_string b)
    then show ?thesis using two [of b] by (auto simp: serialize_write_string_def serialize_write_uint32_def)
  next
    case (Item_cstring b)
    show ?thesis
    proof (cases "b = []")
      case True
      then show ?thesis using one Item_cstring
        by (auto simp: serialize_write_cstring_def serialize_write_uint32_def)
    next
      case False
      then show ?thesis using two [of b] Item_cstring
        by (auto simp: serialize_write_cstring_def serialize_write_uint32_def)
    qed
  qed (use one in \<open>simp_all add: serialize_write_uint8_def serialize_write_uint16_def serialize_write_uint32_def
      serialize_write_uint64_def serialize_write_blob_def\<close>)
qed

lemma write_items_appends:
  assumes "archive_ok ar" and "archive_has_room ar (length (concat (map item_bytes xs)))"
  shows "\<exists>ar'. write_items xs ar = (True, ar') \<and> archive_ok ar' \<and>
    archive_written ar' = archive_written ar @ concat (map item_bytes xs)"
  using assms
proof (induction xs arbitrary: ar)
  case (Cons x xs)
  have "archive_has_room ar (length (item_bytes x))"
    using Cons.prems(2) by (auto simp: archive_has_room_def split: option.splits)
  with write_item_appends [OF Cons.prems(1)] obtain ar1 where
    ar1: "write_item x ar = (True, ar1)" "archive_ok ar1" "archive_written ar1 = archive_written ar @ item_bytes x"
      "archive_room ar1 = map_option (\<lambda>r. r - length (item_bytes x)) (archive_room ar)" by blast
  have "archive_has_room ar1 (length (concat (map item_bytes xs)))"
    using has_room_after [OF ar1(4)] Cons.prems(2) by simp
  then show ?case using Cons.IH [OF ar1(2)] ar1 by auto
qed simp

lemma read_item_back:
  assumes "archive_ok ar" and "archive_pending ar = item_bytes x @ rest" and "item_fits can_alloc x"
  shows "\<exists>ar'. read_item can_alloc (shape_of a x) ar = (Some x, ar') \<and> archive_ok ar' \<and> archive_pending ar' = rest"
proof -
  have string: "\<exists>ar1 ar2. serialize_read_uint32 ar = (Some (of_nat (length b)), ar1) \<and>
      serialize_archive_read_bytes ar1 (length b) = (Some b, ar2) \<and> archive_ok ar2 \<and> archive_pending ar2 = rest"
    if x: "item_bytes x = be_bytes 4 (of_nat (length b) :: u32) @ b" for b
  proof -
    have "archive_pending ar = be_bytes 4 (of_nat (length b) :: u32) @ (b @ rest)" using assms(2) x by simp
    then obtain ar1 where ar1: "serialize_archive_read_bytes ar 4 = (Some (be_bytes 4 (of_nat (length b) :: u32)), ar1)"
      "archive_ok ar1" "archive_pending ar1 = b @ rest" by (rule sread.prefix [OF assms(1)]) simp
    from ar1(2,3) obtain ar2 where "serialize_archive_read_bytes ar1 (length b) = (Some b, ar2)" "archive_ok ar2"
      "archive_pending ar2 = rest" by (rule sread.prefix) simp
    then show ?thesis using ar1 by (simp add: serialize_read_uint32_def be_word_be_bytes)
  qed
  have len: "unat (of_nat n :: u32) = n" "unat (of_nat n + 1 :: u32) = n + 1" if "n < 2 ^ 32 - 1" for n
    using that by (simp_all add: unat_of_nat_u32_iff [of n, THEN iffD2] unat_add1_u32)
  obtain ar' where ar': "serialize_archive_read_bytes ar (length (item_bytes x)) = (Some (item_bytes x), ar')"
    "archive_ok ar'" "archive_pending ar' = rest" using assms(1,2) by (rule sread.prefix) simp
  show ?thesis
  proof (cases x)
    case (Item_string b)
    then show ?thesis using string [of b] assms(3) len [of "length b"]
      by (auto simp: serialize_read_string_def)
  next
    case (Item_cstring b)
    then show ?thesis using string [of b] assms(3) len [of "length b"]
      by (auto simp: serialize_read_cstring_def)
  qed (use ar' in \<open>simp_all add: serialize_read_uint8_def serialize_read_uint16_def serialize_read_uint32_def
      serialize_read_uint64_def serialize_read_blob_def be_word_be_bytes\<close>)
qed

lemma read_items_back:
  assumes "archive_ok ar" and "archive_pending ar = concat (map item_bytes xs) @ rest" and "list_all (item_fits can_alloc) xs"
  shows "\<exists>ar'. read_items can_alloc (map (shape_of a) xs) ar = (Some xs, ar') \<and> archive_ok ar' \<and> archive_pending ar' = rest"
  using assms
proof (induction xs arbitrary: ar)
  case (Cons x xs)
  then obtain ar1 where "read_item can_alloc (shape_of a x) ar = (Some x, ar1)" "archive_ok ar1"
    "archive_pending ar1 = concat (map item_bytes xs) @ rest"
    using read_item_back [of ar x "concat (map item_bytes xs) @ rest" can_alloc a] by auto
  then show ?case using Cons.IH [of ar1] Cons.prems(3) by auto
qed simp

text \<open>An item whose bytes are incomplete is not read.\<close>

lemma read_item_short:
  assumes "archive_ok ar" and "archive_pending ar = take k (item_bytes x)" and "k < length (item_bytes x)"
    and "item_fits can_alloc x"
  shows "\<exists>ar'. read_item can_alloc (shape_of a x) ar = (None, ar') \<and> \<not> archive_ok ar'"
proof -
  have short: "\<exists>ar'. serialize_archive_read_bytes ar n = (None, ar') \<and> \<not> archive_ok ar'" if "k < n" for n
    using sread.too_few [OF assms(1), of n] that assms(2,3) by simp
  have string: "(\<exists>ar'. serialize_read_uint32 ar = (None, ar') \<and> \<not> archive_ok ar') \<or>
      (\<exists>ar1 ar2. serialize_read_uint32 ar = (Some (of_nat (length b)), ar1) \<and>
        serialize_archive_read_bytes ar1 (length b) = (None, ar2) \<and> \<not> archive_ok ar2)"
    if x: "item_bytes x = be_bytes 4 (of_nat (length b) :: u32) @ b" for b
  proof (cases "k < 4")
    case True
    then show ?thesis using short [of 4] by (auto simp: serialize_read_uint32_def)
  next
    case False
    then have "archive_pending ar = be_bytes 4 (of_nat (length b) :: u32) @ take (k - 4) b" using assms(2) x by simp
    then obtain ar1 where ar1: "serialize_archive_read_bytes ar 4 = (Some (be_bytes 4 (of_nat (length b) :: u32)), ar1)"
      "archive_ok ar1" "archive_pending ar1 = take (k - 4) b" by (rule sread.prefix [OF assms(1)]) simp
    then have "\<exists>ar2. serialize_archive_read_bytes ar1 (length b) = (None, ar2) \<and> \<not> archive_ok ar2"
      using False assms(3) x by (intro sread.too_few) auto
    then show ?thesis using ar1(1) by (simp add: serialize_read_uint32_def be_word_be_bytes)
  qed
  have len: "unat (of_nat n :: u32) = n" "unat (of_nat n + 1 :: u32) = n + 1" if "n < 2 ^ 32 - 1" for n
    using that by (simp_all add: unat_of_nat_u32_iff [of n, THEN iffD2] unat_add1_u32)
  show ?thesis
  proof (cases x)
    case (Item_string b)
    then show ?thesis using string [of b] assms(4) len [of "length b"] by (auto simp: serialize_read_string_def)
  next
    case (Item_cstring b)
    then show ?thesis using string [of b] assms(4) len [of "length b"] by (auto simp: serialize_read_cstring_def)
  qed (use short [OF assms(3)] in \<open>auto simp: serialize_read_uint8_def serialize_read_uint16_def
      serialize_read_uint32_def serialize_read_uint64_def serialize_read_blob_def\<close>)
qed

lemma read_items_short:
  assumes "archive_ok ar" and "archive_pending ar = take k (concat (map item_bytes xs))"
    and "k < length (concat (map item_bytes xs))" and "list_all (item_fits can_alloc) xs"
  shows "\<exists>ar'. read_items can_alloc (map (shape_of a) xs) ar = (None, ar') \<and> \<not> archive_ok ar'"
  using assms
proof (induction xs arbitrary: ar k)
  case (Cons x xs)
  show ?case
  proof (cases "k < length (item_bytes x)")
    case True
    then show ?thesis using read_item_short [of ar k x can_alloc a] Cons.prems by auto
  next
    case False
    then have "archive_pending ar = item_bytes x @ take (k - length (item_bytes x)) (concat (map item_bytes xs))"
      using Cons.prems(2) by simp
    then obtain ar1 where "read_item can_alloc (shape_of a x) ar = (Some x, ar1)" "archive_ok ar1"
      "archive_pending ar1 = take (k - length (item_bytes x)) (concat (map item_bytes xs))"
      using read_item_back [of ar x _ can_alloc a] Cons.prems by auto
    moreover have "k - length (item_bytes x) < length (concat (map item_bytes xs))"
      using Cons.prems(3) False by simp
    ultimately show ?thesis
      using Cons.IH [of ar1 "k - length (item_bytes x)"] Cons.prems(4) by auto
  qed
qed simp

text \<open>
  C16: Serialized values are read back.  Any sequence of numbers, blobs and
  strings written to a file, string or buffer archive with enough room is
  read back unchanged from any archive that starts with the bytes written,
  and reading stops exactly behind them.
\<close>
theorem serialize_roundtrip:
  assumes "archive_ok w" and "archive_written w = []" and "archive_has_room w (length (concat (map item_bytes xs)))"
    and "archive_ok r" and "archive_pending r = archive_written (snd (write_items xs w)) @ rest"
    and "list_all (item_fits can_alloc) xs"
  shows "fst (write_items xs w) \<and>
    (\<exists>r'. read_items can_alloc (map (shape_of a) xs) r = (Some xs, r') \<and> archive_ok r' \<and> archive_pending r' = rest)"
proof -
  obtain w' where w': "write_items xs w = (True, w')" "archive_written w' = concat (map item_bytes xs)"
    using write_items_appends [OF assms(1,3)] assms(2) by auto
  then show ?thesis using read_items_back [OF assms(4) _ assms(6)] assms(5) by simp
qed

definition demo_items :: "ser_item list" where
  "demo_items = [Item_u8 26, Item_u64 0x0102030405060708, Item_cstring [104, 105], Item_blob [1, 2], Item_u16 0xABCD]"

theorem serialize_roundtrip_witness:
  "fst (write_items demo_items (serialize_buffer_archive_new (replicate 30 0) 30)) \<and>
   (\<exists>r'. read_items (\<lambda>_. True) (map (shape_of 0) demo_items)
      (serialize_string_archive_new
        (archive_written (snd (write_items demo_items (serialize_buffer_archive_new (replicate 30 0) 30))) @ [9])) =
      (Some demo_items, r') \<and> archive_ok r' \<and> archive_pending r' = [9])"
  by (rule serialize_roundtrip)
    (simp_all add: serialize_buffer_archive_new_def serialize_string_archive_new_def archive_views
      archive_has_room_def demo_items_def)

text \<open>
  C26: Truncated data is detected.  When the bytes of a written sequence are cut
  off anywhere, reading the sequence fails and leaves the archive in error.
\<close>
theorem serialize_truncation_detected:
  assumes "archive_ok w" and "archive_written w = []" and "archive_has_room w (length (concat (map item_bytes xs)))"
    and "archive_ok r" and "k < length (archive_written (snd (write_items xs w)))"
    and "archive_pending r = take k (archive_written (snd (write_items xs w)))"
    and "list_all (item_fits can_alloc) xs"
  shows "\<exists>r'. read_items can_alloc (map (shape_of a) xs) r = (None, r') \<and> \<not> archive_ok r'"
proof -
  obtain w' where w': "write_items xs w = (True, w')" "archive_written w' = concat (map item_bytes xs)"
    using write_items_appends [OF assms(1,3)] assms(2) by auto
  then show ?thesis using read_items_short [OF assms(4) _ _ assms(7)] assms(5,6) by simp
qed

theorem serialize_truncation_detected_witness:
  "\<exists>r'. read_items (\<lambda>_. True) (map (shape_of 0) demo_items)
      (serialize_file_archive_new (take 12 (archive_written (snd (write_items demo_items (serialize_string_archive_new []))))) None) =
      (None, r') \<and> \<not> archive_ok r'"
proof (rule serialize_truncation_detected [where w = "serialize_string_archive_new []" and k = 12])
  show "12 < length (archive_written (snd (write_items demo_items (serialize_string_archive_new []))))"
    by code_simp
qed (simp_all add: serialize_file_archive_new_def serialize_string_archive_new_def archive_views
      archive_has_room_def demo_items_def)

end
