(* ===== verification/Nv_Table.thy ===== *)
theory Nv_Table
  imports Prelude
begin

text \<open>
  The payload of a log message (\<^verbatim>\<open>lib/nvtable.c\<close>, \<^verbatim>\<open>lib/nvtable.h\<close>): a block of
  memory that holds name-value pairs.  Offsets of the values are kept in an array for
  the built-in (static) handles and in a sorted array for the dynamic ones; the values
  themselves grow down from the end of the block.

  The entries are kept in \<open>nt_mem\<close> under their offset from the end of the block, which
  is how the code addresses them.  Sizes and offsets are natural numbers: a block never
  exceeds 256 MB, far below the range of \<open>guint32\<close>.  Handles and the offset and length
  of a reference are 32 bit words.
\<close>

subsection \<open>State\<close>

type_synonym nvhandle = u32

record nv_referenced_slice =
  sl_handle :: nvhandle
  sl_ofs :: u32
  sl_len :: u32
  sl_type :: u8

datatype nv_payload = Vdirect string | Vindirect nv_referenced_slice

record nv_entry =
  ne_referenced :: bool
  ne_name :: string
  ne_alloc_len :: nat
  ne_value :: nv_payload

record nv_table =
  nt_size :: nat
  nt_used :: nat
  nt_dyn_entries :: "(nvhandle \<times> nat) list"
  nt_static_entries :: "nat list"
  nt_ref_cnt :: "7 word"
  nt_borrowed :: bool
  nt_mem :: "nat \<Rightarrow> nv_entry option"

definition NV_TABLE_MAX_BYTES :: nat where
  "NV_TABLE_MAX_BYTES = 256 * 1024 * 1024"

definition NV_TABLE_BOUND :: "nat \<Rightarrow> nat" where
  "NV_TABLE_BOUND x = (x + 3) div 4 * 4"

text \<open>Layout: the arrays start at byte 12 of the block, the structure itself is padded to 16 bytes.\<close>

definition NV_TABLE_DATA :: nat where "NV_TABLE_DATA = 12"

definition NV_TABLE_SIZEOF :: nat where "NV_TABLE_SIZEOF = 16"

definition NV_ENTRY_DIRECT_HDR :: nat where "NV_ENTRY_DIRECT_HDR = 12"

definition NV_ENTRY_INDIRECT_HDR :: nat where "NV_ENTRY_INDIRECT_HDR = 24"

definition indirect :: "nv_entry \<Rightarrow> bool" where
  "indirect e = (case ne_value e of Vdirect _ \<Rightarrow> False | Vindirect _ \<Rightarrow> True)"

definition num_static_entries :: "nv_table \<Rightarrow> nat" where
  "num_static_entries self = length (nt_static_entries self)"

definition num_dyn_entries :: "nv_table \<Rightarrow> nat" where
  "num_dyn_entries self = length (nt_dyn_entries self)"

subsection \<open>Creation\<close>

definition nv_table_get_size :: "nat \<Rightarrow> nat" where
  "nv_table_get_size sz = min sz NV_TABLE_MAX_BYTES"

definition nv_table_get_alloc_size :: "nat \<Rightarrow> nat \<Rightarrow> nat \<Rightarrow> nat" where
  "nv_table_get_alloc_size num_static num_dyn_values init_length =
     (let sz = NV_TABLE_BOUND init_length + NV_TABLE_BOUND (NV_TABLE_SIZEOF + num_static * 4 + num_dyn_values * 8)
      in if sz < 128 then 128
         else if sz > NV_TABLE_MAX_BYTES then NV_TABLE_MAX_BYTES
         else sz)"

text \<open>The number of static entries is kept in a \<open>guint8\<close>.\<close>

definition nv_table_init :: "nat \<Rightarrow> nat \<Rightarrow> nv_table" where
  "nv_table_init alloc_length num_static =
     \<lparr>nt_size = nv_table_get_size alloc_length, nt_used = 0, nt_dyn_entries = [],
      nt_static_entries = replicate (num_static mod 256) 0, nt_ref_cnt = 1, nt_borrowed = False,
      nt_mem = (\<lambda>_. None)\<rparr>"

definition nv_table_new :: "nat \<Rightarrow> nat \<Rightarrow> nat \<Rightarrow> nv_table" where
  "nv_table_new num_static num_dyn_values init_length =
     nv_table_init (nv_table_get_alloc_size num_static num_dyn_values init_length) num_static"

definition nv_table_init_borrowed :: "nat \<Rightarrow> nat \<Rightarrow> nv_table option" where
  "nv_table_init_borrowed space_len num_static = do {
     let space_len = space_len div 4 * 4;
     g_assert (space_len > num_static * 4 + NV_TABLE_SIZEOF);
     Some (nv_table_init (NV_TABLE_BOUND space_len) num_static \<lparr>nt_borrowed := True\<rparr>)
   }"

subsection \<open>Finding an entry\<close>

definition nv_table_get_entry_at_ofs :: "nv_table \<Rightarrow> nat \<Rightarrow> nat option" where
  "nv_table_get_entry_at_ofs self ofs = (if ofs = 0 then None else Some ofs)"

text \<open>
  The open-coded binary search.  It ends with the index of the handle, or with the
  index at which the handle has to be inserted.  \<open>read_handle\<close> is how the code reads the handle of an entry.
\<close>

function nv_search :: "(nvhandle \<Rightarrow> nvhandle) \<Rightarrow> (nvhandle \<times> nat) list \<Rightarrow> nvhandle \<Rightarrow> int \<Rightarrow> int \<Rightarrow> int + int" where
  "nv_search read_handle dyn_entries handle l h =
     (if l \<le> h then
        let m = (l + h) div 2; mv = read_handle (fst (dyn_entries ! nat m))
        in if mv = handle then Inr m
           else if mv > handle then nv_search read_handle dyn_entries handle l (m - 1)
           else nv_search read_handle dyn_entries handle (m + 1) h
      else Inl l)"
  by pat_completeness auto
termination
  by (relation "measure (\<lambda>(_, _, _, l, h). nat (h - l + 1))") auto

text \<open>The result is the slot in the dynamic array, if any, and the offset of the entry, if any.\<close>

definition nv_table_get_entry_slow :: "nv_table \<Rightarrow> nvhandle \<Rightarrow> nat option \<times> nat option" where
  "nv_table_get_entry_slow self handle =
     (if num_dyn_entries self = 0 then (None, None)
      else case nv_search id (nt_dyn_entries self) handle 0 (int (num_dyn_entries self) - 1) of
             Inr m \<Rightarrow> (Some (nat m), nv_table_get_entry_at_ofs self (snd (nt_dyn_entries self ! nat m)))
           | Inl _ \<Rightarrow> (None, nv_table_get_entry_at_ofs self 0))"

definition nv_table_get_entry :: "nv_table \<Rightarrow> nvhandle \<Rightarrow> nat option \<times> nat option" where
  "nv_table_get_entry self handle =
     (if handle = 0 then (None, None)
      else if unat handle \<le> num_static_entries self then
        let ofs = nt_static_entries self ! (unat handle - 1)
        in (None, if ofs = 0 then None else Some ofs)
      else nv_table_get_entry_slow self handle)"

definition nv_table_is_value_set :: "nv_table \<Rightarrow> nvhandle \<Rightarrow> bool" where
  "nv_table_is_value_set self handle \<longleftrightarrow> snd (nv_table_get_entry self handle) \<noteq> None"

subsection \<open>Reading a value\<close>

text \<open>
  The part of a value that a reference denotes.  The end of the slice is computed in
  32 bits and the length is signed; a negative length describes no string, and the result is
  then \<open>None\<close>.
\<close>

definition nv_slice :: "string \<Rightarrow> nv_referenced_slice \<Rightarrow> string option" where
  "nv_slice referenced_value sl =
     (if unat (sl_ofs sl) > length referenced_value then Some ''''
      else let len = min (int (unat (sl_ofs sl + sl_len sl))) (int (length referenced_value)) - int (unat (sl_ofs sl))
           in if len < 0 then None
              else Some (take (nat len) (drop (unat (sl_ofs sl)) referenced_value)))"

text \<open>
  A reference to a reference is followed as well, so reading need not end;
  that an entry is found at every offset in use is part of the well-formedness below.
\<close>

partial_function (option) nv_table_get_value :: "nv_table \<Rightarrow> nvhandle \<Rightarrow> string option" where
  "nv_table_get_value self handle =
     (case snd (nv_table_get_entry self handle) of
        None \<Rightarrow> Some ''''
      | Some ofs \<Rightarrow> do {
          entry \<leftarrow> nt_mem self ofs;
          case ne_value entry of
            Vdirect v \<Rightarrow> Some v
          | Vindirect sl \<Rightarrow> do {
              referenced_value \<leftarrow> nv_table_get_value self (sl_handle sl);
              nv_slice referenced_value sl
            }
        })"

declare nv_table_get_value.simps [code]

definition nv_table_resolve_indirect :: "nv_table \<Rightarrow> nv_referenced_slice \<Rightarrow> string option" where
  "nv_table_resolve_indirect self sl = do {
     referenced_value \<leftarrow> nv_table_get_value self (sl_handle sl);
     nv_slice referenced_value sl
   }"

definition nv_table_resolve_entry :: "nv_table \<Rightarrow> nv_entry \<Rightarrow> string option" where
  "nv_table_resolve_entry self entry =
     (case ne_value entry of Vdirect v \<Rightarrow> Some v | Vindirect sl \<Rightarrow> nv_table_resolve_indirect self sl)"

subsection \<open>Visiting all entries\<close>

datatype nv_slot = Static nat | Dyn nat

fun nv_slot_entry :: "nv_table \<Rightarrow> nv_slot \<Rightarrow> nvhandle \<times> nat" where
  "nv_slot_entry self (Static i) = (of_nat i + 1, nt_static_entries self ! i)"
| "nv_slot_entry self (Dyn i) = nt_dyn_entries self ! i"

text \<open>
  The callback works on a state from which the table is read again for every slot,
  because it may change the table.  It never changes the number of slots.
\<close>

fun nv_visit_slots ::
    "('s \<Rightarrow> nv_table) \<Rightarrow> (nvhandle \<Rightarrow> nat \<Rightarrow> 's \<Rightarrow> (bool \<times> 's) option) \<Rightarrow> nv_slot list \<Rightarrow> 's \<Rightarrow> (bool \<times> 's) option" where
  "nv_visit_slots table func [] s = Some (False, s)"
| "nv_visit_slots table func (x # xs) s =
     (let (handle, ofs) = nv_slot_entry (table s) x in
      case nv_table_get_entry_at_ofs (table s) ofs of
        None \<Rightarrow> nv_visit_slots table func xs s
      | Some entry \<Rightarrow> do {
          (stop, s) \<leftarrow> func handle entry s;
          if stop then Some (True, s) else nv_visit_slots table func xs s
        })"

definition nv_slots :: "nv_table \<Rightarrow> nv_slot list" where
  "nv_slots self = map Static [0..<num_static_entries self] @ map Dyn [0..<num_dyn_entries self]"

definition nv_table_foreach_entry ::
    "('s \<Rightarrow> nv_table) \<Rightarrow> (nvhandle \<Rightarrow> nat \<Rightarrow> 's \<Rightarrow> (bool \<times> 's) option) \<Rightarrow> 's \<Rightarrow> (bool \<times> 's) option" where
  "nv_table_foreach_entry table func s = nv_visit_slots table func (nv_slots (table s)) s"

text \<open>\<^verbatim>\<open>nv_table_foreach()\<close> hands the name of the handle in the registry and the value of the entry to the callback.\<close>

definition nv_table_call_foreach ::
    "nv_table \<Rightarrow> (nvhandle \<Rightarrow> string) \<Rightarrow> (nvhandle \<Rightarrow> string \<Rightarrow> string \<Rightarrow> 's \<Rightarrow> (bool \<times> 's) option) \<Rightarrow>
     nvhandle \<Rightarrow> nat \<Rightarrow> 's \<Rightarrow> (bool \<times> 's) option" where
  "nv_table_call_foreach self registry_name func handle ofs s = do {
     entry \<leftarrow> nt_mem self ofs;
     value \<leftarrow> nv_table_resolve_entry self entry;
     func handle (registry_name handle) value s
   }"

definition nv_table_foreach ::
    "nv_table \<Rightarrow> (nvhandle \<Rightarrow> string) \<Rightarrow> (nvhandle \<Rightarrow> string \<Rightarrow> string \<Rightarrow> 's \<Rightarrow> (bool \<times> 's) option) \<Rightarrow>
     's \<Rightarrow> (bool \<times> 's) option" where
  "nv_table_foreach self registry_name func s =
     nv_table_foreach_entry (\<lambda>_. self) (nv_table_call_foreach self registry_name func) s"

subsection \<open>Space\<close>

definition nv_table_get_ofs_table_top :: "nv_table \<Rightarrow> nat" where
  "nv_table_get_ofs_table_top self = NV_TABLE_DATA + num_static_entries self * 4 + num_dyn_entries self * 8"

definition nv_table_get_bottom :: "nv_table \<Rightarrow> int" where
  "nv_table_get_bottom self = int (nt_size self) - int (nt_used self)"

text \<open>The difference of the pointers is signed, but it is compared to the unsigned size.\<close>

definition nv_table_alloc_check :: "nv_table \<Rightarrow> nat \<Rightarrow> bool" where
  "nv_table_alloc_check self alloc_size \<longleftrightarrow>
     \<not> nat ((nv_table_get_bottom self - int (nv_table_get_ofs_table_top self)) mod 2 ^ 64) < alloc_size"

text \<open>The content of a new entry is written by the caller.\<close>

definition nv_table_alloc_value :: "nv_table \<Rightarrow> nat \<Rightarrow> nat option \<times> nv_table" where
  "nv_table_alloc_value self alloc_size =
     (let alloc_size = NV_TABLE_BOUND alloc_size in
      if \<not> nv_table_alloc_check self alloc_size then (None, self)
      else
        let ofs = nt_used self + alloc_size
        in (Some ofs,
            self\<lparr>nt_used := ofs,
                 nt_mem := (nt_mem self)(ofs \<mapsto>
                   \<lparr>ne_referenced = False, ne_name = '''', ne_alloc_len = alloc_size, ne_value = Vdirect ''''\<rparr>)\<rparr>))"

text \<open>
  Here the handle of an entry is read into a \<open>guint16\<close>.  When the handle is
  found although the caller did not find it, the rest of the array is still moved, and the last
  entry falls off the end.  The number of entries is a \<open>guint16\<close>.
\<close>

definition nv_table_reserve_table_entry ::
    "nv_table \<Rightarrow> nvhandle \<Rightarrow> nat option \<Rightarrow> (bool \<times> nv_table \<times> nat option) option" where
  "nv_table_reserve_table_entry self handle dyn_slot =
     (if dyn_slot = None \<and> unat handle > num_static_entries self then
        if \<not> nv_table_alloc_check self 8 then Some (False, self, dyn_slot)
        else
          let dyn = nt_dyn_entries self; n = num_dyn_entries self;
              found = nv_search (\<lambda>mv. ucast (ucast mv :: u16)) dyn handle 0 (int n - 1);
              ndx = (case found of Inr m \<Rightarrow> m | Inl l \<Rightarrow> l)
          in do {
            g_assert (0 \<le> ndx \<and> ndx \<le> int n);
            let moved = take (nat ndx) dyn @ (handle, 0) # drop (nat ndx) dyn;
            let n' = (case found of Inr _ \<Rightarrow> n | Inl _ \<Rightarrow> unat (of_nat (n + 1) :: u16));
            Some (True, self\<lparr>nt_dyn_entries := take n' moved\<rparr>, Some (nat ndx))
          }
      else Some (True, self, dyn_slot))"

definition nv_table_set_table_entry :: "nv_table \<Rightarrow> nvhandle \<Rightarrow> nat \<Rightarrow> nat option \<Rightarrow> nv_table option" where
  "nv_table_set_table_entry self handle ofs dyn_slot =
     (if unat handle \<le> num_static_entries self then
        if handle = 0 then None
        else Some (self\<lparr>nt_static_entries := (nt_static_entries self)[unat handle - 1 := ofs]\<rparr>)
      else case dyn_slot of
             None \<Rightarrow> None
           | Some i \<Rightarrow> Some (self\<lparr>nt_dyn_entries := (nt_dyn_entries self)[i := (handle, ofs)]\<rparr>))"

definition nv_put_entry :: "nv_table \<Rightarrow> nat \<Rightarrow> nv_entry \<Rightarrow> nv_table" where
  "nv_put_entry self ofs entry = self\<lparr>nt_mem := (nt_mem self)(ofs \<mapsto> entry)\<rparr>"

text \<open>The length of a stored name is a \<open>guint8\<close>.\<close>

definition nv_stored_name :: "string \<Rightarrow> string" where
  "nv_stored_name name = take (length name mod 256) name"

subsection \<open>Storing a value\<close>

text \<open>
  The end of \<^verbatim>\<open>nv_table_add_value()\<close>: the value goes into the space of the existing
  entry when it fits there, and into a new entry otherwise.  The results are the return
  value, the table and \<^verbatim>\<open>*new_entry\<close>.
\<close>

definition nv_store_new_value ::
    "nv_table \<Rightarrow> nat option \<Rightarrow> nvhandle \<Rightarrow> string \<Rightarrow> string \<Rightarrow> (bool \<times> nv_table) option" where
  "nv_store_new_value self dyn_slot handle name value = do {
     (reserved, self, dyn_slot) \<leftarrow> nv_table_reserve_table_entry self handle dyn_slot;
     if \<not> reserved then Some (False, self)
     else case nv_table_alloc_value self (NV_ENTRY_DIRECT_HDR + length name + length value + 2) of
            (None, self) \<Rightarrow> Some (False, self)
          | (Some ofs, self) \<Rightarrow> do {
              e \<leftarrow> nt_mem self ofs;
              let self = nv_put_entry self ofs
                (e\<lparr>ne_name := (if unat handle \<ge> num_static_entries self then nv_stored_name name else ''''),
                   ne_value := Vdirect value\<rparr>);
              self \<leftarrow> nv_table_set_table_entry self handle ofs dyn_slot;
              Some (True, self)
            }
   }"

definition nv_store_value ::
    "bool \<Rightarrow> nv_table \<Rightarrow> nat option \<Rightarrow> nat option \<Rightarrow> nvhandle \<Rightarrow> string \<Rightarrow> string \<Rightarrow> (bool \<times> nv_table \<times> bool) option" where
  "nv_store_value want_new self dyn_slot entry handle name value = do {
     room \<leftarrow> (case entry of
                None \<Rightarrow> Some None
              | Some ofs \<Rightarrow> do {
                  e \<leftarrow> nt_mem self ofs;
                  Some (if ne_alloc_len e \<ge> length value + NV_ENTRY_DIRECT_HDR + length name + 2
                        then Some (ofs, e) else None)
                });
     case room of
       Some (ofs, e) \<Rightarrow>
         Some (True,
               nv_put_entry self ofs
                 (if indirect e then e\<lparr>ne_name := nv_stored_name name, ne_value := Vdirect value\<rparr>
                  else e\<lparr>ne_value := Vdirect value\<rparr>),
               False)
     | None \<Rightarrow> do {
         (ok, self) \<leftarrow> nv_store_new_value self dyn_slot handle name value;
         Some (ok, self, want_new \<and> entry = None)
       }
   }"

definition nv_table_make_direct ::
    "(nv_table \<Rightarrow> nvhandle \<Rightarrow> string \<Rightarrow> string \<Rightarrow> (bool \<times> nv_table \<times> bool) option) \<Rightarrow> nvhandle \<Rightarrow>
     nvhandle \<Rightarrow> nat \<Rightarrow> nv_table \<Rightarrow> (bool \<times> nv_table) option" where
  "nv_table_make_direct add_value ref_handle handle ofs self = do {
     entry \<leftarrow> nt_mem self ofs;
     case ne_value entry of
       Vdirect _ \<Rightarrow> Some (False, self)
     | Vindirect sl \<Rightarrow>
         if sl_handle sl = ref_handle then do {
           value \<leftarrow> nv_table_resolve_indirect self sl;
           (ok, self, _) \<leftarrow> add_value self handle (ne_name entry) value;
           Some (\<not> ok, self)
         }
         else Some (False, self)
   }"

text \<open>
  \<^verbatim>\<open>nv_table_add_value()\<close> and \<^verbatim>\<open>nv_table_make_direct()\<close> call each other.  The first
  argument bounds the depth of these calls; depth 2 is enough, because the inner call is
  made for a reference, for which no further entry is made direct (shown below).
\<close>

primrec nv_add_value_depth ::
    "nat \<Rightarrow> bool \<Rightarrow> nv_table \<Rightarrow> nvhandle \<Rightarrow> string \<Rightarrow> string \<Rightarrow> (bool \<times> nv_table \<times> bool) option" where
  "nv_add_value_depth 0 want_new self handle name value = None"
| "nv_add_value_depth (Suc depth) want_new self handle name value =
     (let value = take (nv_table_get_size (length value)) value;
          (dyn_slot, entry) = nv_table_get_entry self handle
      in if entry = None \<and> \<not> want_new \<and> value = '''' then Some (True, self, False)
         else do {
           (full, self) \<leftarrow> (case entry of
               None \<Rightarrow> Some (False, self)
             | Some ofs \<Rightarrow> do {
                 e \<leftarrow> nt_mem self ofs;
                 if \<not> indirect e \<and> ne_referenced e
                 then nv_table_foreach_entry (\<lambda>t. t) (nv_table_make_direct (nv_add_value_depth depth False) handle) self
                 else Some (False, self)
               });
           if full then Some (False, self, False)
           else nv_store_value want_new self dyn_slot entry handle name value
         })"

definition nv_table_add_value ::
    "bool \<Rightarrow> nv_table \<Rightarrow> nvhandle \<Rightarrow> string \<Rightarrow> string \<Rightarrow> (bool \<times> nv_table \<times> bool) option" where
  "nv_table_add_value = nv_add_value_depth 2"

subsection \<open>Storing a reference\<close>

definition nv_table_set_indirect_entry ::
    "nv_table \<Rightarrow> nvhandle \<Rightarrow> nat \<Rightarrow> string \<Rightarrow> nv_referenced_slice \<Rightarrow> nv_table option" where
  "nv_table_set_indirect_entry self handle ofs name referenced_slice = do {
     entry \<leftarrow> nt_mem self ofs;
     Some (nv_put_entry self ofs
       (if indirect entry then entry\<lparr>ne_value := Vindirect referenced_slice\<rparr>
        else entry\<lparr>ne_name := (if unat handle \<ge> num_static_entries self then nv_stored_name name else ''''),
                   ne_value := Vindirect referenced_slice\<rparr>))
   }"

definition nv_mark_referenced :: "nv_table \<Rightarrow> nat \<Rightarrow> nv_table option" where
  "nv_mark_referenced self ref_ofs = do {
     ref_entry \<leftarrow> nt_mem self ref_ofs;
     Some (nv_put_entry self ref_ofs (ref_entry\<lparr>ne_referenced := True\<rparr>))
   }"

definition nv_table_copy_referenced_value ::
    "bool \<Rightarrow> nv_table \<Rightarrow> nat option \<Rightarrow> nvhandle \<Rightarrow> string \<Rightarrow> nv_referenced_slice \<Rightarrow> (bool \<times> nv_table \<times> bool) option" where
  "nv_table_copy_referenced_value want_new self ref_entry handle name ref_slice = do {
     ref_ofs \<leftarrow> ref_entry;
     e \<leftarrow> nt_mem self ref_ofs;
     ref_value \<leftarrow> nv_table_resolve_entry self e;
     let (ofs, len) =
       (if unat (sl_ofs ref_slice) > length ref_value then (0, 0)
        else (sl_ofs ref_slice,
              of_int (min (int (unat (sl_ofs ref_slice + sl_len ref_slice))) (int (length ref_value)) -
                      int (unat (sl_ofs ref_slice))) :: u32));
     g_assert (unat ofs + unat len \<le> length ref_value);
     nv_table_add_value want_new self handle name (take (unat len) (drop (unat ofs) ref_value))
   }"

text \<open>
  The end of \<^verbatim>\<open>nv_table_add_value_indirect()\<close>: the reference goes into the space of
  the existing entry or into a new entry, and the referenced entry is marked.
\<close>

definition nv_store_new_reference ::
    "nv_table \<Rightarrow> nat option \<Rightarrow> nat \<Rightarrow> nvhandle \<Rightarrow> string \<Rightarrow> nv_referenced_slice \<Rightarrow> (bool \<times> nv_table) option" where
  "nv_store_new_reference self dyn_slot ref_ofs handle name referenced_slice = do {
     (reserved, self, dyn_slot) \<leftarrow> nv_table_reserve_table_entry self handle dyn_slot;
     if \<not> reserved then Some (False, self)
     else case nv_table_alloc_value self (NV_ENTRY_INDIRECT_HDR + length name + 1) of
            (None, self) \<Rightarrow> Some (False, self)
          | (Some ofs, self) \<Rightarrow> do {
              self \<leftarrow> nv_table_set_indirect_entry self handle ofs name referenced_slice;
              self \<leftarrow> nv_mark_referenced self ref_ofs;
              self \<leftarrow> nv_table_set_table_entry self handle ofs dyn_slot;
              Some (True, self)
            }
   }"

definition nv_store_reference ::
    "bool \<Rightarrow> nv_table \<Rightarrow> nat option \<Rightarrow> nat option \<Rightarrow> nat \<Rightarrow> nvhandle \<Rightarrow> string \<Rightarrow> nv_referenced_slice \<Rightarrow>
     (bool \<times> nv_table \<times> bool) option" where
  "nv_store_reference want_new self dyn_slot entry ref_ofs handle name referenced_slice = do {
     room \<leftarrow> (case entry of
                None \<Rightarrow> Some None
              | Some ofs \<Rightarrow> do {
                  e \<leftarrow> nt_mem self ofs;
                  Some (if ne_alloc_len e \<ge> NV_ENTRY_INDIRECT_HDR + length name + 1 then Some ofs else None)
                });
     case room of
       Some ofs \<Rightarrow> do {
         self \<leftarrow> nv_table_set_indirect_entry self handle ofs name referenced_slice;
         self \<leftarrow> nv_mark_referenced self ref_ofs;
         Some (True, self, False)
       }
     | None \<Rightarrow> do {
         (ok, self) \<leftarrow> nv_store_new_reference self dyn_slot ref_ofs handle name referenced_slice;
         Some (ok, self, want_new \<and> entry = None)
       }
   }"

text \<open>
  The result of making the references to a value direct is tested the other way round than in
  \<^verbatim>\<open>nv_table_add_value()\<close>: the function gives up when it succeeded.
\<close>

definition nv_table_add_value_indirect ::
    "bool \<Rightarrow> nv_table \<Rightarrow> nvhandle \<Rightarrow> string \<Rightarrow> nv_referenced_slice \<Rightarrow> (bool \<times> nv_table \<times> bool) option" where
  "nv_table_add_value_indirect want_new self handle name referenced_slice = do {
     let ref_entry = snd (nv_table_get_entry self (sl_handle referenced_slice));
     ref_indirect \<leftarrow> (case ref_entry of None \<Rightarrow> Some False | Some ofs \<Rightarrow> map_option indirect (nt_mem self ofs));
     if ref_indirect \<or> handle = sl_handle referenced_slice
     then nv_table_copy_referenced_value want_new self ref_entry handle name referenced_slice
     else
       let (dyn_slot, entry) = nv_table_get_entry self handle in
       case ref_entry of
         None \<Rightarrow> Some (True, self, False)
       | Some ref_ofs \<Rightarrow>
           if entry = None \<and> \<not> want_new \<and> sl_len referenced_slice = 0 then Some (True, self, False)
           else do {
             (give_up, self) \<leftarrow> (case entry of
                 None \<Rightarrow> Some (False, self)
               | Some ofs \<Rightarrow> do {
                   e \<leftarrow> nt_mem self ofs;
                   if \<not> indirect e \<and> ne_referenced e
                   then do {
                     (stopped, self) \<leftarrow> nv_table_foreach_entry (\<lambda>t. t)
                       (nv_table_make_direct (nv_table_add_value False) handle) self;
                     Some (\<not> stopped, self)
                   }
                   else Some (False, self)
                 });
             if give_up then Some (False, self, False)
             else nv_store_reference want_new self dyn_slot entry ref_ofs handle name referenced_slice
           }
   }"

subsection \<open>Growing and copying\<close>

definition nv_table_ref :: "nv_table \<Rightarrow> nv_table" where
  "nv_table_ref self = self\<lparr>nt_ref_cnt := nt_ref_cnt self + 1\<rparr>"

text \<open>The result is what is left of the table: nothing once its memory is released.\<close>

definition nv_table_unref :: "nv_table \<Rightarrow> nv_table option" where
  "nv_table_unref self =
     (let self = self\<lparr>nt_ref_cnt := nt_ref_cnt self - 1\<rparr>
      in if nt_ref_cnt self = 0 \<and> \<not> nt_borrowed self then None else Some self)"

definition calc_nv_table_realloc_size :: "nv_table \<Rightarrow> nat" where
  "calc_nv_table_realloc_size self = nv_table_get_size (nt_size self * 2)"

text \<open>
  The result is \<open>None\<close> when the table cannot grow, otherwise the new table and
  what is left of the old one.
\<close>

definition nv_table_realloc :: "nv_table \<Rightarrow> (nv_table \<times> nv_table option) option" where
  "nv_table_realloc self =
     (let new_size = calc_nv_table_realloc_size self in
      if new_size = nt_size self then None
      else if nt_ref_cnt self = 1 \<and> \<not> nt_borrowed self
      then Some (self\<lparr>nt_size := nv_table_get_size new_size\<rparr>, None)
      else Some (self\<lparr>nt_ref_cnt := 1, nt_borrowed := False, nt_size := new_size\<rparr>, nv_table_unref self))"

definition nv_table_clone :: "nv_table \<Rightarrow> nat \<Rightarrow> nv_table" where
  "nv_table_clone self additional_space =
     (let new_size =
        (if nv_table_get_bottom self - int (nv_table_get_ofs_table_top self) < int additional_space
         then nt_size self
         else nt_size self + NV_TABLE_BOUND additional_space)
      in self\<lparr>nt_size := nv_table_get_size new_size, nt_ref_cnt := 1, nt_borrowed := False\<rparr>)"

text \<open>Comparisons with handles and with the size limit, for evaluation in the integers.\<close>

lemma the_nat_unat: "Word.the_nat w = unat w"
  by transfer simp

lemma handle_compare_code [code_unfold]:
  "Word.the_nat (h :: nvhandle) \<le> n \<longleftrightarrow> uint h \<le> int n"
  "n < Word.the_nat (h :: nvhandle) \<longleftrightarrow> int n < uint h"
  "n \<le> Word.the_nat (h :: nvhandle) \<longleftrightarrow> int n \<le> uint h"
  by (simp_all only: the_nat_unat uint_nat of_nat_le_iff of_nat_less_iff)

lemma nv_table_get_size_code [code]:
  "nv_table_get_size sz = (if int sz \<le> 268435456 then sz else NV_TABLE_MAX_BYTES)"
  by (simp add: nv_table_get_size_def NV_TABLE_MAX_BYTES_def)

lemma nv_table_get_alloc_size_code [code]:
  "nv_table_get_alloc_size num_static num_dyn_values init_length =
     (let sz = NV_TABLE_BOUND init_length + NV_TABLE_BOUND (NV_TABLE_SIZEOF + num_static * 4 + num_dyn_values * 8)
      in if sz < 128 then 128 else nv_table_get_size sz)"
  by (simp add: nv_table_get_alloc_size_def nv_table_get_size_def Let_def)

end
