(* ===== verification/Nv_Lookup.thy ===== *)
theory Nv_Lookup
  imports Nv_Table
begin

text \<open>
  Looking up an entry of a message payload: the binary search finds a handle of the sorted
  array exactly if it is there, so a lookup reads a finite map from handles to entries.
  The well-formedness of a payload is stated over this map.
\<close>

subsection \<open>The binary search\<close>

declare nv_search.simps [simp del]

lemma nv_search_cong:
  assumes "\<And>x. x \<in> fst ` set dyn \<Longrightarrow> f x = g x" and "0 \<le> l" and "h < int (length dyn)"
  shows "nv_search f dyn handle l h = nv_search g dyn handle l h"
  using assms
proof (induction f dyn handle l h rule: nv_search.induct)
  case (1 f dyn handle l h)
  show ?case
  proof (cases "l \<le> h")
    case True
    define m where "m = (l + h) div 2"
    have m: "l \<le> m" "m \<le> h" using True by (auto simp: m_def)
    have mem: "fst (dyn ! nat m) \<in> fst ` set dyn" using 1(4,5) m by simp
    have eq: "f (fst (dyn ! nat m)) = g (fst (dyn ! nat m))" by (rule 1(3)) (rule mem)
    have "f (fst (dyn ! nat m)) \<noteq> handle \<Longrightarrow> handle < f (fst (dyn ! nat m)) \<Longrightarrow>
        nv_search f dyn handle l (m - 1) = nv_search g dyn handle l (m - 1)"
      by (rule 1(1) [OF True m_def refl]) (use 1(3,4,5) m in auto)
    moreover have "f (fst (dyn ! nat m)) \<noteq> handle \<Longrightarrow> \<not> handle < f (fst (dyn ! nat m)) \<Longrightarrow>
        nv_search f dyn handle (m + 1) h = nv_search g dyn handle (m + 1) h"
      by (rule 1(2) [OF True m_def refl]) (use 1(3,4,5) m in auto)
    ultimately show ?thesis
      using True eq by (simp add: nv_search.simps [of f] nv_search.simps [of g] Let_def flip: m_def)
  qed (simp add: nv_search.simps)
qed

definition search_result :: "(nvhandle \<times> nat) list \<Rightarrow> nvhandle \<Rightarrow> int + int \<Rightarrow> bool" where
  "search_result dyn handle r = (case r of
     Inr m \<Rightarrow> 0 \<le> m \<and> m < int (length dyn) \<and> fst (dyn ! nat m) = handle
   | Inl k \<Rightarrow> 0 \<le> k \<and> k \<le> int (length dyn) \<and> (\<forall>i < nat k. fst (dyn ! i) < handle) \<and>
       (\<forall>i < length dyn. nat k \<le> i \<longrightarrow> handle < fst (dyn ! i)))"

lemma sorted_fst_nth:
  assumes "sorted_wrt (<) (map fst dyn)" and "i < j" and "j < length dyn"
  shows "fst (dyn ! i) < fst (dyn ! j)"
  using sorted_wrt_nth_less [OF assms(1), of i j] assms(2,3) by simp

lemma nv_search_result:
  assumes "sorted_wrt (<) (map fst dyn)" and "0 \<le> l" and "h < int (length dyn)" and "l \<le> h + 1"
    and "\<And>i. i < nat l \<Longrightarrow> fst (dyn ! i) < handle"
    and "\<And>i. i < length dyn \<Longrightarrow> h < int i \<Longrightarrow> handle < fst (dyn ! i)"
  shows "search_result dyn handle (nv_search id dyn handle l h)"
  using assms
proof (induction "id :: nvhandle \<Rightarrow> nvhandle" dyn handle l h rule: nv_search.induct)
  case (1 dyn handle l h)
  show ?case
  proof (cases "l \<le> h")
    case True
    define m where "m = (l + h) div 2"
    have m: "l \<le> m" "m \<le> h" using True by (auto simp: m_def)
    define mv where "mv = fst (dyn ! nat m)"
    consider "mv = handle" | "handle < mv" | "mv < handle" by (rule linorder_cases)
    then show ?thesis
    proof cases
      case 1
      then show ?thesis using True m "1.prems"(2,3) mv_def
        by (simp add: nv_search.simps [of id] search_result_def Let_def flip: m_def)
    next
      case 2
      have up: "handle < fst (dyn ! i)" if "i < length dyn" "m - 1 < int i" for i
      proof (cases "i = nat m")
        case False
        then have "nat m < i" using that(2) m "1.prems"(2) by linarith
        then have "mv < fst (dyn ! i)"
          unfolding mv_def using "1.prems"(1) that(1) by (intro sorted_fst_nth)
        then show ?thesis using 2 by (rule less_trans [rotated])
      qed (use 2 in \<open>simp add: mv_def\<close>)
      have "id mv \<noteq> handle" "handle < id mv" using 2 by auto
      then have "search_result dyn handle (nv_search id dyn handle l (m - 1))"
        using "1.prems"(1,2,3,5) m up by (intro "1.hyps"(1) [OF True m_def, of "id mv"]) (auto simp: mv_def)
      then show ?thesis using True 2 mv_def less_imp_neq [OF 2]
        by (simp add: nv_search.simps [of id dyn handle l h] Let_def flip: m_def)
    next
      case 3
      have low: "fst (dyn ! i) < handle" if "i < nat (m + 1)" for i
      proof (cases "i = nat m")
        case False
        then have "i < nat m" using that m "1.prems"(2) by linarith
        then have "fst (dyn ! i) < mv"
          unfolding mv_def using "1.prems"(1,2,3) m by (intro sorted_fst_nth) linarith+
        then show ?thesis using 3 by (rule less_trans)
      qed (use 3 in \<open>simp add: mv_def\<close>)
      have "id mv \<noteq> handle" "\<not> handle < id mv" using 3 by auto
      then have "search_result dyn handle (nv_search id dyn handle (m + 1) h)"
        using "1.prems"(1,2,3,6) m low by (intro "1.hyps"(2) [OF True m_def, of "id mv"]) (auto simp: mv_def)
      then show ?thesis using True 3 mv_def less_imp_neq [OF 3] less_not_sym [OF 3]
        by (simp add: nv_search.simps [of id dyn handle l h] Let_def flip: m_def)
    qed
  next
    case False
    then have "l = h + 1" using "1.prems"(4) by linarith
    moreover have "nv_search id dyn handle l h = Inl l" using False by (simp add: nv_search.simps [of id])
    ultimately show ?thesis using "1.prems"(2,3,5,6) by (auto simp: search_result_def nat_le_iff)
  qed
qed

lemma nv_search_whole:
  assumes "sorted_wrt (<) (map fst dyn)"
  shows "search_result dyn handle (nv_search id dyn handle 0 (int (length dyn) - 1))"
  by (rule nv_search_result [OF assms]) auto

lemma search_result_absent:
  assumes "search_result dyn handle (Inl k)"
  shows "handle \<notin> fst ` set dyn"
proof
  assume "handle \<in> fst ` set dyn"
  then obtain i where i: "i < length dyn" "fst (dyn ! i) = handle" by (auto simp: in_set_conv_nth)
  then show False using assms by (cases "i < nat k") (auto simp: search_result_def)
qed

lemma search_result_present:
  assumes "search_result dyn handle (Inr m)"
  shows "handle \<in> fst ` set dyn"
proof -
  have "dyn ! nat m \<in> set dyn" "fst (dyn ! nat m) = handle"
    using assms by (auto simp: search_result_def intro!: nth_mem)
  then show ?thesis by force
qed

subsection \<open>The entry of a handle\<close>

definition nv_ofs :: "nv_table \<Rightarrow> nvhandle \<Rightarrow> nat" where
  "nv_ofs t h =
     (if h = 0 then 0
      else if unat h \<le> num_static_entries t then nt_static_entries t ! (unat h - 1)
      else case map_of (nt_dyn_entries t) h of None \<Rightarrow> 0 | Some ofs \<Rightarrow> ofs)"

definition nv_at :: "nv_table \<Rightarrow> nvhandle \<Rightarrow> nv_entry option" where
  "nv_at t h = (if nv_ofs t h = 0 then None else nt_mem t (nv_ofs t h))"

definition dyn_sorted :: "nv_table \<Rightarrow> bool" where
  "dyn_sorted t \<longleftrightarrow> sorted_wrt (<) (map fst (nt_dyn_entries t))"

lemma dyn_sorted_distinct: "dyn_sorted t \<Longrightarrow> distinct (map fst (nt_dyn_entries t))"
  unfolding dyn_sorted_def by (simp add: strict_sorted_iff)

lemma map_of_dyn:
  assumes "dyn_sorted t" and "i < num_dyn_entries t"
  shows "map_of (nt_dyn_entries t) (fst (nt_dyn_entries t ! i)) = Some (snd (nt_dyn_entries t ! i))"
  using assms dyn_sorted_distinct [OF assms(1)] by (simp add: map_of_eq_Some_iff num_dyn_entries_def)

lemma nv_table_get_entry_slow_cases:
  assumes "dyn_sorted t" and "unat h > num_static_entries t"
  obtains (absent) "nv_table_get_entry_slow t h = (None, None)" "h \<notin> fst ` set (nt_dyn_entries t)"
  | (slot) i where "i < num_dyn_entries t" "fst (nt_dyn_entries t ! i) = h"
      "nv_table_get_entry_slow t h =
         (Some i, if snd (nt_dyn_entries t ! i) = 0 then None else Some (snd (nt_dyn_entries t ! i)))"
proof (cases "num_dyn_entries t = 0")
  case True
  then show ?thesis by (intro absent) (simp_all add: nv_table_get_entry_slow_def num_dyn_entries_def)
next
  case False
  define r where "r = nv_search id (nt_dyn_entries t) h 0 (int (num_dyn_entries t) - 1)"
  have r: "search_result (nt_dyn_entries t) h r"
    unfolding r_def num_dyn_entries_def using assms(1) by (intro nv_search_whole) (simp add: dyn_sorted_def)
  show ?thesis
  proof (cases r)
    case (Inl k)
    then show ?thesis using r False r_def
      by (intro absent) (auto simp: nv_table_get_entry_slow_def nv_table_get_entry_at_ofs_def dest: search_result_absent)
  next
    case (Inr m)
    show ?thesis
      by (rule slot [of "nat m"])
        (use r False Inr r_def in
          \<open>auto simp: nv_table_get_entry_slow_def nv_table_get_entry_at_ofs_def search_result_def num_dyn_entries_def\<close>)
  qed
qed

text \<open>What a lookup returns: the slot in the dynamic array and the offset of the entry.\<close>

definition slot_ok :: "nv_table \<Rightarrow> nvhandle \<Rightarrow> nat option \<Rightarrow> bool" where
  "slot_ok t h slot = (case slot of
     None \<Rightarrow> unat h \<le> num_static_entries t \<or> h \<notin> fst ` set (nt_dyn_entries t)
   | Some i \<Rightarrow> unat h > num_static_entries t \<and> i < num_dyn_entries t \<and> fst (nt_dyn_entries t ! i) = h)"

lemma nv_table_get_entry_result:
  assumes "dyn_sorted t"
  obtains slot where "nv_table_get_entry t h = (slot, if nv_ofs t h = 0 then None else Some (nv_ofs t h))"
    and "slot_ok t h slot"
proof (cases "unat h \<le> num_static_entries t")
  case True
  then show ?thesis
    by (intro that [of None]) (auto simp: nv_table_get_entry_def nv_ofs_def slot_ok_def Let_def)
next
  case False
  then have pos: "h \<noteq> 0" and gt: "num_static_entries t < unat h" by auto
  show ?thesis
  proof (rule nv_table_get_entry_slow_cases [OF assms gt])
    assume e: "nv_table_get_entry_slow t h = (None, None)" and a: "h \<notin> fst ` set (nt_dyn_entries t)"
    from a have "map_of (nt_dyn_entries t) h = None" by (simp add: map_of_eq_None_iff)
    then show ?thesis using False pos e a
      by (intro that [of None]) (auto simp: nv_table_get_entry_def nv_ofs_def slot_ok_def)
  next
    fix i assume i: "i < num_dyn_entries t" "fst (nt_dyn_entries t ! i) = h"
      and e: "nv_table_get_entry_slow t h =
         (Some i, if snd (nt_dyn_entries t ! i) = 0 then None else Some (snd (nt_dyn_entries t ! i)))"
    then show ?thesis using False pos map_of_dyn [OF assms i(1)]
      by (intro that [of "Some i"]) (auto simp: nv_table_get_entry_def nv_ofs_def slot_ok_def)
  qed
qed

lemma get_entry_snd:
  assumes "dyn_sorted t"
  shows "snd (nv_table_get_entry t h) = (if nv_ofs t h = 0 then None else Some (nv_ofs t h))"
  by (rule nv_table_get_entry_result [OF assms, of h]) simp

lemma nv_ofs_0 [simp]: "nv_ofs t 0 = 0" "nv_at t 0 = None"
  by (simp_all add: nv_ofs_def nv_at_def)

subsection \<open>Well-formed payloads\<close>

text \<open>The entries occupy disjoint areas between the end of the block and \<open>used\<close> bytes before it.\<close>

definition chunks_ok :: "(nat \<Rightarrow> nv_entry option) \<Rightarrow> nat \<Rightarrow> bool" where
  "chunks_ok mem used \<longleftrightarrow>
     (\<forall>ofs e. mem ofs = Some e \<longrightarrow>
        0 < ne_alloc_len e \<and> ne_alloc_len e \<le> ofs \<and> ofs \<le> used \<and>
        (\<forall>ofs' e'. mem ofs' = Some e' \<longrightarrow> ofs' < ofs \<longrightarrow> ofs' \<le> ofs - ne_alloc_len e))"

definition nv_layout :: "nv_table \<Rightarrow> bool" where
  "nv_layout t \<longleftrightarrow>
     num_static_entries t \<le> 255 \<and> nt_size t \<le> NV_TABLE_MAX_BYTES \<and>
     nv_table_get_ofs_table_top t + nt_used t \<le> nt_size t \<and>
     dyn_sorted t \<and> (\<forall>h \<in> fst ` set (nt_dyn_entries t). num_static_entries t < unat h \<and> unat h < 65536) \<and>
     (\<forall>h. nv_ofs t h \<noteq> 0 \<longrightarrow> nt_mem t (nv_ofs t h) \<noteq> None) \<and>
     (\<forall>h h'. nv_ofs t h \<noteq> 0 \<longrightarrow> nv_ofs t h = nv_ofs t h' \<longrightarrow> h = h') \<and>
     chunks_ok (nt_mem t) (nt_used t)"

text \<open>
  The bytes of an entry stay within its area: a direct entry holds its name and its value, each
  followed by a NUL; the name of a reference starts at byte 21.
\<close>

definition entry_fits :: "nv_entry \<Rightarrow> bool" where
  "entry_fits e = (case ne_value e of
     Vdirect v \<Rightarrow> NV_ENTRY_DIRECT_HDR + length (ne_name e) + 1 + length v + 1 \<le> ne_alloc_len e
   | Vindirect _ \<Rightarrow> 21 + length (ne_name e) + 1 \<le> ne_alloc_len e)"

definition entry_ok :: "(nvhandle \<Rightarrow> string) \<Rightarrow> nvhandle \<Rightarrow> nv_entry \<Rightarrow> bool" where
  "entry_ok names h e \<longleftrightarrow> entry_fits e \<and> (ne_name e = '''' \<or> ne_name e = names h)"

text \<open>References are to direct values that are marked as referenced, and only one level deep.\<close>

definition ref_ok :: "(nvhandle \<Rightarrow> nv_entry option) \<Rightarrow> nv_entry \<Rightarrow> bool" where
  "ref_ok at e = (case ne_value e of
     Vdirect _ \<Rightarrow> True
   | Vindirect sl \<Rightarrow> unat (sl_ofs sl) + unat (sl_len sl) < 2 ^ 32 \<and>
       (\<exists>e'. at (sl_handle sl) = Some e' \<and> \<not> indirect e' \<and> ne_referenced e'))"

definition entries_ok :: "(nvhandle \<Rightarrow> string) \<Rightarrow> (nvhandle \<Rightarrow> nv_entry option) \<Rightarrow> bool" where
  "entries_ok names at \<longleftrightarrow> (\<forall>h e. at h = Some e \<longrightarrow> entry_ok names h e \<and> ref_ok at e)"

definition nv_wf :: "(nvhandle \<Rightarrow> string) \<Rightarrow> nv_table \<Rightarrow> bool" where
  "nv_wf names t \<longleftrightarrow> nv_layout t \<and> entries_ok names (nv_at t)"

subsection \<open>The values of a payload\<close>

text \<open>A payload is a finite map from handles to values; references are resolved.\<close>

definition direct_value :: "(nvhandle \<Rightarrow> nv_entry option) \<Rightarrow> nvhandle \<Rightarrow> string" where
  "direct_value at h = (case at h of
     None \<Rightarrow> ''''
   | Some e \<Rightarrow> (case ne_value e of Vdirect v \<Rightarrow> v | Vindirect _ \<Rightarrow> ''''))"

definition entry_value :: "(nvhandle \<Rightarrow> nv_entry option) \<Rightarrow> nv_entry \<Rightarrow> string" where
  "entry_value at e = (case ne_value e of
     Vdirect v \<Rightarrow> v
   | Vindirect sl \<Rightarrow> take (unat (sl_len sl)) (drop (unat (sl_ofs sl)) (direct_value at (sl_handle sl))))"

definition values_of :: "(nvhandle \<Rightarrow> nv_entry option) \<Rightarrow> nvhandle \<Rightarrow> string option" where
  "values_of at h = map_option (entry_value at) (at h)"

definition nv_view :: "nv_table \<Rightarrow> nvhandle \<Rightarrow> string option" where
  "nv_view t = values_of (nv_at t)"

lemma nv_slice_take:
  assumes "unat (sl_ofs sl) + unat (sl_len sl) < 2 ^ 32"
  shows "nv_slice v sl = Some (take (unat (sl_len sl)) (drop (unat (sl_ofs sl)) v))"
proof (cases "unat (sl_ofs sl) > length v")
  case False
  have e: "unat (sl_ofs sl + sl_len sl) = unat (sl_ofs sl) + unat (sl_len sl)"
    using assms by (intro unat_add_u32) simp
  show ?thesis
  proof (cases "unat (sl_ofs sl) + unat (sl_len sl) \<le> length v")
    case True
    then show ?thesis using False e by (simp add: nv_slice_def Let_def min_def del: of_nat_unat)
  next
    case g: False
    then have "min (int (unat (sl_ofs sl + sl_len sl))) (int (length v)) = int (length v)"
      using e by (simp add: min_def del: of_nat_unat)
    then show ?thesis using False g
      by (simp add: nv_slice_def Let_def nat_diff_distrib' del: of_nat_unat)
  qed
qed (simp add: nv_slice_def)

lemma nv_layout_sorted: "nv_layout t \<Longrightarrow> dyn_sorted t"
  by (simp add: nv_layout_def)

lemma nv_at_SomeD:
  assumes "nv_at t h = Some e"
  shows "nv_ofs t h \<noteq> 0" "nt_mem t (nv_ofs t h) = Some e" "h \<noteq> 0"
proof -
  show "nv_ofs t h \<noteq> 0" and m: "nt_mem t (nv_ofs t h) = Some e"
    using assms by (simp_all add: nv_at_def split: if_splits)
  then show "h \<noteq> 0" by (auto simp: nv_ofs_def)
qed

lemma nv_at_NoneD:
  assumes "nv_layout t" and "nv_at t h = None"
  shows "nv_ofs t h = 0"
proof (rule ccontr)
  assume nz: "nv_ofs t h \<noteq> 0"
  then have "nt_mem t (nv_ofs t h) \<noteq> None" using assms(1) unfolding nv_layout_def by blast
  then show False using assms(2) nz by (simp add: nv_at_def)
qed

text \<open>What a lookup finds in a well-formed payload.\<close>

lemma get_entry_cases [consumes 1, case_names absent present]:
  assumes "nv_layout t"
  obtains (absent) slot where "nv_table_get_entry t h = (slot, None)" "slot_ok t h slot" "nv_at t h = None" "nv_ofs t h = 0"
  | (present) slot e where "nv_table_get_entry t h = (slot, Some (nv_ofs t h))" "slot_ok t h slot"
      "nv_at t h = Some e" "nt_mem t (nv_ofs t h) = Some e" "nv_ofs t h \<noteq> 0" "h \<noteq> 0"
proof -
  obtain slot where s: "nv_table_get_entry t h = (slot, if nv_ofs t h = 0 then None else Some (nv_ofs t h))" "slot_ok t h slot"
    by (rule nv_table_get_entry_result [OF nv_layout_sorted [OF assms], of h])
  show ?thesis
  proof (cases "nv_at t h")
    case None
    show ?thesis by (rule absent [of slot]) (use None s nv_at_NoneD [OF assms None] in simp_all)
  next
    case (Some e)
    show ?thesis by (rule present [of slot e]) (use Some s nv_at_SomeD [OF Some] in simp_all)
  qed
qed

lemma get_value_direct:
  assumes "nv_layout t" and "\<And>e. nv_at t h = Some e \<Longrightarrow> \<not> indirect e"
  shows "nv_table_get_value t h = Some (direct_value (nv_at t) h)"
  using assms(1)
proof (cases rule: get_entry_cases [where h = h])
  case (present slot e)
  then obtain v where "ne_value e = Vdirect v" using assms(2) [of e] by (cases "ne_value e") (auto simp: indirect_def)
  then show ?thesis using present by (simp add: nv_table_get_value.simps [of t h] direct_value_def)
qed (simp_all add: nv_table_get_value.simps [of t h] direct_value_def)

lemma ref_ok_resolve:
  assumes "nv_layout t" and "ref_ok (nv_at t) e" and "ne_value e = Vindirect sl"
  shows "nv_table_resolve_indirect t sl = Some (entry_value (nv_at t) e)"
proof -
  obtain e' where e': "nv_at t (sl_handle sl) = Some e'" "\<not> indirect e'"
      and nowrap: "unat (sl_ofs sl) + unat (sl_len sl) < 2 ^ 32"
    using assms(2,3) by (auto simp: ref_ok_def)
  have "nv_table_get_value t (sl_handle sl) = Some (direct_value (nv_at t) (sl_handle sl))"
    using e' by (intro get_value_direct [OF assms(1)]) simp
  then show ?thesis using assms(3)
    by (simp add: nv_table_resolve_indirect_def nv_slice_take [OF nowrap] entry_value_def)
qed

lemma nv_wf_entry:
  assumes "nv_wf names t" and "nv_at t h = Some e"
  shows "entry_ok names h e" "ref_ok (nv_at t) e" "nv_layout t"
  using assms by (auto simp: nv_wf_def entries_ok_def)

lemma resolve_entry_value:
  assumes "nv_wf names t" and "nv_at t h = Some e"
  shows "nv_table_resolve_entry t e = Some (entry_value (nv_at t) e)"
proof (cases "ne_value e")
  case (Vdirect v)
  then show ?thesis by (simp add: nv_table_resolve_entry_def entry_value_def)
next
  case (Vindirect sl)
  then show ?thesis
    using ref_ok_resolve [OF nv_wf_entry(3,2) [OF assms] Vindirect] by (simp add: nv_table_resolve_entry_def)
qed

lemma get_value_view:
  assumes "nv_wf names t"
  shows "nv_table_get_value t h = Some (case nv_view t h of None \<Rightarrow> '''' | Some v \<Rightarrow> v)"
proof -
  have l: "nv_layout t" using assms by (simp add: nv_wf_def)
  from l show ?thesis
  proof (cases rule: get_entry_cases [where h = h])
    case (present slot e)
    have "nv_table_get_value t h = nv_table_resolve_entry t e"
      using present
      by (simp add: nv_table_get_value.simps [of t h] nv_table_resolve_entry_def nv_table_resolve_indirect_def
          split: nv_payload.split)
    also have "\<dots> = Some (entry_value (nv_at t) e)" by (rule resolve_entry_value [OF assms present(3)])
    finally show ?thesis using present(3) by (simp add: nv_view_def values_of_def)
  qed (simp_all add: nv_table_get_value.simps [of t h] nv_view_def values_of_def)
qed

end
