(* ===== verification/Nv_Store.thy ===== *)
theory Nv_Store
  imports Nv_Lookup
begin

text \<open>
  How the storing operations of a message payload change its entries: each of them keeps
  the layout and changes the map from handles to entries at one handle only, or not at all
  when it fails.
\<close>

subsection \<open>Space\<close>

lemma nv_layout_space:
  assumes "nv_layout t"
  shows "nv_table_get_ofs_table_top t + nt_used t \<le> nt_size t" "nt_size t \<le> 268435456"
  using assms by (simp_all add: nv_layout_def NV_TABLE_MAX_BYTES_def)

lemma alloc_check_iff:
  assumes "nv_layout t"
  shows "nv_table_alloc_check t n \<longleftrightarrow> nv_table_get_ofs_table_top t + nt_used t + n \<le> nt_size t"
proof -
  note s = nv_layout_space [OF assms]
  have "(nv_table_get_bottom t - int (nv_table_get_ofs_table_top t)) mod 2 ^ 64 =
      nv_table_get_bottom t - int (nv_table_get_ofs_table_top t)"
    using s by (intro mod_pos_pos_trivial) (simp_all add: nv_table_get_bottom_def)
  then show ?thesis using s by (auto simp: nv_table_alloc_check_def nv_table_get_bottom_def)
qed

lemma NV_TABLE_BOUND_ge: "n \<le> NV_TABLE_BOUND n"
  by (simp add: NV_TABLE_BOUND_def)

subsection \<open>Changing an entry in place\<close>

lemma put_entry_fields [simp]:
  "nv_ofs (nv_put_entry t ofs e) = nv_ofs t"
  "nt_mem (nv_put_entry t ofs e) = (nt_mem t)(ofs \<mapsto> e)"
  "num_static_entries (nv_put_entry t ofs e) = num_static_entries t"
  "num_dyn_entries (nv_put_entry t ofs e) = num_dyn_entries t"
  "nt_dyn_entries (nv_put_entry t ofs e) = nt_dyn_entries t"
  "nt_used (nv_put_entry t ofs e) = nt_used t"
  "nt_size (nv_put_entry t ofs e) = nt_size t"
  "dyn_sorted (nv_put_entry t ofs e) = dyn_sorted t"
  "nv_table_get_ofs_table_top (nv_put_entry t ofs e) = nv_table_get_ofs_table_top t"
  by (simp_all add: nv_put_entry_def nv_ofs_def num_static_entries_def num_dyn_entries_def dyn_sorted_def
      nv_table_get_ofs_table_top_def fun_eq_iff)

lemma chunks_ok_update:
  assumes "chunks_ok mem used" and "mem ofs = Some e" and "ne_alloc_len e' = ne_alloc_len e"
  shows "chunks_ok (mem(ofs \<mapsto> e')) used"
  unfolding chunks_ok_def
proof (intro allI impI)
  fix o1 e1 assume e1: "(mem(ofs \<mapsto> e')) o1 = Some e1"
  have dom: "\<exists>x. mem o2 = Some x \<and> ne_alloc_len x = ne_alloc_len e2" if "(mem(ofs \<mapsto> e')) o2 = Some e2" for o2 e2
    using that assms(2,3) by (auto split: if_splits)
  obtain x where x: "mem o1 = Some x" "ne_alloc_len x = ne_alloc_len e1" using dom [OF e1] by blast
  then have c: "0 < ne_alloc_len x" "ne_alloc_len x \<le> o1" "o1 \<le> used"
      "\<And>o' y. mem o' = Some y \<Longrightarrow> o' < o1 \<Longrightarrow> o' \<le> o1 - ne_alloc_len x"
    using assms(1) unfolding chunks_ok_def by blast+
  show "0 < ne_alloc_len e1 \<and> ne_alloc_len e1 \<le> o1 \<and> o1 \<le> used \<and>
      (\<forall>o' y. (mem(ofs \<mapsto> e')) o' = Some y \<longrightarrow> o' < o1 \<longrightarrow> o' \<le> o1 - ne_alloc_len e1)"
    using c x(2) dom by metis
qed

lemma put_entry_layout:
  assumes "nv_layout t" and "nt_mem t ofs = Some e" and "ne_alloc_len e' = ne_alloc_len e"
  shows "nv_layout (nv_put_entry t ofs e')"
proof -
  have "chunks_ok ((nt_mem t)(ofs \<mapsto> e')) (nt_used t)"
    using assms by (intro chunks_ok_update [where e = e]) (auto simp: nv_layout_def)
  then show ?thesis using assms(1) unfolding nv_layout_def by simp
qed

lemma nv_ofs_inj:
  assumes "nv_layout t" and "nv_ofs t h = nv_ofs t h'" and "nv_ofs t h \<noteq> 0"
  shows "h = h'"
  using assms unfolding nv_layout_def by blast

lemma put_entry_at:
  assumes "nv_layout t" and "nv_ofs t h \<noteq> 0"
  shows "nv_at (nv_put_entry t (nv_ofs t h) e) = (nv_at t)(h \<mapsto> e)"
proof
  fix h'
  show "nv_at (nv_put_entry t (nv_ofs t h) e) h' = ((nv_at t)(h \<mapsto> e)) h'"
    using nv_ofs_inj [OF assms(1), of h h'] assms(2) by (cases "h' = h") (auto simp: nv_at_def)
qed

subsection \<open>A new slot\<close>

lemma fields_same:
  assumes "nt_dyn_entries t1 = nt_dyn_entries t" and "nt_static_entries t1 = nt_static_entries t"
  shows "nv_ofs t1 = nv_ofs t" "num_static_entries t1 = num_static_entries t"
    "num_dyn_entries t1 = num_dyn_entries t" "dyn_sorted t1 = dyn_sorted t"
    "nv_table_get_ofs_table_top t1 = nv_table_get_ofs_table_top t"
  using assms
  by (simp_all add: nv_ofs_def num_static_entries_def num_dyn_entries_def dyn_sorted_def
      nv_table_get_ofs_table_top_def fun_eq_iff)

text \<open>Inserting a handle at the index the search ends with keeps the array sorted.\<close>

lemma insert_sorted_dyn:
  assumes "sorted_wrt (<) (map fst dyn)" and "search_result dyn h (Inl k)"
  shows "sorted_wrt (<) (map fst (take (nat k) dyn @ (h, 0) # drop (nat k) dyn))"
proof -
  have le: "nat k \<le> length dyn" and lo: "\<And>i. i < nat k \<Longrightarrow> fst (dyn ! i) < h"
      and hi: "\<And>i. i < length dyn \<Longrightarrow> nat k \<le> i \<Longrightarrow> h < fst (dyn ! i)"
    using assms(2) by (auto simp: search_result_def)
  have split: "map fst dyn = map fst (take (nat k) dyn) @ map fst (drop (nat k) dyn)"
    by (simp flip: map_append)
  have low: "x < h" if "x \<in> set (map fst (take (nat k) dyn))" for x
  proof -
    from that obtain i where "i < nat k" "x = fst (dyn ! i)" using le by (auto simp: in_set_conv_nth)
    then show ?thesis using lo by simp
  qed
  have high: "h < x" if x: "x \<in> set (map fst (drop (nat k) dyn))" for x
  proof -
    from x obtain i where "i < length dyn - nat k" "x = fst (dyn ! (nat k + i))"
      using le by (auto simp: in_set_conv_nth)
    then show ?thesis using hi [of "nat k + i"] by simp
  qed
  show ?thesis
    using assms(1) low high unfolding split by (auto simp: sorted_wrt_append)
qed

lemma insert_dyn_map_of:
  assumes "h \<notin> fst ` set dyn"
  shows "map_of (take k dyn @ (h, 0) # drop k dyn) h' =
    (if h' = h then Some 0 else map_of dyn h')"
proof -
  have "map_of dyn h' = map_of (take k dyn @ drop k dyn) h'" by simp
  then have e: "map_of dyn h' = (case map_of (take k dyn) h' of None \<Rightarrow> map_of (drop k dyn) h' | Some x \<Rightarrow> Some x)"
    by (simp only: map_of_append map_add_def)
  have "map_of (take k dyn) h = None"
    using assms by (auto simp: map_of_eq_None_iff dest: in_set_takeD)
  then show ?thesis using e by (auto simp: map_add_def split: option.splits)
qed

lemma set_insert_at: "set (take k xs @ x # drop k xs) = insert x (set xs)"
proof -
  have "set (take k xs) \<union> set (drop k xs) = set xs" by (simp flip: set_append)
  then show ?thesis by auto
qed

lemma dyn_length_bound:
  assumes "dyn_sorted t" and "\<And>h. h \<in> fst ` set (nt_dyn_entries t) \<Longrightarrow> unat h < 65536 \<and> unat h > n"
  shows "num_dyn_entries t \<le> 65535"
proof -
  have "inj_on unat (set (map fst (nt_dyn_entries t)))" by (rule inj_onI) (simp add: word_unat_eq_iff)
  then have "distinct (map unat (map fst (nt_dyn_entries t)))"
    using dyn_sorted_distinct [OF assms(1)] by (simp only: distinct_map)
  then have "distinct (map (unat \<circ> fst) (nt_dyn_entries t))" by (simp only: map_map)
  then have "num_dyn_entries t = card (set (map (unat \<circ> fst) (nt_dyn_entries t)))"
    by (simp only: distinct_card num_dyn_entries_def length_map)
  also have "\<dots> \<le> card {1..65535::nat}"
    using assms(2) by (intro card_mono) fastforce+
  finally show ?thesis by simp
qed

lemma nv_layout_dyn:
  assumes "nv_layout t"
  shows "num_dyn_entries t \<le> 65535"
    and "\<And>h. h \<in> fst ` set (nt_dyn_entries t) \<Longrightarrow> num_static_entries t < unat h \<and> unat h < 65536"
proof -
  show b: "\<And>h. h \<in> fst ` set (nt_dyn_entries t) \<Longrightarrow> num_static_entries t < unat h \<and> unat h < 65536"
    using assms by (auto simp: nv_layout_def)
  show "num_dyn_entries t \<le> 65535"
    by (rule dyn_length_bound [OF nv_layout_sorted [OF assms], of "num_static_entries t"]) (use b in blast)
qed

text \<open>Handles below 65536 survive being read into 16 bits.\<close>

lemma ucast_u16_id: "unat (x :: u32) < 65536 \<Longrightarrow> ucast (ucast x :: u16) = x"
  by (rule word_unat_eq_iff [THEN iffD2]) (simp add: unsigned_ucast_eq unsigned_take_bit_eq take_bit_nat_eq_self)

lemma reserve_inserts:
  assumes "nv_layout t" and "h \<notin> fst ` set (nt_dyn_entries t)" and "num_static_entries t < unat h"
    and "unat h < 65536" and "nv_table_alloc_check t 8"
  obtains k where "nv_table_reserve_table_entry t h None =
      Some (True, t\<lparr>nt_dyn_entries := take k (nt_dyn_entries t) @ (h, 0) # drop k (nt_dyn_entries t)\<rparr>, Some k)"
    and "k \<le> num_dyn_entries t"
    and "sorted_wrt (<) (map fst (take k (nt_dyn_entries t) @ (h, 0) # drop k (nt_dyn_entries t)))"
    and "num_dyn_entries t < 65535"
proof -
  define dyn where "dyn = nt_dyn_entries t"
  have n: "num_dyn_entries t = length dyn" by (simp add: dyn_def num_dyn_entries_def)
  have sorted: "sorted_wrt (<) (map fst dyn)" using assms(1) by (simp add: nv_layout_def dyn_sorted_def dyn_def)
  have "nv_search (\<lambda>mv. ucast (ucast mv :: u16)) dyn h 0 (int (length dyn) - 1) =
      nv_search id dyn h 0 (int (length dyn) - 1)"
    using nv_layout_dyn(2) [OF assms(1)] by (intro nv_search_cong) (simp_all add: ucast_u16_id dyn_def)
  moreover have r: "search_result dyn h (nv_search id dyn h 0 (int (length dyn) - 1))"
    by (rule nv_search_whole [OF sorted])
  ultimately obtain k where k: "nv_search (\<lambda>mv. ucast (ucast mv :: u16)) dyn h 0 (int (length dyn) - 1) = Inl k"
      and sr: "search_result dyn h (Inl k)"
    using assms(2) search_result_present [of dyn h]
    by (cases "nv_search id dyn h 0 (int (length dyn) - 1)") (auto simp: dyn_def)
  have kb: "0 \<le> k" "k \<le> int (length dyn)" using sr by (simp_all add: search_result_def)
  have ins: "sorted_wrt (<) (map fst (take (nat k) dyn @ (h, 0) # drop (nat k) dyn))"
    by (rule insert_sorted_dyn [OF sorted sr])
  define t' where "t' = t\<lparr>nt_dyn_entries := take (nat k) dyn @ (h, 0) # drop (nat k) dyn\<rparr>"
  have set': "set (take (nat k) dyn @ (h, 0) # drop (nat k) dyn) = insert (h, 0) (set dyn)"
    by (rule set_insert_at)
  have "num_dyn_entries t' \<le> 65535"
  proof (rule dyn_length_bound)
    show "dyn_sorted t'" using ins by (simp add: dyn_sorted_def t'_def)
    fix h' assume "h' \<in> fst ` set (nt_dyn_entries t')"
    then have "h' = h \<or> h' \<in> fst ` set dyn" by (simp add: t'_def set' del: set_append)
    then show "unat h' < 65536 \<and> num_static_entries t < unat h'"
      using nv_layout_dyn(2) [OF assms(1), of h'] assms(3,4) by (auto simp: dyn_def)
  qed
  then have lt: "length dyn < 65535" using kb by (simp add: t'_def num_dyn_entries_def)
  then have u16: "unat (1 + of_nat (length dyn) :: u16) = Suc (length dyn)"
    by (simp add: unat_word_ariths unsigned_of_nat take_bit_nat_eq_self)
  show thesis
    by (rule that [of "nat k"])
      (use assms(3,5) k kb lt ins u16 in \<open>simp_all add: nv_table_reserve_table_entry_def dyn_def [symmetric] n Let_def\<close>)
qed

lemma nv_layout_new_slot:
  assumes "nv_layout t" and "h \<notin> fst ` set (nt_dyn_entries t)" and "num_static_entries t < unat h"
    and "unat h < 65536" and "nv_table_alloc_check t 8" and "k \<le> num_dyn_entries t"
    and "sorted_wrt (<) (map fst (take k (nt_dyn_entries t) @ (h, 0) # drop k (nt_dyn_entries t)))"
    and "t1 = t\<lparr>nt_dyn_entries := take k (nt_dyn_entries t) @ (h, 0) # drop k (nt_dyn_entries t)\<rparr>"
  shows "nv_layout t1" "nv_ofs t1 = nv_ofs t" "num_dyn_entries t1 = num_dyn_entries t + 1"
proof -
  have ns: "num_static_entries t1 = num_static_entries t" by (simp add: assms(8) num_static_entries_def)
  show nd: "num_dyn_entries t1 = num_dyn_entries t + 1"
    using assms(6) by (simp add: assms(8) num_dyn_entries_def)
  have "map_of (nt_dyn_entries t) h = None" using assms(2) by (simp add: map_of_eq_None_iff)
  then show ofs: "nv_ofs t1 = nv_ofs t"
    using assms(3) insert_dyn_map_of [OF assms(2)]
    by (auto simp: assms(8) nv_ofs_def num_static_entries_def fun_eq_iff)
  have set': "set (nt_dyn_entries t1) = insert (h, 0) (set (nt_dyn_entries t))"
    by (simp add: assms(8) set_insert_at del: set_append)
  have "nv_table_get_ofs_table_top t1 + nt_used t1 \<le> nt_size t1"
    using assms(5) alloc_check_iff [OF assms(1)] nd ns by (simp add: assms(8) nv_table_get_ofs_table_top_def)
  moreover have "dyn_sorted t1" using assms(7) by (simp add: dyn_sorted_def assms(8))
  ultimately show "nv_layout t1"
    using assms(1,3,4) ns ofs set' unfolding nv_layout_def by (simp add: assms(8))
qed

text \<open>The effect of reserving a slot: the entries are as before, and a dynamic handle has a slot.\<close>

lemma reserve_spec:
  assumes "nv_layout t" and "slot_ok t h slot" and "unat h < 65536"
  obtains ok t1 slot1 where "nv_table_reserve_table_entry t h slot = Some (ok, t1, slot1)"
    and "nv_layout t1" and "nv_ofs t1 = nv_ofs t" and "nt_mem t1 = nt_mem t" and "nt_used t1 = nt_used t"
    and "nt_size t1 = nt_size t" and "num_static_entries t1 = num_static_entries t"
    and "ok \<longrightarrow> slot_ok t1 h slot1 \<and> (unat h \<le> num_static_entries t1 \<or> slot1 \<noteq> None)"
    and "slot \<noteq> None \<or> unat h \<le> num_static_entries t \<longrightarrow> ok \<and> t1 = t"
    and "\<not> ok \<longrightarrow> t1 = t \<and> nt_size t < nv_table_get_ofs_table_top t + nt_used t + 8"
    and "num_dyn_entries t1 \<le> num_dyn_entries t + 1"
proof (cases "slot = None \<and> num_static_entries t < unat h")
  case False
  then show ?thesis
    by (intro that [of True t slot]) (use assms in \<open>auto simp: nv_table_reserve_table_entry_def\<close>)
next
  case True
  then have absent: "h \<notin> fst ` set (nt_dyn_entries t)" using assms(2) by (simp add: slot_ok_def)
  show ?thesis
  proof (cases "nv_table_alloc_check t 8")
    case False
    then show ?thesis
      by (intro that [of False t slot])
        (use assms True alloc_check_iff [OF assms(1), of 8] in \<open>auto simp: nv_table_reserve_table_entry_def\<close>)
  next
    case chk: True
    obtain k where k: "nv_table_reserve_table_entry t h None =
        Some (True, t\<lparr>nt_dyn_entries := take k (nt_dyn_entries t) @ (h, 0) # drop k (nt_dyn_entries t)\<rparr>, Some k)"
      "k \<le> num_dyn_entries t"
      "sorted_wrt (<) (map fst (take k (nt_dyn_entries t) @ (h, 0) # drop k (nt_dyn_entries t)))"
      using True by (auto intro: reserve_inserts [OF assms(1) absent _ assms(3) chk])
    define t1 where "t1 = t\<lparr>nt_dyn_entries := take k (nt_dyn_entries t) @ (h, 0) # drop k (nt_dyn_entries t)\<rparr>"
    note new = nv_layout_new_slot [OF assms(1) absent _ assms(3) chk k(2,3) t1_def]
    have nth: "nt_dyn_entries t1 ! k = (h, 0)"
      using k(2) by (simp add: t1_def nth_append num_dyn_entries_def)
    show ?thesis
      by (rule that [of True t1 "Some k"])
        (use True k new nth in \<open>auto simp: t1_def slot_ok_def num_static_entries_def\<close>)
  qed
qed

subsection \<open>A new entry\<close>

definition blank_entry :: "nat \<Rightarrow> nv_entry" where
  "blank_entry n = \<lparr>ne_referenced = False, ne_name = '''', ne_alloc_len = n, ne_value = Vdirect ''''\<rparr>"

lemma chunks_ok_new:
  assumes "chunks_ok mem used" and "0 < n" and "ne_alloc_len e = n"
  shows "chunks_ok (mem(used + n \<mapsto> e)) (used + n)"
  unfolding chunks_ok_def
proof (intro allI impI)
  fix o1 e1 assume e1: "(mem(used + n \<mapsto> e)) o1 = Some e1"
  have old: "0 < ne_alloc_len x" "ne_alloc_len x \<le> o2" "o2 \<le> used" if "mem o2 = Some x" for o2 x
    using assms(1) that unfolding chunks_ok_def by blast+
  have gap: "o' \<le> o2 - ne_alloc_len x" if "mem o2 = Some x" "mem o' = Some y" "o' < o2" for o2 o' x y
    using assms(1) that unfolding chunks_ok_def by blast
  show "0 < ne_alloc_len e1 \<and> ne_alloc_len e1 \<le> o1 \<and> o1 \<le> used + n \<and>
      (\<forall>o' y. (mem(used + n \<mapsto> e)) o' = Some y \<longrightarrow> o' < o1 \<longrightarrow> o' \<le> o1 - ne_alloc_len e1)"
  proof (cases "o1 = used + n")
    case True
    then show ?thesis using e1 assms(2,3) old(3) by auto
  next
    case False
    then have m: "mem o1 = Some e1" using e1 by simp
    then show ?thesis using old [OF m] gap [OF m] assms(2) by (auto split: if_splits)
  qed
qed

lemma alloc_value_None:
  assumes "nv_layout t" and "nv_table_alloc_value t n = (None, t1)"
  shows "t1 = t" "nt_size t < nv_table_get_ofs_table_top t + nt_used t + NV_TABLE_BOUND n"
  using assms alloc_check_iff [OF assms(1)] by (auto simp: nv_table_alloc_value_def Let_def split: if_splits)

lemma alloc_value_Some:
  assumes "nv_layout t" and "nv_table_alloc_value t n = (Some ofs, t1)" and "0 < n"
  shows "ofs = nt_used t + NV_TABLE_BOUND n" "nv_layout t1" "nv_ofs t1 = nv_ofs t"
    "nt_mem t1 = (nt_mem t)(ofs \<mapsto> blank_entry (NV_TABLE_BOUND n))" "nt_mem t ofs = None"
    "ofs \<noteq> 0" "\<And>h. nv_ofs t h \<noteq> ofs" "num_static_entries t1 = num_static_entries t"
    "nt_dyn_entries t1 = nt_dyn_entries t" "nt_size t1 = nt_size t" "nt_used t1 = ofs"
proof -
  define m where "m = NV_TABLE_BOUND n"
  have m: "0 < m" using assms(3) NV_TABLE_BOUND_ge [of n] by (simp add: m_def)
  have fits: "nv_table_get_ofs_table_top t + nt_used t + m \<le> nt_size t" and e: "ofs = nt_used t + m"
      and t1: "t1 = t\<lparr>nt_used := ofs, nt_mem := (nt_mem t)(ofs \<mapsto> blank_entry m)\<rparr>"
    using assms(2) alloc_check_iff [OF assms(1)]
    by (auto simp: nv_table_alloc_value_def Let_def m_def blank_entry_def split: if_splits)
  show "ofs = nt_used t + NV_TABLE_BOUND n" using e by (simp add: m_def)
  have chunks: "chunks_ok (nt_mem t) (nt_used t)" using assms(1) by (simp add: nv_layout_def)
  show none: "nt_mem t ofs = None"
  proof (rule ccontr)
    assume "nt_mem t ofs \<noteq> None"
    then obtain x where "nt_mem t ofs = Some x" by blast
    then have "ofs \<le> nt_used t" using chunks unfolding chunks_ok_def by blast
    then show False using e m by simp
  qed
  have same: "nt_dyn_entries t1 = nt_dyn_entries t" "nt_static_entries t1 = nt_static_entries t"
    by (simp_all add: t1)
  note fs = fields_same [OF same]
  show "nv_ofs t1 = nv_ofs t" "num_static_entries t1 = num_static_entries t" by (fact fs)+
  show "nt_mem t1 = (nt_mem t)(ofs \<mapsto> blank_entry (NV_TABLE_BOUND n))"
    "nt_dyn_entries t1 = nt_dyn_entries t" "nt_size t1 = nt_size t" "nt_used t1 = ofs"
    by (simp_all add: t1 m_def)
  show nz: "ofs \<noteq> 0" using e m by simp
  show "nv_ofs t h \<noteq> ofs" for h
  proof
    assume "nv_ofs t h = ofs"
    then have "nt_mem t (nv_ofs t h) \<noteq> None" using nz assms(1) unfolding nv_layout_def by metis
    then show False using \<open>nv_ofs t h = ofs\<close> none by simp
  qed
  have "chunks_ok (nt_mem t1) (nt_used t1)"
    unfolding t1 e using chunks_ok_new [OF chunks m, of "blank_entry m"] by (simp add: blank_entry_def)
  then show "nv_layout t1"
    using assms(1) fits unfolding nv_layout_def fs same(1) by (auto simp: t1 e)
qed

lemma map_of_list_update:
  assumes "distinct (map fst xs)" and "i < length xs" and "fst (xs ! i) = k"
  shows "map_of (xs[i := (k, v)]) k' = (if k' = k then Some v else map_of xs k')"
  using assms
proof (induction xs arbitrary: i)
  case (Cons x xs)
  show ?case
  proof (cases i)
    case 0
    then show ?thesis using Cons.prems by (cases x) auto
  next
    case (Suc j)
    then have "fst (xs ! j) \<in> fst ` set xs" using Cons.prems by (intro imageI nth_mem) simp
    then have "k \<in> fst ` set xs" using Cons.prems(3) Suc by simp
    moreover have "fst x \<notin> fst ` set xs" using Cons.prems(1) by simp
    ultimately have "k \<noteq> fst x" by metis
    moreover have "map_of (xs[j := (k, v)]) k' = (if k' = k then Some v else map_of xs k')"
      using Cons.prems Suc by (intro Cons.IH) auto
    ultimately show ?thesis using Suc by (cases x) auto
  qed
qed simp

lemma map_fst_list_update: "i < length xs \<Longrightarrow> fst (xs ! i) = k \<Longrightarrow> map fst (xs[i := (k, v)]) = map fst xs"
  by (rule nth_equalityI) (auto simp: nth_list_update)

lemma set_table_entry_spec:
  assumes "nv_layout t" and "slot_ok t h slot" and "unat h \<le> num_static_entries t \<or> slot \<noteq> None" and "h \<noteq> 0"
    and "nt_mem t ofs \<noteq> None" and "\<And>h'. nv_ofs t h' \<noteq> ofs" and "ofs \<noteq> 0"
  obtains t1 where "nv_table_set_table_entry t h ofs slot = Some t1" and "nv_layout t1"
    and "nv_ofs t1 = (nv_ofs t)(h := ofs)" and "nt_mem t1 = nt_mem t"
    and "num_static_entries t1 = num_static_entries t"
    and "map fst (nt_dyn_entries t1) = map fst (nt_dyn_entries t)"
    and "nt_size t1 = nt_size t" and "nt_used t1 = nt_used t"
proof -
  obtain t1 where t1: "nv_table_set_table_entry t h ofs slot = Some t1"
    and o: "nv_ofs t1 = (nv_ofs t)(h := ofs)" and f: "map fst (nt_dyn_entries t1) = map fst (nt_dyn_entries t)"
    and rest: "nt_mem t1 = nt_mem t" "num_static_entries t1 = num_static_entries t" "nt_used t1 = nt_used t" "nt_size t1 = nt_size t"
  proof (cases "unat h \<le> num_static_entries t")
    case True
    have ndx: "unat h' = unat h" if "unat h' - 1 = unat h - 1" "h' \<noteq> 0" for h'
      using that assms(4) by (simp add: unat_eq_0 [symmetric] del: unat_eq_0)
    show ?thesis
      by (rule that [of "t\<lparr>nt_static_entries := (nt_static_entries t)[unat h - 1 := ofs]\<rparr>"])
        (use True assms(4) ndx in \<open>auto simp: nv_table_set_table_entry_def num_static_entries_def nv_ofs_def fun_eq_iff
          nth_list_update word_unat_eq_iff\<close>)
  next
    case False
    then obtain i where i: "slot = Some i" "i < num_dyn_entries t" "fst (nt_dyn_entries t ! i) = h"
      using assms(2,3) by (auto simp: slot_ok_def)
    have m: "map_of ((nt_dyn_entries t)[i := (h, ofs)]) h' = (if h' = h then Some ofs else map_of (nt_dyn_entries t) h')" for h'
      using i(2,3) dyn_sorted_distinct [OF nv_layout_sorted [OF assms(1)]]
      by (intro map_of_list_update) (simp_all add: num_dyn_entries_def)
    show ?thesis
      by (rule that [of "t\<lparr>nt_dyn_entries := (nt_dyn_entries t)[i := (h, ofs)]\<rparr>"])
        (use False i assms(4) in \<open>auto simp: nv_table_set_table_entry_def nv_ofs_def fun_eq_iff m num_static_entries_def
          map_fst_list_update num_dyn_entries_def\<close>)
  qed
  have nd: "num_dyn_entries t1 = num_dyn_entries t"
    using f by (metis num_dyn_entries_def length_map)
  have keys: "fst ` set (nt_dyn_entries t1) = fst ` set (nt_dyn_entries t)"
    using f by (metis set_map)
  have "nv_layout t1"
    using assms(1,5,6,7) nd f keys o rest unfolding nv_layout_def dyn_sorted_def nv_table_get_ofs_table_top_def
    by (auto split: if_splits)
  then show thesis using that t1 o f rest by blast
qed

end
