(* ===== verification/Nv_Values.thy ===== *)
theory Nv_Values
  imports Nv_Store
begin

text \<open>
  Storing values in a message payload: in a well-formed payload
  \<^verbatim>\<open>nv_table_add_value()\<close> changes the value of one handle, also when other
  values are references into the value that is overwritten.
\<close>

subsection \<open>References to a handle\<close>

definition no_refs :: "(nvhandle \<Rightarrow> nv_entry option) \<Rightarrow> nvhandle \<Rightarrow> bool" where
  "no_refs at h \<longleftrightarrow> (\<forall>h' e sl. at h' = Some e \<longrightarrow> ne_value e = Vindirect sl \<longrightarrow> sl_handle sl \<noteq> h)"

lemma indirectE:
  assumes "indirect e"
  obtains sl where "ne_value e = Vindirect sl"
  using assms by (cases "ne_value e") (auto simp: indirect_def)

lemma directE:
  assumes "\<not> indirect e"
  obtains v where "ne_value e = Vdirect v"
  using assms by (cases "ne_value e") (auto simp: indirect_def)

lemma indirect_simps [simp]:
  "ne_value e = Vindirect sl \<Longrightarrow> indirect e"
  "ne_value e = Vdirect v \<Longrightarrow> \<not> indirect e"
  by (simp_all add: indirect_def)

lemma entries_ok_no_refs:
  assumes "entries_ok names at" and "\<And>e. at h = Some e \<Longrightarrow> indirect e \<or> \<not> ne_referenced e"
  shows "no_refs at h"
  unfolding no_refs_def
proof (intro allI impI notI)
  fix h' e sl assume e: "at h' = Some e" "ne_value e = Vindirect sl" "sl_handle sl = h"
  then have "ref_ok at e" using assms(1) by (simp add: entries_ok_def)
  then obtain e' where "at h = Some e'" "\<not> indirect e'" "ne_referenced e'" using e(2,3) by (auto simp: ref_ok_def)
  then show False using assms(2) by blast
qed

lemma ref_ok_put:
  assumes "ref_ok at e1" and "\<And>sl. ne_value e1 = Vindirect sl \<Longrightarrow> sl_handle sl \<noteq> h"
  shows "ref_ok (at(h \<mapsto> e)) e1"
  using assms by (auto simp: ref_ok_def split: nv_payload.splits)

lemma entries_ok_put:
  assumes "entries_ok names at" and "no_refs at h" and "entry_ok names h e" and "\<not> indirect e"
  shows "entries_ok names (at(h \<mapsto> e))"
  unfolding entries_ok_def
proof (intro allI impI)
  fix h1 e1 assume e1: "(at(h \<mapsto> e)) h1 = Some e1"
  show "entry_ok names h1 e1 \<and> ref_ok (at(h \<mapsto> e)) e1"
  proof (cases "h1 = h")
    case True
    with e1 have "e1 = e" by simp
    moreover have "ref_ok (at(h \<mapsto> e)) e" using assms(4) by (rule directE) (simp add: ref_ok_def)
    ultimately show ?thesis using True assms(3) by simp
  next
    case False
    with e1 have "at h1 = Some e1" by simp
    moreover from this have "ref_ok (at(h \<mapsto> e)) e1"
      using assms(1,2) by (intro ref_ok_put) (auto simp: entries_ok_def no_refs_def)
    ultimately show ?thesis using assms(1) by (simp add: entries_ok_def)
  qed
qed

lemma entry_value_put:
  assumes "\<And>sl. ne_value e1 = Vindirect sl \<Longrightarrow> sl_handle sl \<noteq> h"
  shows "entry_value (at(h \<mapsto> e)) e1 = entry_value at e1"
  using assms by (auto simp: entry_value_def direct_value_def split: nv_payload.splits)

lemma values_of_put:
  assumes "no_refs at h" and "ne_value e = Vdirect v"
  shows "values_of (at(h \<mapsto> e)) = (values_of at)(h \<mapsto> v)"
proof
  fix h1
  have "entry_value (at(h \<mapsto> e)) e1 = entry_value at e1" if "at h1 = Some e1" for e1
    using assms(1) that by (intro entry_value_put) (auto simp: no_refs_def)
  then show "values_of (at(h \<mapsto> e)) h1 = ((values_of at)(h \<mapsto> v)) h1"
    using assms(2) by (cases "at h1") (auto simp: values_of_def entry_value_def)
qed

lemma no_refs_put:
  assumes "no_refs at h'" and "\<not> indirect e"
  shows "no_refs (at(h \<mapsto> e)) h'"
  using assms by (auto simp: no_refs_def split: if_splits)

subsection \<open>The end of storing a value\<close>

definition nv_keys :: "nv_table \<Rightarrow> nat \<times> nvhandle list" where
  "nv_keys t = (num_static_entries t, map fst (nt_dyn_entries t))"

lemma entry_ok_len:
  assumes "nv_wf names t" and "nv_at t h = Some e"
  shows "ne_alloc_len e \<le> nt_used t" "nt_used t \<le> NV_TABLE_MAX_BYTES"
proof -
  have l: "nv_layout t" using assms(1) by (simp add: nv_wf_def)
  then have "chunks_ok (nt_mem t) (nt_used t)" by (simp add: nv_layout_def)
  then have "ne_alloc_len e \<le> nv_ofs t h \<and> nv_ofs t h \<le> nt_used t"
    using nv_at_SomeD(2) [OF assms(2)] unfolding chunks_ok_def by blast
  then show "ne_alloc_len e \<le> nt_used t" by linarith
  show "nt_used t \<le> NV_TABLE_MAX_BYTES" using l by (simp add: nv_layout_def)
qed

lemma entry_value_length:
  assumes "nv_wf names t" and "nv_at t h = Some e"
  shows "length (entry_value (nv_at t) e) \<le> NV_TABLE_MAX_BYTES"
proof -
  have direct: "length v \<le> NV_TABLE_MAX_BYTES" if "nv_at t h1 = Some e1" "ne_value e1 = Vdirect v" for h1 e1 v
    using nv_wf_entry(1) [OF assms(1) that(1)] entry_ok_len [OF assms(1) that(1)] that(2)
    by (simp add: entry_ok_def entry_fits_def)
  show ?thesis
  proof (cases "ne_value e")
    case (Vdirect v)
    then show ?thesis using direct [OF assms(2)] by (simp add: entry_value_def)
  next
    case (Vindirect sl)
    have "ref_ok (nv_at t) e" by (rule nv_wf_entry(2) [OF assms])
    then obtain e' where e': "nv_at t (sl_handle sl) = Some e'" "\<not> indirect e'"
      using Vindirect by (auto simp: ref_ok_def)
    obtain v where "ne_value e' = Vdirect v" by (rule directE [OF e'(2)])
    then show ?thesis using direct [OF e'(1), of v] Vindirect e'(1) by (simp add: entry_value_def direct_value_def)
  qed
qed

lemma nv_stored_name_id: "length name \<le> 255 \<Longrightarrow> nv_stored_name name = name"
  by (simp add: nv_stored_name_def)

text \<open>What storing a value for a handle gives, on success and on failure.\<close>

definition stored ::
    "(nvhandle \<Rightarrow> string) \<Rightarrow> nv_table \<Rightarrow> nvhandle \<Rightarrow> string \<Rightarrow> bool \<Rightarrow> nv_table \<Rightarrow> bool" where
  "stored names t h v ok t1 \<longleftrightarrow>
     nv_wf names t1 \<and> num_static_entries t1 = num_static_entries t \<and> nt_size t1 = nt_size t \<and>
     (nv_at t h \<noteq> None \<longrightarrow> nv_keys t1 = nv_keys t) \<and> (\<forall>h'. h' \<noteq> h \<longrightarrow> nv_ofs t1 h' = nv_ofs t h') \<and>
     (if ok then \<exists>e. nv_at t1 = (nv_at t)(h \<mapsto> e) \<and> ne_value e = Vdirect v else nv_at t1 = nv_at t)"

lemma store_in_place:
  assumes "nv_wf names t" and "no_refs (nv_at t) h" and "nv_at t h = Some e"
    and "name = '''' \<or> name = names h" and "\<not> indirect e \<Longrightarrow> name = names h" and "length (names h) \<le> 255"
    and "length v + NV_ENTRY_DIRECT_HDR + length name + 2 \<le> ne_alloc_len e"
    and "e1 = (if indirect e then e\<lparr>ne_name := nv_stored_name name, ne_value := Vdirect v\<rparr> else e\<lparr>ne_value := Vdirect v\<rparr>)"
  shows "stored names t h v True (nv_put_entry t (nv_ofs t h) e1)"
proof -
  note at = nv_at_SomeD [OF assms(3)]
  have l: "nv_layout t" using assms(1) by (simp add: nv_wf_def)
  have a: "nv_at (nv_put_entry t (nv_ofs t h) e1) = (nv_at t)(h \<mapsto> e1)" by (rule put_entry_at [OF l at(1)])
  have ev: "ne_value e1 = Vdirect v" and len: "ne_alloc_len e1 = ne_alloc_len e" by (simp_all add: assms(8))
  have name: "nv_stored_name name = name" using assms(4,6) by (intro nv_stored_name_id) auto
  have old: "entry_ok names h e" by (rule nv_wf_entry(1) [OF assms(1,3)])
  have "entry_ok names h e1"
    using assms(4,5,7) old name by (auto simp: entry_ok_def entry_fits_def assms(8))
  then have "entries_ok names ((nv_at t)(h \<mapsto> e1))"
    using assms(1,2) ev by (intro entries_ok_put) (auto simp: nv_wf_def)
  then show ?thesis
    using put_entry_layout [OF l at(2) len] a ev by (auto simp: stored_def nv_wf_def nv_keys_def)
qed

text \<open>A new entry: a slot is reserved, space allocated, the entry written and the slot set.\<close>

lemma at_new_entry:
  assumes "nv_layout t" and "\<And>h'. nv_ofs t h' \<noteq> ofs" and "ofs \<noteq> 0" and "nv_ofs t1 = (nv_ofs t)(h := ofs)"
    and "nt_mem t1 = (nt_mem t)(ofs \<mapsto> e)"
  shows "nv_at t1 = (nv_at t)(h \<mapsto> e)"
  using assms(2,3) by (auto simp: nv_at_def assms(4,5) fun_eq_iff)

lemma new_entry_spec:
  assumes "nv_layout t" and "slot_ok t h slot" and "unat h < 65536" and "h \<noteq> 0" and "0 < n"
  obtains (no_slot) t1 slot1 where "nv_table_reserve_table_entry t h slot = Some (False, t1, slot1)"
      "nv_layout t1" "nv_at t1 = nv_at t" "nv_ofs t1 = nv_ofs t" "nv_keys t1 = nv_keys t" "nt_size t1 = nt_size t"
      "nt_size t < nv_table_get_ofs_table_top t + nt_used t + 8"
  | (no_space) t1 slot1 where "nv_table_reserve_table_entry t h slot = Some (True, t1, slot1)"
      "nv_table_alloc_value t1 n = (None, t1)" "nv_layout t1" "nv_at t1 = nv_at t" "nv_ofs t1 = nv_ofs t" "nt_size t1 = nt_size t"
      "num_static_entries t1 = num_static_entries t" "nv_at t h \<noteq> None \<longrightarrow> nv_keys t1 = nv_keys t"
      "nt_size t < nv_table_get_ofs_table_top t + 8 + nt_used t + NV_TABLE_BOUND n"
  | (new) t1 slot1 ofs t2 where "nv_table_reserve_table_entry t h slot = Some (True, t1, slot1)"
      "nv_table_alloc_value t1 n = (Some ofs, t2)" "nt_mem t2 ofs = Some (blank_entry (NV_TABLE_BOUND n))"
      "num_static_entries t2 = num_static_entries t" "nv_ofs t2 = nv_ofs t" "nv_layout t2" "\<forall>h'. nv_ofs t h' \<noteq> ofs"
      "nt_mem t2 = (nt_mem t)(ofs \<mapsto> blank_entry (NV_TABLE_BOUND n))" "ofs \<noteq> 0" "slot_ok t2 h slot1"
      "unat h \<le> num_static_entries t2 \<or> slot1 \<noteq> None" "nt_size t2 = nt_size t"
      "nv_at t h \<noteq> None \<longrightarrow> nv_keys t2 = nv_keys t"
proof -
  obtain ok t1 slot1 where r: "nv_table_reserve_table_entry t h slot = Some (ok, t1, slot1)"
    and l1: "nv_layout t1" and ofs1: "nv_ofs t1 = nv_ofs t" and mem1: "nt_mem t1 = nt_mem t"
    and used1: "nt_used t1 = nt_used t" and size1: "nt_size t1 = nt_size t"
    and ns1: "num_static_entries t1 = num_static_entries t"
    and slot1: "ok \<longrightarrow> slot_ok t1 h slot1 \<and> (unat h \<le> num_static_entries t1 \<or> slot1 \<noteq> None)"
    and same: "slot \<noteq> None \<or> unat h \<le> num_static_entries t \<longrightarrow> ok \<and> t1 = t"
    and full: "\<not> ok \<longrightarrow> t1 = t \<and> nt_size t < nv_table_get_ofs_table_top t + nt_used t + 8"
    and nd1: "num_dyn_entries t1 \<le> num_dyn_entries t + 1"
    by (rule reserve_spec [OF assms(1,2,3)])
  have at1: "nv_at t1 = nv_at t" by (auto simp: nv_at_def ofs1 mem1 fun_eq_iff)
  have keys1: "nv_keys t1 = nv_keys t" if set: "nv_at t h \<noteq> None"
  proof -
    obtain e where e: "nv_at t h = Some e" using set by blast
    have "slot \<noteq> None \<or> unat h \<le> num_static_entries t"
    proof (rule ccontr)
      assume c: "\<not> ?thesis"
      then have "h \<notin> fst ` set (nt_dyn_entries t)" using assms(2) by (simp add: slot_ok_def)
      then have "map_of (nt_dyn_entries t) h = None" by (simp add: map_of_eq_None_iff)
      then have "nv_ofs t h = 0" using c by (simp add: nv_ofs_def)
      then show False using nv_at_SomeD(1) [OF e] by simp
    qed
    then show ?thesis using same by simp
  qed
  show thesis
  proof (cases ok)
    case False
    then show ?thesis
      by (intro no_slot [of t1 slot1]) (use False r l1 at1 ofs1 size1 full in auto)
  next
    case True
    show ?thesis
    proof (cases "nv_table_alloc_value t1 n")
      case (Pair res t2)
      show ?thesis
      proof (cases res)
        case None
        note n = alloc_value_None [OF l1, of n t2]
        have "nv_table_get_ofs_table_top t1 \<le> nv_table_get_ofs_table_top t + 8"
          using nd1 ns1 by (simp add: nv_table_get_ofs_table_top_def)
        then show ?thesis
          by (intro no_space [of t1 slot1]) (use True r Pair None n l1 at1 ofs1 size1 used1 keys1 ns1 in auto)
      next
        case (Some ofs)
        note al = alloc_value_Some [OF l1 _ assms(5), of ofs t2]
        have eq: "nv_table_alloc_value t1 n = (Some ofs, t2)" using Pair Some by simp
        have "slot_ok t2 h slot1"
          using slot1 True al(8,9) [OF eq] by (auto simp: slot_ok_def num_dyn_entries_def split: option.splits)
        then show ?thesis
          by (intro new [of t1 slot1 ofs t2])
            (use True r eq al [OF eq] l1 ofs1 mem1 size1 ns1 slot1 keys1 in \<open>auto simp: nv_keys_def\<close>)
      qed
    qed
  qed
qed

lemma store_new_value_spec:
  assumes "nv_wf names t" and "no_refs (nv_at t) h" and "slot_ok t h slot" and "h \<noteq> 0" and "unat h < 65536"
    and "name = '''' \<or> name = names h" and "length (names h) \<le> 255"
  obtains ok t1 where "nv_store_new_value t slot h name v = Some (ok, t1)" and "stored names t h v ok t1"
    and "\<not> ok \<longrightarrow> nt_size t < nv_table_get_ofs_table_top t + 8 + nt_used t +
      NV_TABLE_BOUND (NV_ENTRY_DIRECT_HDR + length name + length v + 2)"
proof -
  define n where "n = NV_ENTRY_DIRECT_HDR + length name + length v + 2"
  have npos: "0 < n" by (simp add: n_def)
  have l: "nv_layout t" and ok: "entries_ok names (nv_at t)" using assms(1) by (simp_all add: nv_wf_def)
  show thesis
  proof (rule new_entry_spec [OF l assms(3,5,4) npos])
    fix t1 slot1 assume r: "nv_table_reserve_table_entry t h slot = Some (False, t1, slot1)"
      "nv_layout t1" "nv_at t1 = nv_at t" "nv_ofs t1 = nv_ofs t" "nv_keys t1 = nv_keys t" "nt_size t1 = nt_size t"
      "nt_size t < nv_table_get_ofs_table_top t + nt_used t + 8"
    show thesis
      by (rule that [of False t1])
        (use r ok in \<open>auto simp: nv_store_new_value_def stored_def nv_wf_def nv_keys_def\<close>)
  next
    fix t1 slot1 assume r: "nv_table_reserve_table_entry t h slot = Some (True, t1, slot1)"
      "nv_table_alloc_value t1 n = (None, t1)" "nv_layout t1" "nv_at t1 = nv_at t" "nv_ofs t1 = nv_ofs t"
      "nt_size t1 = nt_size t" "num_static_entries t1 = num_static_entries t"
      "nv_at t h \<noteq> None \<longrightarrow> nv_keys t1 = nv_keys t"
      "nt_size t < nv_table_get_ofs_table_top t + 8 + nt_used t + NV_TABLE_BOUND n"
    show thesis
      by (rule that [of False t1])
        (use r ok in \<open>auto simp: nv_store_new_value_def stored_def nv_wf_def n_def\<close>)
  next
    fix t1 slot1 ofs t2 assume r: "nv_table_reserve_table_entry t h slot = Some (True, t1, slot1)"
      "nv_table_alloc_value t1 n = (Some ofs, t2)" "nt_mem t2 ofs = Some (blank_entry (NV_TABLE_BOUND n))"
      "num_static_entries t2 = num_static_entries t" "nv_ofs t2 = nv_ofs t" "nv_layout t2" "\<forall>h'. nv_ofs t h' \<noteq> ofs"
      "nt_mem t2 = (nt_mem t)(ofs \<mapsto> blank_entry (NV_TABLE_BOUND n))" "ofs \<noteq> 0" "slot_ok t2 h slot1"
      "unat h \<le> num_static_entries t2 \<or> slot1 \<noteq> None" "nt_size t2 = nt_size t"
      "nv_at t h \<noteq> None \<longrightarrow> nv_keys t2 = nv_keys t"
    define e where "e = (blank_entry (NV_TABLE_BOUND n))
      \<lparr>ne_name := (if unat h \<ge> num_static_entries t2 then nv_stored_name name else ''''), ne_value := Vdirect v\<rparr>"
    define t3 where "t3 = nv_put_entry t2 ofs e"
    have l3: "nv_layout t3"
      unfolding t3_def by (rule put_entry_layout [OF r(6,3)]) (simp add: e_def blank_entry_def)
    have s3: "slot_ok t3 h slot1" using r(10) by (simp add: slot_ok_def t3_def split: option.splits)
    obtain t4 where t4: "nv_table_set_table_entry t3 h ofs slot1 = Some t4" "nv_layout t4"
        "nv_ofs t4 = (nv_ofs t3)(h := ofs)" "nt_mem t4 = nt_mem t3" "num_static_entries t4 = num_static_entries t3"
        "map fst (nt_dyn_entries t4) = map fst (nt_dyn_entries t3)" "nt_size t4 = nt_size t3"
      by (rule set_table_entry_spec [OF l3 s3 _ assms(4), of ofs]) (use r in \<open>auto simp: t3_def\<close>)
    have at: "nv_at t4 = (nv_at t)(h \<mapsto> e)"
      by (rule at_new_entry [OF l]) (use r t4 in \<open>auto simp: t3_def\<close>)
    have name: "nv_stored_name name = name" using assms(6,7) by (intro nv_stored_name_id) auto
    have "entry_ok names h e"
      using NV_TABLE_BOUND_ge [of n] assms(6) name by (auto simp: entry_ok_def entry_fits_def e_def blank_entry_def n_def)
    then have "entries_ok names (nv_at t4)"
      unfolding at by (intro entries_ok_put [OF ok assms(2)]) (simp_all add: e_def)
    then have "stored names t h v True t4"
      using t4 at r by (auto simp: stored_def nv_wf_def t3_def nv_keys_def e_def)
    moreover have "nv_store_new_value t slot h name v = Some (True, t4)"
      unfolding nv_store_new_value_def n_def [symmetric] using r(1,2,3) t4(1) by (simp add: t3_def e_def)
    ultimately show thesis using that by blast
  qed
qed

definition entry_of :: "nv_table \<Rightarrow> nvhandle \<Rightarrow> nat option" where
  "entry_of t h = (if nv_ofs t h = 0 then None else Some (nv_ofs t h))"

lemma store_value_spec:
  assumes "nv_wf names t" and "no_refs (nv_at t) h" and "slot_ok t h slot" and "h \<noteq> 0" and "unat h < 65536"
    and "name = '''' \<or> name = names h" and "length (names h) \<le> 255"
    and "\<And>e. nv_at t h = Some e \<Longrightarrow> \<not> indirect e \<Longrightarrow> name = names h"
  obtains ok t1 where "nv_store_value want t slot (entry_of t h) h name v = Some (ok, t1, want \<and> nv_at t h = None)"
    and "stored names t h v ok t1"
    and "\<not> ok \<longrightarrow> nt_size t < nv_table_get_ofs_table_top t + 8 + nt_used t +
      NV_TABLE_BOUND (NV_ENTRY_DIRECT_HDR + length name + length v + 2)"
proof -
  have l: "nv_layout t" using assms(1) by (simp add: nv_wf_def)
  obtain ok t1 where new: "nv_store_new_value t slot h name v = Some (ok, t1)" "stored names t h v ok t1"
    "\<not> ok \<longrightarrow> nt_size t < nv_table_get_ofs_table_top t + 8 + nt_used t +
      NV_TABLE_BOUND (NV_ENTRY_DIRECT_HDR + length name + length v + 2)"
    by (rule store_new_value_spec [OF assms(1-7)])
  show thesis
  proof (cases "nv_at t h")
    case None
    then have "entry_of t h = None" using nv_at_NoneD [OF l] by (simp add: entry_of_def)
    then show ?thesis using new None by (intro that [of ok t1]) (simp_all add: nv_store_value_def)
  next
    case (Some e)
    note at = nv_at_SomeD [OF Some]
    have eo: "entry_of t h = Some (nv_ofs t h)" using at by (simp add: entry_of_def)
    show ?thesis
    proof (cases "length v + NV_ENTRY_DIRECT_HDR + length name + 2 \<le> ne_alloc_len e")
      case True
      show ?thesis
        by (rule that [OF _ store_in_place [OF assms(1,2) Some assms(6) assms(8) [OF Some] assms(7) True refl]])
          (use True eo at Some in \<open>simp_all add: nv_store_value_def\<close>)
    next
      case False
      then show ?thesis using new eo at Some by (intro that [of ok t1]) (simp_all add: nv_store_value_def)
    qed
  qed
qed

end
