(* ===== verification/Nv_Detach.thy ===== *)
theory Nv_Detach
  imports Nv_Values
begin

text \<open>
  Before a value is overwritten, the references into it are replaced by
  copies.  This keeps every value of the payload, and afterwards nothing refers to the
  handle any more.
\<close>

subsection \<open>The slots and their handles\<close>

fun slot_handle :: "nat \<times> nvhandle list \<Rightarrow> nv_slot \<Rightarrow> nvhandle" where
  "slot_handle keys (Static i) = of_nat i + 1"
| "slot_handle keys (Dyn i) = snd keys ! i"

lemma unat_static_handle: "i < 255 \<Longrightarrow> unat (of_nat i + 1 :: u32) = i + 1"
  by (simp add: unat_word_ariths unsigned_of_nat take_bit_nat_eq_self)

lemma slot_entry_ofs:
  assumes "nv_layout t" and "x \<in> set (nv_slots t)"
  shows "nv_slot_entry t x = (slot_handle (nv_keys t) x, nv_ofs t (slot_handle (nv_keys t) x))"
proof (cases x)
  case (Static i)
  then have i: "i < num_static_entries t" using assms(2) by (auto simp: nv_slots_def)
  moreover have "num_static_entries t \<le> 255" using assms(1) by (simp add: nv_layout_def)
  ultimately have u: "unat (of_nat i + 1 :: u32) = i + 1" by (intro unat_static_handle) simp
  then have "(of_nat i + 1 :: u32) \<noteq> 0" by auto
  then show ?thesis using Static i u by (simp add: nv_ofs_def)
next
  case (Dyn i)
  then have i: "i < num_dyn_entries t" using assms(2) by (auto simp: nv_slots_def)
  define h where "h = fst (nt_dyn_entries t ! i)"
  have "h \<in> fst ` set (nt_dyn_entries t)" using i by (simp add: h_def num_dyn_entries_def)
  then have "num_static_entries t < unat h" using nv_layout_dyn(2) [OF assms(1)] by blast
  moreover from this have "h \<noteq> 0" by auto
  moreover have "map_of (nt_dyn_entries t) h = Some (snd (nt_dyn_entries t ! i))"
    unfolding h_def using i by (intro map_of_dyn nv_layout_sorted [OF assms(1)])
  ultimately have "nv_ofs t h = snd (nt_dyn_entries t ! i)" by (simp add: nv_ofs_def)
  then show ?thesis using Dyn i h_def by (simp add: nv_keys_def num_dyn_entries_def prod_eq_iff)
qed

lemma nv_ofs_dyn:
  assumes "\<not> unat h \<le> num_static_entries t" and "nv_ofs t h \<noteq> 0"
  shows "h \<in> fst ` set (nt_dyn_entries t)"
proof (rule ccontr)
  assume "h \<notin> fst ` set (nt_dyn_entries t)"
  then have "map_of (nt_dyn_entries t) h = None" by (simp add: map_of_eq_None_iff)
  then have "nv_ofs t h = 0" using assms(1) by (simp add: nv_ofs_def)
  then show False using assms(2) by simp
qed

lemma handle_has_slot:
  assumes "nv_layout t" and "nv_ofs t h \<noteq> 0"
  obtains x where "x \<in> set (nv_slots t)" and "slot_handle (nv_keys t) x = h"
proof (cases "unat h \<le> num_static_entries t")
  case True
  have "h \<noteq> 0" using assms(2) by auto
  then have u: "0 < unat h" by (simp add: unat_gt_0)
  moreover have "num_static_entries t \<le> 255" using assms(1) by (simp add: nv_layout_def)
  ultimately have "unat (of_nat (unat h - 1) + 1 :: u32) = unat h" using True by (subst unat_static_handle) simp_all
  then have "of_nat (unat h - 1) + 1 = h" by (simp add: word_unat_eq_iff)
  then show ?thesis using True u by (intro that [of "Static (unat h - 1)"]) (auto simp: nv_slots_def)
next
  case False
  then have "h \<in> fst ` set (nt_dyn_entries t)" using assms(2) by (intro nv_ofs_dyn)
  then obtain i where "i < num_dyn_entries t" "fst (nt_dyn_entries t ! i) = h"
    by (auto simp: in_set_conv_nth num_dyn_entries_def)
  then show ?thesis by (intro that [of "Dyn i"]) (auto simp: nv_slots_def nv_keys_def num_dyn_entries_def)
qed

lemma nv_ofs_handle_bound:
  assumes "nv_layout t" and "nv_ofs t h \<noteq> 0"
  shows "unat h < 65536"
proof (cases "unat h \<le> num_static_entries t")
  case True
  moreover have "num_static_entries t \<le> 255" using assms(1) by (simp add: nv_layout_def)
  ultimately show ?thesis by simp
next
  case False
  then have "h \<in> fst ` set (nt_dyn_entries t)" using assms(2) by (intro nv_ofs_dyn)
  then show ?thesis using nv_layout_dyn(2) [OF assms(1)] by blast
qed

lemma nv_slots_keys: "nv_keys t1 = nv_keys t \<Longrightarrow> nv_slots t1 = nv_slots t"
  by (auto simp: nv_keys_def nv_slots_def num_dyn_entries_def dest: map_eq_imp_length_eq)

lemma slot_ok_keys:
  assumes "nv_keys t1 = nv_keys t"
  shows "slot_ok t1 h slot = slot_ok t h slot"
proof -
  have k: "num_static_entries t1 = num_static_entries t" "map fst (nt_dyn_entries t1) = map fst (nt_dyn_entries t)"
    using assms by (simp_all add: nv_keys_def)
  have n: "num_dyn_entries t1 = num_dyn_entries t" using k(2) by (metis length_map num_dyn_entries_def)
  have s: "fst ` set (nt_dyn_entries t1) = fst ` set (nt_dyn_entries t)" using k(2) by (metis set_map)
  have "fst (nt_dyn_entries t1 ! i) = fst (nt_dyn_entries t ! i)" if "i < num_dyn_entries t" for i
    using that k(2) n by (metis nth_map num_dyn_entries_def)
  then show ?thesis using k n s by (auto simp: slot_ok_def split: option.splits)
qed

subsection \<open>Making references direct\<close>

definition names_ok :: "(nvhandle \<Rightarrow> string) \<Rightarrow> bool" where
  "names_ok names \<longleftrightarrow> (\<forall>h. length (names h) \<le> 255)"

definition refers :: "(nvhandle \<Rightarrow> nv_entry option) \<Rightarrow> nvhandle \<Rightarrow> nvhandle \<Rightarrow> bool" where
  "refers at h' h \<longleftrightarrow> (\<exists>e sl. at h' = Some e \<and> ne_value e = Vindirect sl \<and> sl_handle sl = h)"

lemma no_refs_iff: "no_refs at h \<longleftrightarrow> (\<forall>h'. \<not> refers at h' h)"
  by (auto simp: no_refs_def refers_def)

declare nv_add_value_depth.simps [simp del]

text \<open>The inner call, for a reference, needs no further references to be made direct.\<close>

lemma add_value_reference:
  assumes "names_ok names" and "nv_wf names t" and "nv_at t h = Some e" and "indirect e"
  obtains ok t1 new where
    "nv_add_value_depth (Suc depth) want t h (ne_name e) (entry_value (nv_at t) e) = Some (ok, t1, new)"
    and "stored names t h (entry_value (nv_at t) e) ok t1"
proof -
  have l: "nv_layout t" and ents: "entries_ok names (nv_at t)" using assms(2) by (simp_all add: nv_wf_def)
  note at = nv_at_SomeD [OF assms(3)]
  have refs: "no_refs (nv_at t) h" using assms(3,4) by (intro entries_ok_no_refs [OF ents]) simp
  obtain slot where g: "nv_table_get_entry t h = (slot, Some (nv_ofs t h))" "slot_ok t h slot"
    using nv_table_get_entry_result [OF nv_layout_sorted [OF l], of h] at(1) by metis
  have name: "ne_name e = '''' \<or> ne_name e = names h"
    using nv_wf_entry(1) [OF assms(2,3)] by (simp add: entry_ok_def)
  have len: "take (nv_table_get_size (length (entry_value (nv_at t) e))) (entry_value (nv_at t) e) = entry_value (nv_at t) e"
    using entry_value_length [OF assms(2,3)] by (simp add: nv_table_get_size_def)
  have e: "entry_of t h = Some (nv_ofs t h)" using at(1) by (simp add: entry_of_def)
  obtain ok t1 where s: "nv_store_value want t slot (entry_of t h) h (ne_name e) (entry_value (nv_at t) e) =
        Some (ok, t1, want \<and> nv_at t h = None)" "stored names t h (entry_value (nv_at t) e) ok t1"
    by (rule store_value_spec [OF assms(2) refs g(2) at(3) nv_ofs_handle_bound [OF l at(1)] name, of want "entry_value (nv_at t) e"])
      (use assms(1,3,4) in \<open>auto simp: names_ok_def\<close>)
  show thesis
    by (rule that [of ok t1 "want \<and> nv_at t h = None"])
      (use s at g assms(4) len e in \<open>simp_all add: nv_add_value_depth.simps Let_def\<close>)
qed

definition same_values :: "(nvhandle \<Rightarrow> string) \<Rightarrow> nvhandle \<Rightarrow> nv_table \<Rightarrow> nv_table \<Rightarrow> bool" where
  "same_values names h t t1 \<longleftrightarrow>
     nv_wf names t1 \<and> nv_view t1 = nv_view t \<and> nv_keys t1 = nv_keys t \<and> nt_size t1 = nt_size t \<and>
     nv_at t1 h = nv_at t h \<and> nv_ofs t1 h = nv_ofs t h \<and> (\<forall>h'. refers (nv_at t1) h' h \<longrightarrow> refers (nv_at t) h' h)"

lemma same_values_refl: "nv_wf names t \<Longrightarrow> same_values names h t t"
  by (simp add: same_values_def)

lemma same_values_trans: "same_values names h t t1 \<Longrightarrow> same_values names h t1 t2 \<Longrightarrow> same_values names h t t2"
  by (simp add: same_values_def)

lemma stored_same_values:
  assumes "stored names t h' (entry_value (nv_at t) e) ok t1" and "nv_wf names t" and "nv_at t h' = Some e"
    and "indirect e" and "nv_at t h = Some e0" and "\<not> indirect e0"
  shows "same_values names h t t1" "ok \<Longrightarrow> \<not> refers (nv_at t1) h' h"
proof -
  have ents: "entries_ok names (nv_at t)" using assms(2) by (simp add: nv_wf_def)
  have refs: "no_refs (nv_at t) h'" using assms(3,4) by (intro entries_ok_no_refs [OF ents]) simp
  have ne: "h' \<noteq> h" using assms(3-6) by auto
  have up: "\<exists>e1. nv_at t1 = (nv_at t)(h' \<mapsto> e1) \<and> ne_value e1 = Vdirect (entry_value (nv_at t) e)" if ok
    using assms(1) that by (simp add: stored_def)
  have view: "nv_view t1 = nv_view t"
  proof (cases ok)
    case True
    then obtain e1 where "nv_at t1 = (nv_at t)(h' \<mapsto> e1)" "ne_value e1 = Vdirect (entry_value (nv_at t) e)"
      using up by blast
    then have "nv_view t1 = (nv_view t)(h' \<mapsto> entry_value (nv_at t) e)"
      unfolding nv_view_def using values_of_put [OF refs] by simp
    then show ?thesis using assms(3) by (auto simp: nv_view_def values_of_def fun_eq_iff)
  qed (use assms(1) in \<open>simp add: stored_def nv_view_def\<close>)
  show "same_values names h t t1"
    using assms(1,3) ne view up by (cases ok) (auto simp: same_values_def stored_def refers_def split: if_splits)
  show "\<not> refers (nv_at t1) h' h" if ok
    using up [OF that] by (auto simp: refers_def)
qed

lemma make_direct_spec:
  assumes "names_ok names" and "nv_wf names t" and "nv_ofs t h' \<noteq> 0" and "nv_at t h = Some e0" and "\<not> indirect e0"
  obtains stop t1 where "nv_table_make_direct (nv_add_value_depth (Suc depth) False) h h' (nv_ofs t h') t = Some (stop, t1)"
    and "same_values names h t t1" and "\<not> stop \<longrightarrow> \<not> refers (nv_at t1) h' h"
proof -
  have l: "nv_layout t" using assms(2) by (simp add: nv_wf_def)
  obtain e where e: "nv_at t h' = Some e" using nv_at_NoneD [OF l, of h'] assms(3) by fastforce
  note mem = nv_at_SomeD(2) [OF e]
  show thesis
  proof (cases "refers (nv_at t) h' h")
    case False
    then have "nv_table_make_direct (nv_add_value_depth (Suc depth) False) h h' (nv_ofs t h') t = Some (False, t)"
      using e mem by (auto simp: nv_table_make_direct_def refers_def split: nv_payload.splits)
    then show ?thesis using that False same_values_refl [OF assms(2)] by blast
  next
    case True
    then obtain sl where sl: "ne_value e = Vindirect sl" "sl_handle sl = h" using e by (auto simp: refers_def)
    have i: "indirect e" using sl(1) by simp
    have v: "nv_table_resolve_indirect t sl = Some (entry_value (nv_at t) e)"
      by (rule ref_ok_resolve [OF l nv_wf_entry(2) [OF assms(2) e] sl(1)])
    obtain ok t1 new where a:
        "nv_add_value_depth (Suc depth) False t h' (ne_name e) (entry_value (nv_at t) e) = Some (ok, t1, new)"
        "stored names t h' (entry_value (nv_at t) e) ok t1"
      by (rule add_value_reference [OF assms(1,2) e i])
    note sv = stored_same_values [OF a(2) assms(2) e i assms(4,5)]
    show ?thesis
      by (rule that [of "\<not> ok" t1]) (use mem sl v a(1) sv in \<open>simp_all add: nv_table_make_direct_def\<close>)
  qed
qed

lemma visit_make_direct:
  assumes "names_ok names" and "nv_wf names t" and "nv_at t h = Some e0" and "\<not> indirect e0"
    and "set xs \<subseteq> set (nv_slots t)"
  shows "\<exists>stop t1. nv_visit_slots (\<lambda>t. t) (nv_table_make_direct (nv_add_value_depth (Suc depth) False) h) xs t = Some (stop, t1) \<and>
    same_values names h t t1 \<and> (\<not> stop \<longrightarrow> (\<forall>x \<in> set xs. \<not> refers (nv_at t1) (slot_handle (nv_keys t) x) h))"
  using assms(2,3,5)
proof (induction xs arbitrary: t)
  case Nil
  have "same_values names h t t" by (rule same_values_refl [OF Nil.prems(1)])
  then show ?case by (intro exI [of _ False] exI [of _ t]) simp
next
  case (Cons x xs)
  have l: "nv_layout t" using Cons.prems(1) by (simp add: nv_wf_def)
  define h' where "h' = slot_handle (nv_keys t) x"
  have se: "nv_slot_entry t x = (h', nv_ofs t h')"
    unfolding h'_def using Cons.prems(3) by (intro slot_entry_ofs [OF l]) simp
  show ?case
  proof (cases "nv_ofs t h' = 0")
    case True
    then have "\<not> refers (nv_at t) h' h" by (simp add: refers_def nv_at_def)
    then have "\<not> refers (nv_at t1) h' h" if "same_values names h t t1" for t1
      using that by (auto simp: same_values_def)
    then show ?thesis
      using Cons.IH [OF Cons.prems(1,2)] Cons.prems(3) True se
      by (auto simp: nv_table_get_entry_at_ofs_def h'_def)
  next
    case False
    obtain stop t1 where m: "nv_table_make_direct (nv_add_value_depth (Suc depth) False) h h' (nv_ofs t h') t = Some (stop, t1)"
        "same_values names h t t1" "\<not> stop \<longrightarrow> \<not> refers (nv_at t1) h' h"
      by (rule make_direct_spec [OF assms(1) Cons.prems(1) False Cons.prems(2) assms(4)])
    show ?thesis
    proof (cases stop)
      case True
      then show ?thesis
        using m se False by (intro exI [of _ True] exI [of _ t1]) (simp add: nv_table_get_entry_at_ofs_def)
    next
      case go: False
      have sub: "set xs \<subseteq> set (nv_slots t1)" and keys: "nv_keys t1 = nv_keys t"
        using Cons.prems(3) nv_slots_keys [of t1 t] m(2) by (simp_all add: same_values_def)
      have w1: "nv_wf names t1" "nv_at t1 h = Some e0" using m(2) Cons.prems(2) by (simp_all add: same_values_def)
      obtain stop2 t2 where r: "nv_visit_slots (\<lambda>t. t) (nv_table_make_direct (nv_add_value_depth (Suc depth) False) h) xs t1 = Some (stop2, t2)"
          "same_values names h t1 t2" "\<not> stop2 \<longrightarrow> (\<forall>x \<in> set xs. \<not> refers (nv_at t2) (slot_handle (nv_keys t1) x) h)"
        using Cons.IH [OF w1 sub] by blast
      have "\<not> refers (nv_at t2) h' h" using r(2) m(3) go by (auto simp: same_values_def)
      then show ?thesis
        using m(1) r go se False keys same_values_trans [OF m(2) r(2)]
        by (intro exI [of _ stop2] exI [of _ t2]) (simp add: nv_table_get_entry_at_ofs_def h'_def)
    qed
  qed
qed

lemma detach_spec:
  assumes "names_ok names" and "nv_wf names t" and "nv_at t h = Some e0" and "\<not> indirect e0"
  obtains stop t1 where
    "nv_table_foreach_entry (\<lambda>t. t) (nv_table_make_direct (nv_add_value_depth (Suc depth) False) h) t = Some (stop, t1)"
    and "same_values names h t t1" and "\<not> stop \<longrightarrow> no_refs (nv_at t1) h"
proof -
  obtain stop t1 where v:
      "nv_visit_slots (\<lambda>t. t) (nv_table_make_direct (nv_add_value_depth (Suc depth) False) h) (nv_slots t) t = Some (stop, t1)"
      "same_values names h t t1"
      "\<not> stop \<longrightarrow> (\<forall>x \<in> set (nv_slots t). \<not> refers (nv_at t1) (slot_handle (nv_keys t) x) h)"
    using visit_make_direct [OF assms, of "nv_slots t" depth] by blast
  have keys: "nv_keys t1 = nv_keys t" and l1: "nv_layout t1" using v(2) by (simp_all add: same_values_def nv_wf_def)
  have "no_refs (nv_at t1) h" if "\<not> stop"
    unfolding no_refs_iff
  proof (intro allI notI)
    fix h' assume r: "refers (nv_at t1) h' h"
    then have "nv_ofs t1 h' \<noteq> 0" by (auto simp: refers_def nv_at_def split: if_splits)
    then obtain x where "x \<in> set (nv_slots t1)" "slot_handle (nv_keys t1) x = h'" by (rule handle_has_slot [OF l1])
    then show False using v(3) that r keys nv_slots_keys [OF keys] by auto
  qed
  then show thesis using that v by (simp add: nv_table_foreach_entry_def)
qed

end
