(* ===== verification/Nv_Payload.thy ===== *)
theory Nv_Payload
  imports Nv_Detach
begin

text \<open>
  The message payload as a finite map: storing a value or a reference, growing
  and copying a payload and visiting its values, with the properties of these operations.
\<close>

subsection \<open>Storing a value\<close>

lemma get_entry_of:
  assumes "nv_layout t"
  obtains slot where "nv_table_get_entry t h = (slot, entry_of t h)" and "slot_ok t h slot"
  by (rule nv_table_get_entry_result [OF nv_layout_sorted [OF assms], of h]) (rule that, simp_all add: entry_of_def)

lemma entry_of_None:
  assumes "nv_layout t"
  shows "entry_of t h = None \<longleftrightarrow> nv_at t h = None"
proof (cases "nv_at t h")
  case None
  then show ?thesis using nv_at_NoneD [OF assms] by (simp add: entry_of_def)
next
  case (Some e)
  then show ?thesis using nv_at_SomeD(1) [OF Some] by (simp add: entry_of_def)
qed

lemma store_after_detach:
  assumes "names_ok names" and "same_values names h t t0" and "no_refs (nv_at t0) h" and "slot_ok t h slot"
    and "h \<noteq> 0" and "unat h < 65536"
  obtains ok t1 where "nv_store_value want t0 slot (entry_of t h) h (names h) v = Some (ok, t1, want \<and> nv_at t h = None)"
    and "nv_wf names t1" and "nt_size t1 = nt_size t" and "num_static_entries t1 = num_static_entries t"
    and "nv_view t1 = (if ok then (nv_view t)(h \<mapsto> v) else nv_view t)" and "\<not> ok \<longrightarrow> nv_at t1 h = nv_at t h"
proof -
  have sv: "nv_wf names t0" "nv_view t0 = nv_view t" "nv_keys t0 = nv_keys t" "nv_at t0 h = nv_at t h"
      "nv_ofs t0 h = nv_ofs t h" "nt_size t0 = nt_size t"
    using assms(2) by (simp_all add: same_values_def)
  have e0: "entry_of t0 h = entry_of t h" by (simp add: entry_of_def sv)
  have slot: "slot_ok t0 h slot" using assms(4) slot_ok_keys [OF sv(3)] by simp
  obtain ok t1 where s: "nv_store_value want t0 slot (entry_of t0 h) h (names h) v = Some (ok, t1, want \<and> nv_at t0 h = None)"
      "stored names t0 h v ok t1"
    by (rule store_value_spec [OF sv(1) assms(3) slot assms(5,6), where name = "names h" and want = want and v = v])
      (use assms(1) in \<open>auto simp: names_ok_def\<close>)
  have "nv_view t1 = (if ok then (nv_view t)(h \<mapsto> v) else nv_view t)"
    using s(2) values_of_put [OF assms(3)] sv(2) by (auto simp: stored_def nv_view_def)
  moreover have "num_static_entries t1 = num_static_entries t" using s(2) sv(3) by (simp add: stored_def nv_keys_def)
  ultimately show thesis using s sv e0 by (intro that [of ok t1]) (simp_all add: stored_def)
qed

text \<open>
  The result of \<^verbatim>\<open>nv_table_add_value()\<close>.
  An empty value that is not there yet is only stored
  when the caller asks whether the entry is new.
\<close>

lemma add_value_spec:
  assumes "names_ok names" and "nv_wf names t" and "h \<noteq> 0" and "unat h < 65536"
  obtains ok t1 new where "nv_table_add_value want t h (names h) v = Some (ok, t1, new)"
    and "nv_wf names t1" and "nt_size t1 = nt_size t" and "num_static_entries t1 = num_static_entries t"
    and "nv_view t1 = (if ok \<and> (want \<or> v \<noteq> '''' \<or> nv_view t h \<noteq> None)
      then (nv_view t)(h \<mapsto> take NV_TABLE_MAX_BYTES v) else nv_view t)"
    and "ok \<longrightarrow> new \<longleftrightarrow> want \<and> nv_view t h = None" and "\<not> ok \<longrightarrow> nv_at t1 h = nv_at t h"
proof -
  note result = that
  define val where "val = take NV_TABLE_MAX_BYTES v"
  have val_eq: "take (nv_table_get_size (length v)) v = val" by (simp add: val_def nv_table_get_size_def min_def)
  have l: "nv_layout t" and ents: "entries_ok names (nv_at t)" using assms(2) by (simp_all add: nv_wf_def)
  have empty: "val = '''' \<longleftrightarrow> v = ''''" by (simp add: val_def NV_TABLE_MAX_BYTES_def)
  have view: "nv_view t h = None \<longleftrightarrow> nv_at t h = None" by (simp add: nv_view_def values_of_def)
  obtain slot where g: "nv_table_get_entry t h = (slot, entry_of t h)" "slot_ok t h slot"
    by (rule get_entry_of [OF l])
  have eo: "entry_of t h = None \<longleftrightarrow> nv_at t h = None"
    by (rule entry_of_None [OF l])
  note unfold = nv_table_add_value_def numeral_2_eq_2 nv_add_value_depth.simps Let_def val_eq g(1)
  have finish: thesis
    if pre: "same_values names h t t0" "no_refs (nv_at t0) h"
      and eq: "nv_table_add_value want t h (names h) v = nv_store_value want t0 slot (entry_of t h) h (names h) val"
      and some: "want \<or> v \<noteq> '''' \<or> nv_view t h \<noteq> None" for t0
  proof -
    obtain ok t1 where s: "nv_store_value want t0 slot (entry_of t h) h (names h) val = Some (ok, t1, want \<and> nv_at t h = None)"
        "nv_wf names t1" "nt_size t1 = nt_size t" "num_static_entries t1 = num_static_entries t"
        "nv_view t1 = (if ok then (nv_view t)(h \<mapsto> val) else nv_view t)" "\<not> ok \<longrightarrow> nv_at t1 h = nv_at t h"
      by (rule store_after_detach [OF assms(1) pre g(2) assms(3,4)])
    then show thesis using eq some view
      by (intro result [of ok t1 "want \<and> nv_at t h = None"]) (auto simp: val_def)
  qed
  show thesis
  proof (cases "nv_at t h")
    case None
    have refs: "no_refs (nv_at t) h" by (rule entries_ok_no_refs [OF ents]) (simp add: None)
    show ?thesis
    proof (cases "want \<or> v \<noteq> ''''")
      case False
      then show ?thesis using None eo empty view
        by (intro result [of True t False]) (use assms(2) in \<open>auto simp: unfold\<close>)
    next
      case True
      then show ?thesis using None eo empty
        by (intro finish [OF same_values_refl [OF assms(2)] refs]) (auto simp: unfold)
    qed
  next
    case (Some e)
    note at = nv_at_SomeD [OF Some]
    have es: "entry_of t h = Some (nv_ofs t h)" using at by (simp add: entry_of_def)
    have some: "nv_view t h \<noteq> None" using Some view by simp
    show ?thesis
    proof (cases "\<not> indirect e \<and> ne_referenced e")
      case False
      have refs: "no_refs (nv_at t) h" using False Some by (intro entries_ok_no_refs [OF ents]) auto
      show ?thesis
        by (rule finish [OF same_values_refl [OF assms(2)] refs]) (use False es at some in \<open>auto simp: unfold\<close>)
    next
      case True
      obtain stop t0 where d:
          "nv_table_foreach_entry (\<lambda>t. t) (nv_table_make_direct (nv_add_value_depth (Suc 0) False) h) t = Some (stop, t0)"
          "same_values names h t t0" "\<not> stop \<longrightarrow> no_refs (nv_at t0) h"
        by (rule detach_spec [OF assms(1,2) Some, of 0]) (use True in blast)
      show ?thesis
      proof (cases stop)
        case True
        then show ?thesis using \<open>\<not> indirect e \<and> ne_referenced e\<close> d es at some view Some
          by (intro result [of False t0 False]) (auto simp: unfold same_values_def nv_keys_def)
      next
        case go: False
        show ?thesis
          by (rule finish [OF d(2)]) (use True d go es at some in \<open>auto simp: unfold\<close>)
      qed
    qed
  qed
qed

subsection \<open>Storing a reference\<close>

definition linked :: "(nvhandle \<Rightarrow> nv_entry option) \<Rightarrow> nvhandle \<Rightarrow> nv_entry \<Rightarrow> nvhandle \<Rightarrow> nv_entry \<Rightarrow> nvhandle \<Rightarrow> nv_entry option" where
  "linked at h e1 r er = at(h \<mapsto> e1, r \<mapsto> er\<lparr>ne_referenced := True\<rparr>)"

lemma ref_ok_linked:
  assumes "ref_ok at e" and "\<And>sl. ne_value e = Vindirect sl \<Longrightarrow> sl_handle sl \<noteq> h" and "at r = Some er"
  shows "ref_ok (linked at h e1 r er) e"
proof (cases "ne_value e")
  case (Vindirect sl)
  obtain e' where e': "at (sl_handle sl) = Some e'" "\<not> indirect e'" "ne_referenced e'"
      and b: "unat (sl_ofs sl) + unat (sl_len sl) < 2 ^ 32"
    using assms(1) Vindirect by (auto simp: ref_ok_def)
  have "\<exists>e''. linked at h e1 r er (sl_handle sl) = Some e'' \<and> \<not> indirect e'' \<and> ne_referenced e''"
    using e' assms(2) [OF Vindirect] assms(3) by (cases "sl_handle sl = r") (auto simp: linked_def indirect_def)
  then show ?thesis using b Vindirect by (simp add: ref_ok_def)
qed (simp add: ref_ok_def)

lemma entries_ok_linked:
  assumes "entries_ok names at" and "no_refs at h" and "at r = Some er" and "\<not> indirect er" and "h \<noteq> r"
    and "entry_ok names h e1" and "ne_value e1 = Vindirect sl" and "sl_handle sl = r"
    and "unat (sl_ofs sl) + unat (sl_len sl) < 2 ^ 32"
  shows "entries_ok names (linked at h e1 r er)"
  unfolding entries_ok_def
proof (intro allI impI)
  fix h2 e2 assume e2: "linked at h e1 r er h2 = Some e2"
  have er: "entry_ok names r er" "ref_ok at er" using assms(1,3) by (simp_all add: entries_ok_def)
  consider "h2 = h" "e2 = e1" | "h2 = r" "e2 = er\<lparr>ne_referenced := True\<rparr>" | "h2 \<noteq> h" "h2 \<noteq> r" "at h2 = Some e2"
    using e2 assms(5) by (auto simp: linked_def split: if_splits)
  then show "entry_ok names h2 e2 \<and> ref_ok (linked at h e1 r er) e2"
  proof cases
    case 1
    have "linked at h e1 r er r = Some (er\<lparr>ne_referenced := True\<rparr>)" by (simp add: linked_def)
    moreover have "\<not> indirect (er\<lparr>ne_referenced := True\<rparr>)" using assms(4) by (simp add: indirect_def)
    ultimately have "ref_ok (linked at h e1 r er) e1" using assms(7-9) by (simp add: ref_ok_def)
    then show ?thesis using 1 assms(6) by simp
  next
    case 2
    have "entry_ok names r (er\<lparr>ne_referenced := True\<rparr>)"
      using er(1) by (cases "ne_value er") (simp_all add: entry_ok_def entry_fits_def)
    moreover have "ref_ok (linked at h e1 r er) (er\<lparr>ne_referenced := True\<rparr>)"
      using assms(4) by (rule directE) (simp add: ref_ok_def)
    ultimately show ?thesis using 2 by simp
  next
    case 3
    then have "entry_ok names h2 e2" "ref_ok at e2" using assms(1) by (simp_all add: entries_ok_def)
    moreover have "ref_ok (linked at h e1 r er) e2"
      by (rule ref_ok_linked [OF calculation(2) _ assms(3)]) (use 3 assms(2) in \<open>auto simp: no_refs_def\<close>)
    ultimately show ?thesis by simp
  qed
qed

lemma direct_value_linked:
  assumes "at r = Some er" and "h \<noteq> r" and "x \<noteq> h"
  shows "direct_value (linked at h e1 r er) x = direct_value at x"
  using assms by (cases "x = r") (auto simp: linked_def direct_value_def)

lemma values_of_linked:
  assumes "no_refs at h" and "at r = Some er" and "\<not> indirect er" and "h \<noteq> r" and "ne_value e1 = Vindirect sl"
    and "sl_handle sl = r"
  shows "values_of (linked at h e1 r er) =
    (values_of at)(h \<mapsto> take (unat (sl_len sl)) (drop (unat (sl_ofs sl)) (entry_value at er)))"
proof
  fix x
  have dv: "direct_value (linked at h e1 r er) y = direct_value at y" if "y \<noteq> h" for y
    using assms(2,4) that by (rule direct_value_linked)
  have ev: "entry_value (linked at h e1 r er) e2 = entry_value at e2" if "\<And>sl. ne_value e2 = Vindirect sl \<Longrightarrow> sl_handle sl \<noteq> h" for e2
    using that dv by (auto simp: entry_value_def split: nv_payload.splits)
  have er: "direct_value at r = entry_value at er"
    using assms(3) by (rule directE) (simp add: direct_value_def entry_value_def assms(2))
  consider "x = h" | "x = r" | "x \<noteq> h" "x \<noteq> r" by blast
  then show "values_of (linked at h e1 r er) x =
      ((values_of at)(h \<mapsto> take (unat (sl_len sl)) (drop (unat (sl_ofs sl)) (entry_value at er)))) x"
  proof cases
    case 1
    have "linked at h e1 r er h = Some e1" using assms(4) by (simp add: linked_def)
    then show ?thesis using 1 assms(4-6) dv [of r] er by (simp add: values_of_def entry_value_def)
  next
    case 2
    have "entry_value (linked at h e1 r er) (er\<lparr>ne_referenced := True\<rparr>) = entry_value at er"
      using assms(3) by (rule directE) (simp add: entry_value_def)
    then show ?thesis using 2 assms(2,4) by (simp add: values_of_def linked_def)
  next
    case 3
    then show ?thesis using ev assms(1) by (cases "at x") (auto simp: values_of_def linked_def no_refs_def)
  qed
qed

text \<open>The copied slice, computed in 32 bits, is the slice of the value.\<close>

lemma copy_slice:
  assumes "unat ofs + unat (len :: u32) < 2 ^ 32" and "length rv \<le> NV_TABLE_MAX_BYTES"
    and "(if unat ofs > length rv then (0, 0)
      else (ofs, of_int (min (int (unat (ofs + len))) (int (length rv)) - int (unat ofs)))) = (o', l' :: u32)"
  shows "unat o' + unat l' \<le> length rv" "take (unat l') (drop (unat o') rv) = take (unat len) (drop (unat ofs) rv)"
proof -
  have goal: "unat o' + unat l' \<le> length rv \<and> take (unat l') (drop (unat o') rv) = take (unat len) (drop (unat ofs) rv)"
  proof (cases "unat ofs > length rv")
    case True
    then show ?thesis using assms(3) by auto
  next
    case False
    define n where "n = min (unat ofs + unat len) (length rv) - unat ofs"
    have sum: "unat (ofs + len) = unat ofs + unat len" using assms(1) by (intro unat_add_u32) simp
    have "min (int (unat (ofs + len))) (int (length rv)) - int (unat ofs) = int n"
      using False sum by (simp add: n_def of_nat_diff del: of_nat_unat)
    then have l': "l' = of_nat n" and o': "o' = ofs" using assms(3) False by auto
    have "n < 2 ^ 32" using assms(2) by (simp add: n_def NV_TABLE_MAX_BYTES_def)
    then have u: "unat l' = n" unfolding l' by (simp only: unat_of_nat_u32_iff)
    show ?thesis using False by (auto simp: u o' n_def min_def)
  qed
  then show "unat o' + unat l' \<le> length rv" "take (unat l') (drop (unat o') rv) = take (unat len) (drop (unat ofs) rv)"
    by simp_all
qed

lemma copy_referenced_value:
  assumes "nv_wf names t" and "nv_at t r = Some er" and "unat (sl_ofs sl) + unat (sl_len sl) < 2 ^ 32"
  shows "nv_table_copy_referenced_value want t (Some (nv_ofs t r)) h name sl =
    nv_table_add_value want t h name (take (unat (sl_len sl)) (drop (unat (sl_ofs sl)) (entry_value (nv_at t) er)))"
proof -
  define rv where "rv = entry_value (nv_at t) er"
  obtain o' l' where ol: "(if unat (sl_ofs sl) > length rv then (0, 0)
      else (sl_ofs sl, of_int (min (int (unat (sl_ofs sl + sl_len sl))) (int (length rv)) - int (unat (sl_ofs sl))))) = (o', l' :: u32)"
    by fastforce
  note c = copy_slice [OF assms(3) entry_value_length [OF assms(1,2), folded rv_def] ol]
  show ?thesis
    unfolding nv_table_copy_referenced_value_def
    using nv_at_SomeD(2) [OF assms(2)] resolve_entry_value [OF assms(1,2)] ol c
    by (simp add: rv_def [symmetric] del: of_nat_unat)
qed

text \<open>What storing a reference gives.\<close>

definition reference_stored ::
    "(nvhandle \<Rightarrow> string) \<Rightarrow> nv_table \<Rightarrow> nvhandle \<Rightarrow> nv_referenced_slice \<Rightarrow> bool \<Rightarrow> nv_table \<Rightarrow> bool" where
  "reference_stored names t h sl ok t1 \<longleftrightarrow>
     nv_wf names t1 \<and> num_static_entries t1 = num_static_entries t \<and> nt_size t1 = nt_size t \<and>
     nv_view t1 = (if ok
       then (nv_view t)(h \<mapsto> take (unat (sl_len sl)) (drop (unat (sl_ofs sl)) (the (nv_view t (sl_handle sl)))))
       else nv_view t) \<and>
     (\<not> ok \<longrightarrow> nv_at t1 h = nv_at t h)"

lemma reference_storedI:
  assumes "nv_wf names t" and "no_refs (nv_at t) h" and "nv_at t r = Some er" and "\<not> indirect er" and "h \<noteq> r"
    and "sl_handle sl = r" and "unat (sl_ofs sl) + unat (sl_len sl) < 2 ^ 32"
    and "nv_layout t1" and "num_static_entries t1 = num_static_entries t" and "nt_size t1 = nt_size t"
    and "nv_at t1 = linked (nv_at t) h e1 r er" and "entry_ok names h e1" and "ne_value e1 = Vindirect sl"
  shows "reference_stored names t h sl True t1"
proof -
  have ents: "entries_ok names (nv_at t)" using assms(1) by (simp add: nv_wf_def)
  have "entries_ok names (nv_at t1)"
    unfolding assms(11) by (rule entries_ok_linked [OF ents assms(2-5,12,13,6,7)])
  moreover have "the (nv_view t r) = entry_value (nv_at t) er" using assms(3) by (simp add: nv_view_def values_of_def)
  ultimately show ?thesis
    using values_of_linked [OF assms(2-5,13,6)] assms(6,8-10)
    by (simp add: reference_stored_def nv_wf_def nv_view_def assms(11))
qed

lemma store_reference_in_place:
  assumes "names_ok names" and "nv_wf names t" and "no_refs (nv_at t) h" and "nv_at t h = Some e"
    and "NV_ENTRY_INDIRECT_HDR + length (names h) + 1 \<le> ne_alloc_len e"
    and "nv_at t r = Some er" and "\<not> indirect er" and "h \<noteq> r" and "sl_handle sl = r"
    and "unat (sl_ofs sl) + unat (sl_len sl) < 2 ^ 32"
  obtains t1 where "nv_store_reference want t slot (entry_of t h) (nv_ofs t r) h (names h) sl = Some (True, t1, False)"
    and "reference_stored names t h sl True t1"
proof -
  have l: "nv_layout t" using assms(2) by (simp add: nv_wf_def)
  note at = nv_at_SomeD [OF assms(4)] and rt = nv_at_SomeD [OF assms(6)]
  have es: "entry_of t h = Some (nv_ofs t h)" using at(1) by (simp add: entry_of_def)
  have ne: "nv_ofs t r \<noteq> nv_ofs t h" using nv_ofs_inj [OF l _ at(1), of r] assms(8) by auto
  define e1 where "e1 = (if indirect e then e\<lparr>ne_value := Vindirect sl\<rparr>
    else e\<lparr>ne_name := (if unat h \<ge> num_static_entries t then nv_stored_name (names h) else ''''), ne_value := Vindirect sl\<rparr>)"
  define t0 where "t0 = nv_put_entry t (nv_ofs t h) e1"
  define t1 where "t1 = nv_put_entry t0 (nv_ofs t r) (er\<lparr>ne_referenced := True\<rparr>)"
  have name: "nv_stored_name (names h) = names h" using assms(1) by (intro nv_stored_name_id) (simp add: names_ok_def)
  have run: "nv_store_reference want t slot (entry_of t h) (nv_ofs t r) h (names h) sl = Some (True, t1, False)"
    using at(2) rt(2) es ne assms(5)
    by (simp add: nv_store_reference_def nv_table_set_indirect_entry_def nv_mark_referenced_def t0_def t1_def e1_def)
  have l0: "nv_layout t0" unfolding t0_def by (rule put_entry_layout [OF l at(2)]) (simp add: e1_def)
  have at0: "nv_at t0 = (nv_at t)(h \<mapsto> e1)" unfolding t0_def by (rule put_entry_at [OF l at(1)])
  have at1: "nv_at t1 = linked (nv_at t) h e1 r er"
    unfolding t1_def linked_def using put_entry_at [OF l0, of r] rt(1) by (simp add: at0 [symmetric]) (simp add: t0_def)
  have l1: "nv_layout t1"
    unfolding t1_def by (rule put_entry_layout [OF l0, where e = er]) (use rt(2) ne in \<open>simp_all add: t0_def\<close>)
  have "entry_ok names h e" by (rule nv_wf_entry(1) [OF assms(2,4)])
  then have "entry_ok names h e1"
    using assms(5) name by (auto simp: entry_ok_def entry_fits_def e1_def NV_ENTRY_INDIRECT_HDR_def indirect_def split: nv_payload.splits)
  then have "reference_stored names t h sl True t1"
    by (intro reference_storedI [OF assms(2,3,6-10) l1 _ _ at1]) (simp_all add: t1_def t0_def e1_def)
  then show thesis using that run by blast
qed

lemma store_new_reference_spec:
  assumes "names_ok names" and "nv_wf names t" and "no_refs (nv_at t) h" and "slot_ok t h slot" and "h \<noteq> 0"
    and "unat h < 65536" and "nv_at t r = Some er" and "\<not> indirect er" and "h \<noteq> r" and "sl_handle sl = r"
    and "unat (sl_ofs sl) + unat (sl_len sl) < 2 ^ 32"
  obtains ok t1 where "nv_store_new_reference t slot (nv_ofs t r) h (names h) sl = Some (ok, t1)"
    and "reference_stored names t h sl ok t1"
proof -
  define n where "n = NV_ENTRY_INDIRECT_HDR + length (names h) + 1"
  have npos: "0 < n" by (simp add: n_def)
  have l: "nv_layout t" and ents: "entries_ok names (nv_at t)" using assms(2) by (simp_all add: nv_wf_def)
  note rt = nv_at_SomeD [OF assms(7)]
  show thesis
  proof (rule new_entry_spec [OF l assms(4,6,5) npos])
    fix t1 slot1 assume r: "nv_table_reserve_table_entry t h slot = Some (False, t1, slot1)"
      "nv_layout t1" "nv_at t1 = nv_at t" "nv_keys t1 = nv_keys t" "nt_size t1 = nt_size t"
    show thesis
      by (rule that [of False t1])
        (use r ents in \<open>auto simp: nv_store_new_reference_def reference_stored_def nv_wf_def nv_keys_def nv_view_def\<close>)
  next
    fix t1 slot1 assume r: "nv_table_reserve_table_entry t h slot = Some (True, t1, slot1)"
      "nv_table_alloc_value t1 n = (None, t1)" "nv_layout t1" "nv_at t1 = nv_at t" "nt_size t1 = nt_size t"
      "num_static_entries t1 = num_static_entries t"
    show thesis
      by (rule that [of False t1])
        (use r ents in \<open>auto simp: nv_store_new_reference_def reference_stored_def nv_wf_def nv_view_def n_def\<close>)
  next
    fix t1 slot1 ofs t2 assume r: "nv_table_reserve_table_entry t h slot = Some (True, t1, slot1)"
      "nv_table_alloc_value t1 n = (Some ofs, t2)" "nt_mem t2 ofs = Some (blank_entry (NV_TABLE_BOUND n))"
      "num_static_entries t2 = num_static_entries t" "nv_ofs t2 = nv_ofs t" "nv_layout t2" "\<forall>h'. nv_ofs t h' \<noteq> ofs"
      "nt_mem t2 = (nt_mem t)(ofs \<mapsto> blank_entry (NV_TABLE_BOUND n))" "ofs \<noteq> 0" "slot_ok t2 h slot1"
      "unat h \<le> num_static_entries t2 \<or> slot1 \<noteq> None" "nt_size t2 = nt_size t"
    have ne: "nv_ofs t r \<noteq> ofs" using r(7) by blast
    define e1 where "e1 = (blank_entry (NV_TABLE_BOUND n))
      \<lparr>ne_name := (if unat h \<ge> num_static_entries t2 then nv_stored_name (names h) else ''''), ne_value := Vindirect sl\<rparr>"
    define t3 where "t3 = nv_put_entry t2 ofs e1"
    define t4 where "t4 = nv_put_entry t3 (nv_ofs t r) (er\<lparr>ne_referenced := True\<rparr>)"
    have m2: "nt_mem t2 (nv_ofs t r) = Some er" using rt(2) ne by (simp add: r(8))
    have l3: "nv_layout t3"
      unfolding t3_def by (rule put_entry_layout [OF r(6,3)]) (simp add: e1_def blank_entry_def)
    have l4: "nv_layout t4"
      unfolding t4_def by (rule put_entry_layout [OF l3, where e = er]) (use m2 ne in \<open>simp_all add: t3_def\<close>)
    have s4: "slot_ok t4 h slot1" using r(10) by (simp add: slot_ok_def t4_def t3_def split: option.splits)
    obtain t5 where t5: "nv_table_set_table_entry t4 h ofs slot1 = Some t5" "nv_layout t5"
        "nv_ofs t5 = (nv_ofs t4)(h := ofs)" "nt_mem t5 = nt_mem t4" "num_static_entries t5 = num_static_entries t4"
        "nt_size t5 = nt_size t4"
      by (rule set_table_entry_spec [OF l4 s4 _ assms(5), of ofs]) (use r in \<open>auto simp: t4_def t3_def\<close>)
    have at: "nv_at t5 = linked (nv_at t) h e1 r er"
      using r(7,9) assms(9) rt ne nv_ofs_inj [OF l, of _ r]
      by (auto simp: nv_at_def linked_def t5(3,4) t4_def t3_def r(5,8) fun_eq_iff)
    have name: "nv_stored_name (names h) = names h" using assms(1) by (intro nv_stored_name_id) (simp add: names_ok_def)
    have "entry_ok names h e1" using NV_TABLE_BOUND_ge [of n] name
      by (auto simp: entry_ok_def entry_fits_def e1_def blank_entry_def n_def NV_ENTRY_INDIRECT_HDR_def)
    then have "reference_stored names t h sl True t5"
      by (intro reference_storedI [OF assms(2,3,7-11) t5(2) _ _ at])
        (use r t5 in \<open>simp_all add: t4_def t3_def e1_def\<close>)
    moreover have "nv_store_new_reference t slot (nv_ofs t r) h (names h) sl = Some (True, t5)"
      unfolding nv_store_new_reference_def n_def [symmetric] using r(1,2,3) m2 ne t5(1)
      by (simp add: nv_table_set_indirect_entry_def nv_mark_referenced_def blank_entry_def indirect_def t4_def t3_def e1_def)
    ultimately show thesis using that by blast
  qed
qed

lemma store_reference_spec:
  assumes "names_ok names" and "nv_wf names t" and "no_refs (nv_at t) h" and "slot_ok t h slot" and "h \<noteq> 0"
    and "unat h < 65536" and "nv_at t r = Some er" and "\<not> indirect er" and "h \<noteq> r" and "sl_handle sl = r"
    and "unat (sl_ofs sl) + unat (sl_len sl) < 2 ^ 32"
  obtains ok t1 new where "nv_store_reference want t slot (entry_of t h) (nv_ofs t r) h (names h) sl = Some (ok, t1, new)"
    and "reference_stored names t h sl ok t1" and "ok \<longrightarrow> new = (want \<and> nv_at t h = None)"
proof -
  have l: "nv_layout t" using assms(2) by (simp add: nv_wf_def)
  obtain ok t1 where new: "nv_store_new_reference t slot (nv_ofs t r) h (names h) sl = Some (ok, t1)"
      "reference_stored names t h sl ok t1"
    by (rule store_new_reference_spec [OF assms])
  show thesis
  proof (cases "nv_at t h")
    case None
    then have "entry_of t h = None" using entry_of_None [OF l] by simp
    then show ?thesis using new None by (intro that [of ok t1 want]) (simp_all add: nv_store_reference_def)
  next
    case (Some e)
    note at = nv_at_SomeD [OF Some]
    have eo: "entry_of t h = Some (nv_ofs t h)" using at by (simp add: entry_of_def)
    show ?thesis
    proof (cases "NV_ENTRY_INDIRECT_HDR + length (names h) + 1 \<le> ne_alloc_len e")
      case True
      obtain t1 where "nv_store_reference want t slot (entry_of t h) (nv_ofs t r) h (names h) sl = Some (True, t1, False)"
          "reference_stored names t h sl True t1"
        by (rule store_reference_in_place [OF assms(1-3) Some True assms(7-11)])
      then show ?thesis using Some by (intro that [of True t1 False]) simp_all
    next
      case False
      then show ?thesis using new eo at Some by (intro that [of ok t1 False]) (simp_all add: nv_store_reference_def)
    qed
  qed
qed

text \<open>
  The reference is stored, or copied when the value referred to is a
  reference itself, unless the handle is a value that others refer to.
\<close>

lemma add_value_indirect_spec:
  assumes "names_ok names" and "nv_wf names t" and "h \<noteq> 0" and "unat h < 65536"
    and "unat (sl_ofs sl) + unat (sl_len sl) < 2 ^ 32" and "nv_view t (sl_handle sl) \<noteq> None"
    and "\<And>e. nv_at t h = Some e \<Longrightarrow> indirect e \<or> \<not> ne_referenced e"
  obtains ok t1 new where "nv_table_add_value_indirect True t h (names h) sl = Some (ok, t1, new)"
    and "reference_stored names t h sl ok t1" and "ok \<longrightarrow> new = (nv_view t h = None)"
proof -
  define r where "r = sl_handle sl"
  have l: "nv_layout t" and ents: "entries_ok names (nv_at t)" using assms(2) by (simp_all add: nv_wf_def)
  obtain er where er: "nv_at t r = Some er" using assms(6) by (auto simp: nv_view_def values_of_def r_def)
  note rt = nv_at_SomeD [OF er]
  have ref: "snd (nv_table_get_entry t r) = Some (nv_ofs t r)"
    using get_entry_snd [OF nv_layout_sorted [OF l]] rt(1) by simp
  have view: "nv_view t h = None \<longleftrightarrow> nv_at t h = None" by (simp add: nv_view_def values_of_def)
  have vr: "the (nv_view t r) = entry_value (nv_at t) er" using er by (simp add: nv_view_def values_of_def)
  show thesis
  proof (cases "indirect er \<or> h = r")
    case True
    define v where "v = take (unat (sl_len sl)) (drop (unat (sl_ofs sl)) (entry_value (nv_at t) er))"
    have "length v \<le> NV_TABLE_MAX_BYTES" using entry_value_length [OF assms(2) er] by (simp add: v_def)
    then have len: "take NV_TABLE_MAX_BYTES v = v" by simp
    have run: "nv_table_add_value_indirect True t h (names h) sl = nv_table_add_value True t h (names h) v"
      using True ref rt(2) copy_referenced_value [OF assms(2) er assms(5), of True h "names h"]
      by (simp add: nv_table_add_value_indirect_def r_def [symmetric] v_def)
    obtain ok t1 new where a: "nv_table_add_value True t h (names h) v = Some (ok, t1, new)"
        "nv_wf names t1" "nt_size t1 = nt_size t" "num_static_entries t1 = num_static_entries t"
        "nv_view t1 = (if ok \<and> (True \<or> v \<noteq> '''' \<or> nv_view t h \<noteq> None)
          then (nv_view t)(h \<mapsto> take NV_TABLE_MAX_BYTES v) else nv_view t)"
        "ok \<longrightarrow> new \<longleftrightarrow> True \<and> nv_view t h = None" "\<not> ok \<longrightarrow> nv_at t1 h = nv_at t h"
      by (rule add_value_spec [OF assms(1-4)])
    have "reference_stored names t h sl ok t1"
      using a(2-5,7) len vr by (simp add: reference_stored_def r_def [symmetric] v_def [symmetric])
    then show ?thesis using that a(1,6) run by simp
  next
    case False
    have refs: "no_refs (nv_at t) h" using assms(7) by (rule entries_ok_no_refs [OF ents])
    obtain slot where g: "nv_table_get_entry t h = (slot, entry_of t h)" "slot_ok t h slot"
      by (rule get_entry_of [OF l])
    obtain ok t1 new where s:
        "nv_store_reference True t slot (entry_of t h) (nv_ofs t r) h (names h) sl = Some (ok, t1, new)"
        "reference_stored names t h sl ok t1" "ok \<longrightarrow> new = (True \<and> nv_at t h = None)"
      by (rule store_reference_spec [OF assms(1,2) refs g(2) assms(3,4) er _ _ _ assms(5), of True])
        (use False in \<open>auto simp: r_def\<close>)
    have "nv_table_add_value_indirect True t h (names h) sl =
        nv_store_reference True t slot (entry_of t h) (nv_ofs t r) h (names h) sl"
    proof (cases "nv_at t h")
      case None
      then show ?thesis using False ref rt(2) g(1) entry_of_None [OF l, of h]
        by (simp add: nv_table_add_value_indirect_def r_def [symmetric])
    next
      case (Some e)
      then show ?thesis using False ref rt(2) g(1) nv_at_SomeD [OF Some] assms(7) [OF Some]
        by (auto simp: nv_table_add_value_indirect_def r_def [symmetric] entry_of_def)
    qed
    then show ?thesis using that s view by simp
  qed
qed

subsection \<open>Growing and copying\<close>

lemma resized_wf:
  assumes "nv_wf names t" and "nt_size t \<le> n" and "n \<le> NV_TABLE_MAX_BYTES"
    and "nt_size t1 = n" "nt_used t1 = nt_used t" "nt_mem t1 = nt_mem t"
    and "nt_dyn_entries t1 = nt_dyn_entries t" "nt_static_entries t1 = nt_static_entries t"
  shows "nv_wf names t1" "nv_at t1 = nv_at t" "nv_view t1 = nv_view t" "num_static_entries t1 = num_static_entries t"
proof -
  note fs = fields_same [OF assms(7,8)]
  show at: "nv_at t1 = nv_at t" by (simp add: nv_at_def fun_eq_iff fs(1) assms(6))
  then show "nv_view t1 = nv_view t" by (simp add: nv_view_def)
  show "num_static_entries t1 = num_static_entries t" by (rule fs(2))
  show "nv_wf names t1"
    using assms(1-3) unfolding nv_wf_def nv_layout_def at fs assms(4-7) by auto
qed

lemma clone_spec:
  assumes "nv_wf names t"
  shows "nv_wf names (nv_table_clone t n)" "nv_view (nv_table_clone t n) = nv_view t"
    "num_static_entries (nv_table_clone t n) = num_static_entries t" "nt_size t \<le> nt_size (nv_table_clone t n)"
    "nv_at (nv_table_clone t n) = nv_at t"
proof -
  have max: "nt_size t \<le> NV_TABLE_MAX_BYTES" using assms by (simp add: nv_wf_def nv_layout_def)
  show le: "nt_size t \<le> nt_size (nv_table_clone t n)"
    using max by (simp add: nv_table_clone_def Let_def nv_table_get_size_def)
  have "nt_size (nv_table_clone t n) \<le> NV_TABLE_MAX_BYTES" by (simp add: nv_table_clone_def Let_def nv_table_get_size_def)
  note r = resized_wf [OF assms le this refl, unfolded nv_table_clone_def Let_def, simplified]
  show "nv_wf names (nv_table_clone t n)" "nv_view (nv_table_clone t n) = nv_view t"
    "num_static_entries (nv_table_clone t n) = num_static_entries t" "nv_at (nv_table_clone t n) = nv_at t"
    using r by (simp_all add: nv_table_clone_def Let_def)
qed

lemma realloc_spec:
  assumes "nv_wf names t" and "nv_table_realloc t = Some (t1, old)"
  shows "nv_wf names t1" "nv_view t1 = nv_view t" "nv_at t1 = nv_at t" "num_static_entries t1 = num_static_entries t"
    "nt_size t < nt_size t1" "nt_size t1 = nv_table_get_size (nt_size t * 2)" "nt_size t \<noteq> NV_TABLE_MAX_BYTES"
proof -
  have max: "nt_size t \<le> NV_TABLE_MAX_BYTES" using assms by (simp add: nv_wf_def nv_layout_def)
  have f: "nt_size t1 = nv_table_get_size (nt_size t * 2)" "nt_used t1 = nt_used t" "nt_mem t1 = nt_mem t"
      "nt_dyn_entries t1 = nt_dyn_entries t" "nt_static_entries t1 = nt_static_entries t"
      "nv_table_get_size (nt_size t * 2) \<noteq> nt_size t"
    using assms(2)
    by (auto simp: nv_table_realloc_def calc_nv_table_realloc_size_def nv_table_get_size_def Let_def split: if_splits)
  show "nt_size t1 = nv_table_get_size (nt_size t * 2)" by (rule f(1))
  show lt: "nt_size t < nt_size t1" and "nt_size t \<noteq> NV_TABLE_MAX_BYTES"
    using f(1,6) max by (auto simp: nv_table_get_size_def min_def split: if_splits)
  have "nt_size t1 \<le> NV_TABLE_MAX_BYTES" by (simp add: f(1) nv_table_get_size_def)
  note r = resized_wf [OF assms(1) less_imp_le [OF lt] this refl f(2-5)]
  show "nv_wf names t1" "nv_view t1 = nv_view t" "nv_at t1 = nv_at t" "num_static_entries t1 = num_static_entries t"
    by (fact r)+
qed

lemma realloc_None:
  assumes "nv_wf names t" and "nv_table_realloc t = None"
  shows "nt_size t = NV_TABLE_MAX_BYTES"
proof -
  have "nv_table_get_ofs_table_top t + nt_used t \<le> nt_size t" "nt_size t \<le> NV_TABLE_MAX_BYTES"
    using assms(1) by (simp_all add: nv_wf_def nv_layout_def)
  then have "0 < nt_size t" by (simp add: nv_table_get_ofs_table_top_def NV_TABLE_DATA_def)
  moreover have "nv_table_get_size (nt_size t * 2) = nt_size t"
    using assms(2) by (auto simp: nv_table_realloc_def calc_nv_table_realloc_size_def Let_def split: if_splits)
  ultimately show ?thesis by (auto simp: nv_table_get_size_def min_def split: if_splits)
qed

lemma nv_table_new_wf:
  assumes "num_static \<le> 255"
  shows "nv_wf names (nv_table_new num_static num_dyn init)" "nv_view (nv_table_new num_static num_dyn init) = (\<lambda>_. None)"
proof -
  define t where "t = nv_table_new num_static num_dyn init"
  have f: "nt_static_entries t = replicate num_static 0" "nt_dyn_entries t = []" "nt_used t = 0" "nt_mem t = (\<lambda>_. None)"
    using assms by (simp_all add: t_def nv_table_new_def nv_table_init_def)
  have ofs: "nv_ofs t h = 0" for h
  proof (cases "h = 0")
    case False
    then have "0 < unat h" by (simp add: unat_gt_0)
    then show ?thesis using f by (simp add: nv_ofs_def num_static_entries_def)
  qed simp
  then have at: "nv_at t = (\<lambda>_. None)" by (simp add: nv_at_def fun_eq_iff)
  have bound: "n \<le> NV_TABLE_BOUND n" for n by (rule NV_TABLE_BOUND_ge)
  have "NV_TABLE_DATA + num_static * 4 \<le> nt_size t"
    using assms bound [of "NV_TABLE_SIZEOF + num_static * 4 + num_dyn * 8"]
    by (auto simp: t_def nv_table_new_def nv_table_init_def nv_table_get_alloc_size_def nv_table_get_size_def Let_def
        NV_TABLE_DATA_def NV_TABLE_SIZEOF_def NV_TABLE_MAX_BYTES_def)
  moreover have "nt_size t \<le> NV_TABLE_MAX_BYTES" by (simp add: t_def nv_table_new_def nv_table_init_def nv_table_get_size_def)
  ultimately have "nv_layout t"
    using assms f ofs by (simp add: nv_layout_def num_static_entries_def nv_table_get_ofs_table_top_def num_dyn_entries_def
        dyn_sorted_def chunks_ok_def)
  then show "nv_wf names (nv_table_new num_static num_dyn init)" "nv_view (nv_table_new num_static num_dyn init) = (\<lambda>_. None)"
    using at by (simp_all add: nv_wf_def entries_ok_def nv_view_def values_of_def fun_eq_iff flip: t_def)
qed

end
