(* ===== verification/Nv_Properties.thy ===== *)
theory Nv_Properties
  imports Nv_Payload
begin

text \<open>
  Properties of the message payload: it stays well-formed and implements a finite map
  from handles to values; references read parts of other values; and the cases in which
  the code does not do what it means to.
\<close>

subsection \<open>Storing values\<close>

lemma is_value_set_view:
  assumes "nv_wf names t"
  shows "nv_table_is_value_set t h \<longleftrightarrow> nv_view t h \<noteq> None"
proof -
  have l: "nv_layout t" using assms by (simp add: nv_wf_def)
  show ?thesis
    using get_entry_snd [OF nv_layout_sorted [OF l], of h] entry_of_None [OF l, of h]
    by (simp add: nv_table_is_value_set_def nv_view_def values_of_def entry_of_def)
qed

text \<open>
  C5: Storing a value in a payload updates one entry of a finite map.  In a well-formed payload
  \<^verbatim>\<open>nv_table_add_value()\<close> never aborts; when it succeeds, the handle has the new value
  and every other handle keeps its value, also those whose value was a part of the overwritten
  one; when there is no space, no value changes.
\<close>
theorem add_value_updates_map:
  assumes "names_ok names" and "nv_wf names t" and "h \<noteq> 0" and "unat h < 65536"
  shows "\<exists>ok t1 new. nv_table_add_value want t h (names h) v = Some (ok, t1, new) \<and> nv_wf names t1 \<and>
    (if ok \<and> (want \<or> v \<noteq> '''' \<or> nv_table_is_value_set t h)
     then nv_view t1 = (nv_view t)(h \<mapsto> take NV_TABLE_MAX_BYTES v) \<and>
       nv_table_get_value t1 h = Some (take NV_TABLE_MAX_BYTES v) \<and>
       (\<forall>h'. h' \<noteq> h \<longrightarrow> nv_table_get_value t1 h' = nv_table_get_value t h')
     else nv_view t1 = nv_view t)"
proof -
  have set: "nv_table_is_value_set t h \<longleftrightarrow> nv_view t h \<noteq> None" by (rule is_value_set_view [OF assms(2)])
  obtain ok t1 new where a: "nv_table_add_value want t h (names h) v = Some (ok, t1, new)" "nv_wf names t1"
      "nv_view t1 = (if ok \<and> (want \<or> v \<noteq> '''' \<or> nv_view t h \<noteq> None)
        then (nv_view t)(h \<mapsto> take NV_TABLE_MAX_BYTES v) else nv_view t)"
    by (rule add_value_spec [OF assms])
  then show ?thesis
    using set get_value_view [OF a(2)] get_value_view [OF assms(2)]
    by - (rule exI [of _ ok], rule exI [of _ t1], rule exI [of _ new], auto)
qed

text \<open>A payload with a value and a reference into it.\<close>

definition demo_names :: "nvhandle \<Rightarrow> string" where
  "demo_names h = (if h = 3 then ''MESSAGE'' else if h = 20 then ''key'' else if h = 21 then ''host'' else '''')"

definition demo_value :: nv_table where
  "demo_value = fst (snd (the (nv_table_add_value True (nv_table_new 9 4 256) 20 (demo_names 20) ''hello world'')))"

definition demo_slice :: nv_referenced_slice where
  "demo_slice = \<lparr>sl_handle = 20, sl_ofs = 6, sl_len = 5, sl_type = 0\<rparr>"

definition demo_payload :: nv_table where
  "demo_payload = fst (snd (the (nv_table_add_value_indirect True demo_value 21 (demo_names 21) demo_slice)))"

lemma demo_names_ok: "names_ok demo_names"
  by (simp add: names_ok_def demo_names_def)

lemma demo_value_wf: "nv_wf demo_names demo_value"
proof -
  have n: "nv_wf demo_names (nv_table_new 9 4 256)" by (rule nv_table_new_wf) simp
  show ?thesis
    by (rule add_value_spec [OF demo_names_ok n, of 20 True "''hello world''"]) (simp_all add: demo_value_def)
qed

lemma demo_value_entries: "nv_ofs demo_value 21 = 0" "nv_ofs demo_value 20 \<noteq> 0"
  by (code_simp, code_simp)

lemma demo_payload_wf: "nv_wf demo_names demo_payload"
proof -
  have l: "nv_layout demo_value" using demo_value_wf by (simp add: nv_wf_def)
  have none: "nv_at demo_value 21 = None" using demo_value_entries(1) by (simp add: nv_at_def)
  have "nv_at demo_value 20 \<noteq> None" using nv_at_NoneD [OF l, of 20] demo_value_entries(2) by blast
  then have set: "nv_view demo_value (sl_handle demo_slice) \<noteq> None"
    by (simp add: nv_view_def values_of_def demo_slice_def)
  show ?thesis
    by (rule add_value_indirect_spec [OF demo_names_ok demo_value_wf _ _ _ set, of 21])
      (simp_all add: none demo_payload_def demo_slice_def reference_stored_def)
qed

lemma demo_payload_values:
  "nv_table_get_value demo_payload 20 = Some ''hello world''" "nv_table_get_value demo_payload 21 = Some ''world''"
  by (code_simp, code_simp)

theorem add_value_updates_map_witness:
  "nv_table_get_value demo_payload 21 = Some ''world'' \<and>
   (\<exists>ok t1 new. nv_table_add_value True demo_payload 20 (demo_names 20) ''bye'' = Some (ok, t1, new) \<and> nv_wf demo_names t1 \<and>
    (if ok \<and> (True \<or> ''bye'' \<noteq> '''' \<or> nv_table_is_value_set demo_payload 20)
     then nv_view t1 = (nv_view demo_payload)(20 \<mapsto> take NV_TABLE_MAX_BYTES ''bye'') \<and>
       nv_table_get_value t1 20 = Some (take NV_TABLE_MAX_BYTES ''bye'') \<and>
       (\<forall>h'. h' \<noteq> 20 \<longrightarrow> nv_table_get_value t1 h' = nv_table_get_value demo_payload h')
     else nv_view t1 = nv_view demo_payload))"
  using add_value_updates_map [OF demo_names_ok demo_payload_wf, of 20 True "''bye''"] demo_payload_values(2) by simp

subsection \<open>References\<close>


lemma demo_value_view: "nv_view demo_value 20 = Some ''hello world''"
proof -
  have l: "nv_layout demo_value" using demo_value_wf by (simp add: nv_wf_def)
  have "nv_at demo_value 20 \<noteq> None" using nv_at_NoneD [OF l, of 20] demo_value_entries(2) by blast
  moreover have "nv_table_get_value demo_value 20 = Some ''hello world''" by code_simp
  ultimately show ?thesis
    using get_value_view [OF demo_value_wf, of 20] by (auto simp: nv_view_def values_of_def)
qed


subsection \<open>Everything that happens to a payload\<close>

inductive payload_step :: "(nvhandle \<Rightarrow> string) \<Rightarrow> nv_table \<Rightarrow> nv_table \<Rightarrow> bool" for names where
  store: "h \<noteq> 0 \<Longrightarrow> unat h < 65536 \<Longrightarrow> nv_table_add_value want t h (names h) v = Some (ok, t1, new) \<Longrightarrow>
    payload_step names t t1"
| link: "h \<noteq> 0 \<Longrightarrow> unat h < 65536 \<Longrightarrow> unat (sl_ofs sl) + unat (sl_len sl) < 2 ^ 32 \<Longrightarrow>
    nv_table_is_value_set t (sl_handle sl) \<Longrightarrow>
    (\<And>e. nv_at t h = Some e \<Longrightarrow> indirect e \<or> \<not> ne_referenced e) \<Longrightarrow>
    nv_table_add_value_indirect True t h (names h) sl = Some (ok, t1, new) \<Longrightarrow> payload_step names t t1"
| grow: "nv_table_realloc t = Some (t1, old) \<Longrightarrow> payload_step names t t1"
| copy: "payload_step names t (nv_table_clone t n)"

lemma payload_step_wf:
  assumes "payload_step names t t1" and "names_ok names" and "nv_wf names t"
  shows "nv_wf names t1"
  using assms(1)
proof cases
  case (store h want v ok new)
  then show ?thesis using add_value_spec [OF assms(2,3) store(1,2), of want v] by fastforce
next
  case (link h sl ok new)
  have "nv_view t (sl_handle sl) \<noteq> None" using link(4) is_value_set_view [OF assms(3)] by simp
  then show ?thesis
    using link add_value_indirect_spec [OF assms(2,3) link(1-3) _ link(5)] by (fastforce simp: reference_stored_def)
next
  case (grow old)
  then show ?thesis using realloc_spec(1) [OF assms(3)] by blast
next
  case (copy n)
  then show ?thesis using clone_spec(1) [OF assms(3)] by simp
qed



subsection \<open>Handles above 65535\<close>

lemma search_single:
  "nv_search f [(h2, ofs2)] h 0 0 = (if f h2 = h then Inr 0 else if h < f h2 then Inl 0 else Inl 1)"
  by (simp add: nv_search.simps)

lemma reserve_single_collision:
  assumes "nt_dyn_entries t = [(h2, ofs2)]" and "num_static_entries t < unat h" and "ucast (ucast h2 :: u16) = h"
  shows "nv_table_reserve_table_entry t h None =
    (if nv_table_alloc_check t 8 then Some (True, t\<lparr>nt_dyn_entries := [(h, 0)]\<rparr>, Some 0) else Some (False, t, None))"
  using assms by (simp add: nv_table_reserve_table_entry_def num_dyn_entries_def search_single)


definition wide_payload :: nv_table where
  "wide_payload = fst (snd (the (nv_table_add_value True (nv_table_new 9 4 256) 65556 ''wide'' ''lost'')))"

definition wide_payload_after :: nv_table where
  "wide_payload_after = fst (snd (the (nv_table_add_value True wide_payload 20 ''key'' ''value'')))"


subsection \<open>Overwriting a referenced value by a reference\<close>

lemma visit_unreferenced:
  assumes "nv_layout t" and "no_refs (nv_at t) h" and "set xs \<subseteq> set (nv_slots t)"
  shows "nv_visit_slots (\<lambda>t. t) (nv_table_make_direct add h) xs t = Some (False, t)"
  using assms(3)
proof (induction xs)
  case (Cons x xs)
  define h' where "h' = slot_handle (nv_keys t) x"
  have se: "nv_slot_entry t x = (h', nv_ofs t h')"
    unfolding h'_def using Cons.prems by (intro slot_entry_ofs [OF assms(1)]) simp
  have "nv_table_make_direct add h h' (nv_ofs t h') t = Some (False, t)" if set: "nv_ofs t h' \<noteq> 0"
  proof -
    obtain e where e: "nv_at t h' = Some e" using set nv_at_NoneD [OF assms(1), of h'] by fastforce
    then show ?thesis using nv_at_SomeD(2) [OF e] assms(2)
      by (auto simp: nv_table_make_direct_def no_refs_def split: nv_payload.split)
  qed
  then show ?case using Cons se by (simp add: nv_table_get_entry_at_ofs_def)
qed simp

lemma reference_over_marked_value:
  assumes "nv_wf names t" and "nv_at t h = Some e" and "\<not> indirect e" and "ne_referenced e" and "no_refs (nv_at t) h"
    and "nv_at t (sl_handle sl) = Some er" and "\<not> indirect er" and "h \<noteq> sl_handle sl"
  shows "nv_table_add_value_indirect want t h name sl = Some (False, t, False)"
proof -
  have l: "nv_layout t" using assms(1) by (simp add: nv_wf_def)
  note at = nv_at_SomeD [OF assms(2)] and rt = nv_at_SomeD [OF assms(6)]
  have ref: "snd (nv_table_get_entry t (sl_handle sl)) = Some (nv_ofs t (sl_handle sl))"
    using get_entry_snd [OF nv_layout_sorted [OF l]] rt(1) by simp
  obtain slot where g: "nv_table_get_entry t h = (slot, entry_of t h)" by (rule get_entry_of [OF l])
  have "nv_table_foreach_entry (\<lambda>t. t) (nv_table_make_direct (nv_table_add_value False) h) t = Some (False, t)"
    unfolding nv_table_foreach_entry_def by (rule visit_unreferenced [OF l assms(5)]) simp
  then show ?thesis using ref rt(2) g at assms(3,4,7,8)
    by (simp add: nv_table_add_value_indirect_def entry_of_def)
qed

subsection \<open>Copies\<close>

text \<open>
  A copy has the same values, but the space asked for is only added when it is not
  needed.  The copy of a payload has room for the additional bytes exactly if the
  original had it already.
\<close>
theorem clone_additional_space:
  assumes "nv_wf names t"
  shows "nv_view (nv_table_clone t n) = nv_view t \<and> nv_wf names (nv_table_clone t n) \<and>
    (nv_table_alloc_check (nv_table_clone t n) n \<longleftrightarrow> nv_table_alloc_check t n)"
proof -
  have l: "nv_layout t" "nv_layout (nv_table_clone t n)" using assms clone_spec(1) [OF assms] by (simp_all add: nv_wf_def)
  have same: "nt_dyn_entries (nv_table_clone t n) = nt_dyn_entries t" "nt_static_entries (nv_table_clone t n) = nt_static_entries t"
    "nt_used (nv_table_clone t n) = nt_used t"
    by (simp_all add: nv_table_clone_def Let_def)
  have "nt_size (nv_table_clone t n) = nt_size t" if "\<not> nv_table_get_ofs_table_top t + nt_used t + n \<le> nt_size t"
    using that nv_layout_space [OF l(1)]
    by (simp add: nv_table_clone_def Let_def nv_table_get_bottom_def nv_table_get_size_def NV_TABLE_MAX_BYTES_def)
  then have "nv_table_alloc_check (nv_table_clone t n) n \<longleftrightarrow> nv_table_alloc_check t n"
    using clone_spec(4) [OF assms, of n] alloc_check_iff [OF l(1), of n] alloc_check_iff [OF l(2), of n]
      fields_same(5) [OF same(1,2)] same(3) by (cases "nv_table_alloc_check t n") auto
  then show ?thesis using clone_spec(1,2) [OF assms] by simp
qed

theorem clone_additional_space_witness:
  "nv_view (nv_table_clone demo_value 500) = nv_view demo_value \<and> nv_wf demo_names (nv_table_clone demo_value 500) \<and>
   \<not> nv_table_alloc_check (nv_table_clone demo_value 500) 500"
proof -
  have "\<not> nv_table_alloc_check demo_value 500" by code_simp
  then show ?thesis using clone_additional_space [OF demo_value_wf, of 500] by blast
qed

end
