(* ===== verification/Nv_Registry.thy ===== *)
theory Nv_Registry
  imports Nv_Table
begin

text \<open>
  The registry of names (\<^verbatim>\<open>lib/nvtable.c\<close>, \<^verbatim>\<open>lib/nvtable.h\<close>): every name that is used
  in a message gets a handle, its position in an array counted from one.  A hash table maps
  names and aliases to handles.  Aborting stands for reading or writing behind the array.
\<close>

record nv_handle_desc =
  nd_name :: string
  nd_flags :: u16
  nd_name_len :: u8

record nv_registry =
  nr_names :: "nv_handle_desc list"
  nr_name_map :: "string \<Rightarrow> nvhandle option"
  nr_nvhandle_max_value :: u32

definition nv_registry_get_handle :: "nv_registry \<Rightarrow> string \<Rightarrow> nvhandle" where
  "nv_registry_get_handle self name = (case nr_name_map self name of None \<Rightarrow> 0 | Some p \<Rightarrow> p)"

text \<open>The number of names is a \<open>guint\<close>, hence the comparison with the limit is one of words.\<close>

definition nv_registry_alloc_handle :: "nv_registry \<Rightarrow> string \<Rightarrow> nvhandle \<times> nv_registry" where
  "nv_registry_alloc_handle self name =
     (let p = nv_registry_get_handle self name; len = length name in
      if p \<noteq> 0 then (p, self)
      else if len = 0 then (0, self)
      else if len > 255 then (0, self)
      else if (of_nat (length (nr_names self)) :: u32) \<ge> nr_nvhandle_max_value self then (0, self)
      else
        let stored = \<lparr>nd_name = name, nd_flags = 0, nd_name_len = of_nat len\<rparr>;
            names = nr_names self @ [stored]
        in (of_nat (length names),
            self\<lparr>nr_names := names, nr_name_map := (nr_name_map self)(name \<mapsto> of_nat (length names))\<rparr>))"

definition nv_registry_add_alias :: "nv_registry \<Rightarrow> nvhandle \<Rightarrow> string \<Rightarrow> nv_registry" where
  "nv_registry_add_alias self handle alias = self\<lparr>nr_name_map := (nr_name_map self)(alias \<mapsto> handle)\<rparr>"

definition nv_handle_stored :: "nv_registry \<Rightarrow> nvhandle \<Rightarrow> nv_handle_desc option" where
  "nv_handle_stored self handle =
     (if unat (handle - 1) < length (nr_names self) then Some (nr_names self ! unat (handle - 1)) else None)"

definition nv_registry_set_handle_flags :: "nv_registry \<Rightarrow> nvhandle \<Rightarrow> u16 \<Rightarrow> nv_registry option" where
  "nv_registry_set_handle_flags self handle flags =
     (if handle = 0 then Some self
      else do {
        stored \<leftarrow> nv_handle_stored self handle;
        Some (self\<lparr>nr_names := (nr_names self)[unat (handle - 1) := stored\<lparr>nd_flags := flags\<rparr>]\<rparr>)
      })"

definition nv_registry_get_handle_flags :: "nv_registry \<Rightarrow> nvhandle \<Rightarrow> u16 option" where
  "nv_registry_get_handle_flags self handle =
     (if handle = 0 then Some 0 else map_option nd_flags (nv_handle_stored self handle))"

text \<open>The name is returned with its length, hence cut off at the length stored in 8 bits.\<close>

definition nv_registry_get_handle_name :: "nv_registry \<Rightarrow> nvhandle \<Rightarrow> string option" where
  "nv_registry_get_handle_name self handle =
     (if handle = 0 then Some ''None''
      else map_option (\<lambda>stored. take (unat (nd_name_len stored)) (nd_name stored)) (nv_handle_stored self handle))"

definition nv_registry_new :: "string list \<Rightarrow> u32 \<Rightarrow> nv_registry" where
  "nv_registry_new static_names nvhandle_max_value =
     fold (\<lambda>name self. snd (nv_registry_alloc_handle self name)) static_names
       \<lparr>nr_names = [], nr_name_map = (\<lambda>_. None), nr_nvhandle_max_value = nvhandle_max_value\<rparr>"

subsection \<open>Well-formed registries\<close>

text \<open>Every name in the array has a valid length, and the table leads to handles of the array only.\<close>

definition nr_wf :: "nv_registry \<Rightarrow> bool" where
  "nr_wf r \<longleftrightarrow>
     length (nr_names r) \<le> unat (nr_nvhandle_max_value r) \<and>
     (\<forall>d \<in> set (nr_names r). 0 < length (nd_name d) \<and> length (nd_name d) \<le> 255 \<and> unat (nd_name_len d) = length (nd_name d)) \<and>
     (\<forall>name p. nr_name_map r name = Some p \<longrightarrow> unat p \<le> length (nr_names r))"

definition registry_names :: "nv_registry \<Rightarrow> nvhandle \<Rightarrow> string" where
  "registry_names r h = (case nv_registry_get_handle_name r h of None \<Rightarrow> '''' | Some n \<Rightarrow> n)"

lemma nr_wf_length:
  assumes "nr_wf r"
  shows "length (nr_names r) < 2 ^ 32"
  using assms unat_u32_less [of "nr_nvhandle_max_value r"] by (simp add: nr_wf_def)

lemma stored_name_len:
  assumes "nr_wf r" and "nv_handle_stored r h = Some d"
  shows "take (unat (nd_name_len d)) (nd_name d) = nd_name d" "length (nd_name d) \<le> 255"
proof -
  have "d \<in> set (nr_names r)" using assms(2) by (auto simp: nv_handle_stored_def split: if_splits)
  then show "take (unat (nd_name_len d)) (nd_name d) = nd_name d" "length (nd_name d) \<le> 255"
    using assms(1) by (auto simp: nr_wf_def)
qed

lemma registry_names_length:
  assumes "nr_wf r"
  shows "length (registry_names r h) \<le> 255"
proof (cases "h = 0 \<or> nv_handle_stored r h = None")
  case True
  then show ?thesis by (auto simp: registry_names_def nv_registry_get_handle_name_def)
next
  case False
  then obtain d where d: "h \<noteq> 0" "nv_handle_stored r h = Some d" by auto
  show ?thesis
    using stored_name_len [OF assms d(2)] d by (simp add: registry_names_def nv_registry_get_handle_name_def)
qed

lemma alloc_handle_cases:
  assumes "nr_wf r"
  obtains (known) p where "nr_name_map r name = Some p" "p \<noteq> 0" "nv_registry_alloc_handle r name = (p, r)"
  | (refused) "nv_registry_alloc_handle r name = (0, r)"
  | (new) r1 where "nv_registry_alloc_handle r name = (of_nat (Suc (length (nr_names r))), r1)"
      "nr_names r1 = nr_names r @ [\<lparr>nd_name = name, nd_flags = 0, nd_name_len = of_nat (length name)\<rparr>]"
      "nr_name_map r1 = (nr_name_map r)(name \<mapsto> of_nat (Suc (length (nr_names r))))"
      "nr_nvhandle_max_value r1 = nr_nvhandle_max_value r"
      "0 < length name" "length name \<le> 255" "length (nr_names r) < unat (nr_nvhandle_max_value r)"
proof (cases "nv_registry_get_handle r name = 0")
  case False
  then obtain p where "nr_name_map r name = Some p" "p \<noteq> 0" by (auto simp: nv_registry_get_handle_def split: option.splits)
  then show ?thesis by (intro known) (simp_all add: nv_registry_alloc_handle_def nv_registry_get_handle_def)
next
  case True
  have u: "unat (of_nat (length (nr_names r)) :: u32) = length (nr_names r)"
    using nr_wf_length [OF assms] by (simp only: unat_of_nat_u32_iff)
  have cmp: "nr_nvhandle_max_value r \<le> of_nat (length (nr_names r)) \<longleftrightarrow>
      unat (nr_nvhandle_max_value r) \<le> length (nr_names r)"
    by (simp only: word_le_nat_alt u)
  define r1 where "r1 = snd (nv_registry_alloc_handle r name)"
  show ?thesis
  proof (cases "name = '''' \<or> length name > 255 \<or> unat (nr_nvhandle_max_value r) \<le> length (nr_names r)")
    case True
    then show ?thesis using \<open>nv_registry_get_handle r name = 0\<close>
      by (intro refused) (auto simp: nv_registry_alloc_handle_def cmp Let_def)
  next
    case False
    show ?thesis
      by (rule new [of r1]) (use True False in \<open>auto simp: r1_def nv_registry_alloc_handle_def cmp Let_def\<close>)
  qed
qed

lemma alloc_handle_wf:
  assumes "nr_wf r"
  shows "nr_wf (snd (nv_registry_alloc_handle r name))"
proof (rule alloc_handle_cases [OF assms, of name])
  fix r1 assume new: "nv_registry_alloc_handle r name = (of_nat (Suc (length (nr_names r))), r1)"
      "nr_names r1 = nr_names r @ [\<lparr>nd_name = name, nd_flags = 0, nd_name_len = of_nat (length name)\<rparr>]"
      "nr_name_map r1 = (nr_name_map r)(name \<mapsto> of_nat (Suc (length (nr_names r))))"
      "nr_nvhandle_max_value r1 = nr_nvhandle_max_value r"
      "0 < length name" "length name \<le> 255" "length (nr_names r) < unat (nr_nvhandle_max_value r)"
  have "Suc (length (nr_names r)) < 2 ^ 32"
    using new(7) unat_u32_less [of "nr_nvhandle_max_value r"] by simp
  then have "unat (of_nat (Suc (length (nr_names r))) :: u32) = Suc (length (nr_names r))"
    by (simp only: unat_of_nat_u32_iff)
  moreover have "unat (of_nat (length name) :: u8) = length name"
    using new(6) by (simp add: unsigned_of_nat take_bit_nat_eq_self)
  ultimately show ?thesis using assms new by (auto simp: nr_wf_def intro: le_SucI)
qed (use assms in simp_all)

lemma new_registry_wf: "nr_wf (nv_registry_new static_names limit)"
proof -
  have run: "nr_wf (fold (\<lambda>name self. snd (nv_registry_alloc_handle self name)) ns r)" if "nr_wf r" for ns r
    using that by (induction ns arbitrary: r) (simp_all add: alloc_handle_wf)
  show ?thesis unfolding nv_registry_new_def by (rule run) (simp add: nr_wf_def)
qed

lemma stored_nth:
  assumes "i < length (nr_names r)" and "length (nr_names r) < 2 ^ 32"
  shows "nv_handle_stored r (of_nat (Suc i)) = Some (nr_names r ! i)"
proof -
  have "unat (of_nat i :: u32) = i" using assms by (simp only: unat_of_nat_u32_iff)
  then show ?thesis using assms(1) by (simp add: nv_handle_stored_def)
qed

text \<open>The uses of a registry while messages are processed.\<close>

datatype registry_op = Alloc_handle string | Set_handle_flags nvhandle u16

definition registry_step :: "registry_op \<Rightarrow> nv_registry \<Rightarrow> nv_registry" where
  "registry_step op r = (case op of
     Alloc_handle name \<Rightarrow> snd (nv_registry_alloc_handle r name)
   | Set_handle_flags h flags \<Rightarrow> (case nv_registry_set_handle_flags r h flags of None \<Rightarrow> r | Some r1 \<Rightarrow> r1))"

text \<open>A step keeps every name and every mapping of the table.\<close>

definition registry_extends :: "nv_registry \<Rightarrow> nv_registry \<Rightarrow> bool" where
  "registry_extends r r1 \<longleftrightarrow>
     (\<forall>h name. nv_registry_get_handle_name r h = Some name \<longrightarrow> nv_registry_get_handle_name r1 h = Some name) \<and>
     (\<forall>name. nv_registry_get_handle r name \<noteq> 0 \<longrightarrow> nv_registry_get_handle r1 name = nv_registry_get_handle r name)"

lemma registry_extends_refl: "registry_extends r r"
  by (simp add: registry_extends_def)

lemma registry_extends_trans: "registry_extends r r1 \<Longrightarrow> registry_extends r1 r2 \<Longrightarrow> registry_extends r r2"
  by (simp add: registry_extends_def)

lemma alloc_handle_extends:
  assumes "nr_wf r"
  shows "registry_extends r (snd (nv_registry_alloc_handle r name))"
proof (rule alloc_handle_cases [OF assms, of name])
  fix r1 assume new: "nv_registry_alloc_handle r name = (of_nat (Suc (length (nr_names r))), r1)"
      "nr_names r1 = nr_names r @ [\<lparr>nd_name = name, nd_flags = 0, nd_name_len = of_nat (length name)\<rparr>]"
      "nr_name_map r1 = (nr_name_map r)(name \<mapsto> of_nat (Suc (length (nr_names r))))"
  have zero: "nv_registry_get_handle r name = 0"
  proof (rule ccontr)
    assume "nv_registry_get_handle r name \<noteq> 0"
    then have "snd (nv_registry_alloc_handle r name) = r" by (simp add: nv_registry_alloc_handle_def)
    then show False using new(1,2) by simp
  qed
  have "nv_handle_stored r1 h = Some d" if "nv_handle_stored r h = Some d" for h d
    using that by (auto simp: nv_handle_stored_def new(2) nth_append split: if_splits)
  then have "nv_registry_get_handle_name r1 h = Some n" if "nv_registry_get_handle_name r h = Some n" for h n
    using that by (auto simp: nv_registry_get_handle_name_def split: if_splits)
  then show ?thesis using zero by (auto simp: registry_extends_def new(1,3) nv_registry_get_handle_def)
qed (simp_all add: registry_extends_refl)

lemma set_flags_effect:
  assumes "nr_wf r" and "nv_registry_set_handle_flags r h flags = Some r1"
  shows "nr_wf r1" "registry_extends r r1"
proof -
  consider "h = 0" "r1 = r" | d where "nv_handle_stored r h = Some d"
      "r1 = r\<lparr>nr_names := (nr_names r)[unat (h - 1) := d\<lparr>nd_flags := flags\<rparr>]\<rparr>" "h \<noteq> 0"
    using assms(2) by (auto simp: nv_registry_set_handle_flags_def split: if_splits bind_splits)
  then have "nr_wf r1 \<and> registry_extends r r1"
  proof cases
    case 1
    then show ?thesis using assms(1) registry_extends_refl by simp
  next
    case 2
    have i: "unat (h - 1) < length (nr_names r)" and d: "d = nr_names r ! unat (h - 1)"
      using 2(1) by (auto simp: nv_handle_stored_def split: if_splits)
    then have "d \<in> set (nr_names r)" by simp
    then have w: "nr_wf r1"
      using assms(1) set_update_subset_insert [of "nr_names r" "unat (h - 1)" "d\<lparr>nd_flags := flags\<rparr>"]
      by (auto simp: nr_wf_def 2(2))
    have "nv_registry_get_handle_name r1 h' = nv_registry_get_handle_name r h'" for h'
      using i by (cases "unat (h' - 1) = unat (h - 1)")
        (auto simp: nv_registry_get_handle_name_def nv_handle_stored_def 2(2) d)
    then show ?thesis using w by (simp add: registry_extends_def nv_registry_get_handle_def 2(2))
  qed
  then show "nr_wf r1" "registry_extends r r1" by simp_all
qed

lemma registry_step_effect:
  assumes "nr_wf r"
  shows "nr_wf (registry_step op r)" "registry_extends r (registry_step op r)"
  using assms alloc_handle_wf [OF assms] alloc_handle_extends [OF assms] set_flags_effect [OF assms] registry_extends_refl
  by (auto simp: registry_step_def split: registry_op.split option.split)

lemma registry_run:
  assumes "nr_wf r"
  shows "nr_wf (fold registry_step ops r) \<and> registry_extends r (fold registry_step ops r)"
  using assms
proof (induction ops arbitrary: r)
  case (Cons op ops)
  have s: "nr_wf (registry_step op r)" "registry_extends r (registry_step op r)"
    by (rule registry_step_effect [OF Cons.prems])+
  show ?case using Cons.IH [OF s(1)] registry_extends_trans [OF s(2)] by simp
qed (simp add: registry_extends_refl)

lemma alloc_handle_name:
  assumes "nr_wf r" and "nv_registry_alloc_handle r name = (h, r1)" and "h \<noteq> 0" and "nr_name_map r name = None"
  shows "nv_registry_get_handle_name r1 h = Some name" "nv_registry_get_handle r1 name = h"
proof -
  have "nv_registry_get_handle_name r1 h = Some name \<and> nv_registry_get_handle r1 name = h"
  proof (rule alloc_handle_cases [OF assms(1), of name])
    fix r2 assume new: "nv_registry_alloc_handle r name = (of_nat (Suc (length (nr_names r))), r2)"
      "nr_names r2 = nr_names r @ [\<lparr>nd_name = name, nd_flags = 0, nd_name_len = of_nat (length name)\<rparr>]"
      "nr_name_map r2 = (nr_name_map r)(name \<mapsto> of_nat (Suc (length (nr_names r))))"
      "length name \<le> 255"
    have w: "nr_wf r2" using alloc_handle_wf [OF assms(1), of name] new(1) by simp
    have e: "r1 = r2" "h = of_nat (Suc (length (nr_names r)))" using assms(2) new(1) by simp_all
    have st: "nv_handle_stored r2 h = Some \<lparr>nd_name = name, nd_flags = 0, nd_name_len = of_nat (length name)\<rparr>"
      unfolding e using stored_nth [of "length (nr_names r)" r2] nr_wf_length [OF w] new(2) by simp
    show ?thesis
      using st stored_name_len(1) [OF w st] assms(3) e new(3)
      by (simp add: nv_registry_get_handle_name_def nv_registry_get_handle_def)
  qed (use assms in simp_all)
  then show "nv_registry_get_handle_name r1 h = Some name" "nv_registry_get_handle r1 name = h" by simp_all
qed

text \<open>
  C19: Names and handles determine each other.  When a name is registered, its handle
  leads back to the name and the name to the handle, now and after any further registrations and
  changes of flags.
\<close>
theorem registry_handle_roundtrip:
  assumes "nr_wf r" and "nr_name_map r name = None" and "nv_registry_alloc_handle r name = (h, r1)" and "h \<noteq> 0"
  shows "nv_registry_get_handle_name (fold registry_step ops r1) h = Some name \<and>
    fst (nv_registry_alloc_handle (fold registry_step ops r1) name) = h"
proof -
  have w: "nr_wf r1" using alloc_handle_wf [OF assms(1), of name] assms(3) by simp
  note n = alloc_handle_name [OF assms(1,3,4,2)]
  have e: "registry_extends r1 (fold registry_step ops r1)" using registry_run [OF w] by blast
  have g: "nv_registry_get_handle (fold registry_step ops r1) name = h"
    using e n(2) assms(4) by (auto simp: registry_extends_def)
  then have "fst (nv_registry_alloc_handle (fold registry_step ops r1) name) = h"
    using assms(4) by (simp add: nv_registry_alloc_handle_def)
  then show ?thesis using e n(1) by (auto simp: registry_extends_def)
qed

theorem registry_handle_roundtrip_witness:
  "nv_registry_get_handle_name
     (fold registry_step [Alloc_handle ''PID'', Set_handle_flags 3 1, Alloc_handle ''.SDATA.x.y'']
       (snd (nv_registry_alloc_handle (nv_registry_new [''HOST'', ''MESSAGE''] 10) ''PROGRAM''))) 3 = Some ''PROGRAM'' \<and>
   fst (nv_registry_alloc_handle
     (fold registry_step [Alloc_handle ''PID'', Set_handle_flags 3 1, Alloc_handle ''.SDATA.x.y'']
       (snd (nv_registry_alloc_handle (nv_registry_new [''HOST'', ''MESSAGE''] 10) ''PROGRAM''))) ''PROGRAM'') = 3"
proof (rule registry_handle_roundtrip [OF new_registry_wf [of "[''HOST'', ''MESSAGE'']" 10]])
  show "nr_name_map (nv_registry_new [''HOST'', ''MESSAGE''] 10) ''PROGRAM'' = None" by code_simp
  have "fst (nv_registry_alloc_handle (nv_registry_new [''HOST'', ''MESSAGE''] 10) ''PROGRAM'') = 3" by code_simp
  then show "nv_registry_alloc_handle (nv_registry_new [''HOST'', ''MESSAGE''] 10) ''PROGRAM'' =
      (3, snd (nv_registry_alloc_handle (nv_registry_new [''HOST'', ''MESSAGE''] 10) ''PROGRAM''))"
    by (simp add: prod_eq_iff)
qed simp

end
