(* ===== verification/Msg_Value.thy ===== *)
theory Msg_Value
  imports Nv_Properties Nv_Registry
begin

text \<open>
  The values of a log message (\<^verbatim>\<open>lib/logmsg.c\<close>, \<^verbatim>\<open>lib/logmsg.h\<close>): setting and reading
  name-value pairs, references between them, matches of regular expressions, and the array of
  structured data elements.  The registry is the global \<^verbatim>\<open>logmsg_registry\<close>.
\<close>

subsection \<open>State\<close>

record msg_content =
  mc_payload :: nv_table
  mc_flags :: u32
  mc_sdata :: "nvhandle list"
  mc_alloc_sdata :: nat
  mc_num_matches :: u8
  mc_initial_parse :: bool

definition LM_V_NONE :: nvhandle where "LM_V_NONE = 0"
definition LM_V_PROGRAM :: nvhandle where "LM_V_PROGRAM = 4"
definition LM_V_PID :: nvhandle where "LM_V_PID = 5"
definition LM_V_MAX :: nvhandle where "LM_V_MAX = 9"

definition LM_VF_SDATA :: u16 where "LM_VF_SDATA = 1"
definition LM_VF_MACRO :: u16 where "LM_VF_MACRO = 4"

definition LF_STATE_OWN_PAYLOAD :: u32 where "LF_STATE_OWN_PAYLOAD = 0x10"
definition LF_STATE_OWN_SDATA :: u32 where "LF_STATE_OWN_SDATA = 0x80"
definition LF_LEGACY_MSGHDR :: u32 where "LF_LEGACY_MSGHDR = 0x20000"

definition chk_flag :: "msg_content \<Rightarrow> u32 \<Rightarrow> bool" where
  "chk_flag self flag \<longleftrightarrow> mc_flags self AND flag \<noteq> 0"

definition set_flag :: "msg_content \<Rightarrow> u32 \<Rightarrow> msg_content" where
  "set_flag self flag = self\<lparr>mc_flags := mc_flags self OR flag\<rparr>"

definition unset_flag :: "msg_content \<Rightarrow> u32 \<Rightarrow> msg_content" where
  "unset_flag self flag = self\<lparr>mc_flags := mc_flags self AND NOT flag\<rparr>"

subsection \<open>Handles\<close>

definition logmsg_sd_prefix :: string where "logmsg_sd_prefix = ''.SDATA.''"

text \<open>The prefix has seven characters; the code looks at the one with index 6 for a further one.\<close>

definition log_msg_get_value_handle :: "nv_registry \<Rightarrow> string \<Rightarrow> (nvhandle \<times> nv_registry) option" where
  "log_msg_get_value_handle reg value_name = do {
     let (handle, reg) = nv_registry_alloc_handle reg value_name;
     reg \<leftarrow> (if take (length logmsg_sd_prefix) value_name = logmsg_sd_prefix \<and> char_at value_name 6 \<noteq> NUL
             then nv_registry_set_handle_flags reg handle LM_VF_SDATA else Some reg);
     Some (handle, reg)
   }"

definition log_msg_get_value_name :: "nv_registry \<Rightarrow> nvhandle \<Rightarrow> string option" where
  "log_msg_get_value_name reg handle = nv_registry_get_handle_name reg handle"

definition log_msg_is_handle_macro :: "nv_registry \<Rightarrow> nvhandle \<Rightarrow> bool option" where
  "log_msg_is_handle_macro reg handle = do {
     flags \<leftarrow> nv_registry_get_handle_flags reg handle;
     Some (flags AND LM_VF_MACRO \<noteq> 0)
   }"

definition log_msg_is_handle_sdata :: "nv_registry \<Rightarrow> nvhandle \<Rightarrow> bool option" where
  "log_msg_is_handle_sdata reg handle = do {
     flags \<leftarrow> nv_registry_get_handle_flags reg handle;
     Some (flags AND LM_VF_SDATA \<noteq> 0)
   }"

definition log_msg_is_handle_match :: "(nat \<Rightarrow> nvhandle) \<Rightarrow> nvhandle \<Rightarrow> bool option" where
  "log_msg_is_handle_match match_handles handle = do {
     g_assert (match_handles 0 \<noteq> 0 \<and> match_handles 255 \<noteq> 0 \<and> match_handles 0 < match_handles 255);
     Some (match_handles 0 \<le> handle \<and> handle \<le> match_handles 255)
   }"

subsection \<open>Reading a value\<close>

text \<open>The values of macros come from the template code, which is a parameter.\<close>

definition log_msg_get_value ::
    "nv_registry \<Rightarrow> (nat \<Rightarrow> msg_content \<Rightarrow> string) \<Rightarrow> msg_content \<Rightarrow> nvhandle \<Rightarrow> string option" where
  "log_msg_get_value reg macro_value self handle = do {
     flags \<leftarrow> nv_registry_get_handle_flags reg handle;
     if flags AND LM_VF_MACRO = 0 then nv_table_get_value (mc_payload self) handle
     else Some (macro_value (unat (drop_bit 8 flags)) self)
   }"

subsection \<open>Structured data\<close>

text \<open>The last dot of a name.\<close>

definition memrchr_dot :: "string \<Rightarrow> nat option" where
  "memrchr_dot name =
     (if CHR ''.'' \<in> set name then Some (length name - 1 - length (takeWhile (\<lambda>c. c \<noteq> CHR ''.'') (rev name))) else None)"

text \<open>The search for the last element of the same block, from the end of the array.\<close>

fun sdata_block_search ::
    "nv_registry \<Rightarrow> string \<Rightarrow> nat \<Rightarrow> nvhandle list \<Rightarrow> nat \<Rightarrow> nat option option" where
  "sdata_block_search reg name prefix_and_block_len sdata 0 = Some None"
| "sdata_block_search reg name prefix_and_block_len sdata (Suc i) = do {
     sdata_name \<leftarrow> log_msg_get_value_name reg (sdata ! i);
     if length sdata_name > prefix_and_block_len \<and>
        take prefix_and_block_len sdata_name = take prefix_and_block_len name
     then Some (Some i)
     else sdata_block_search reg name prefix_and_block_len sdata i
   }"

definition sdata_alloc :: "msg_content \<Rightarrow> nat" where
  "sdata_alloc self =
     (let num_sdata = length (mc_sdata self) in
      if mc_alloc_sdata self \<le> num_sdata
      then min 255 (max (num_sdata + 1) ((num_sdata + 8) div 8 * 8))
      else mc_alloc_sdata self)"

definition log_msg_update_sdata_slow :: "nv_registry \<Rightarrow> msg_content \<Rightarrow> nvhandle \<Rightarrow> string \<Rightarrow> msg_content option" where
  "log_msg_update_sdata_slow reg self handle name =
     (let num_sdata = length (mc_sdata self) in
      if num_sdata = 255 then Some self
      else do {
        let alloc_sdata = sdata_alloc self;
        let self = (if chk_flag self LF_STATE_OWN_SDATA \<and> mc_sdata self \<noteq> [] then self
                    else set_flag self LF_STATE_OWN_SDATA);
        let self = self\<lparr>mc_alloc_sdata := alloc_sdata\<rparr>;
        found \<leftarrow> (if \<not> mc_initial_parse self then do {
                      dot \<leftarrow> memrchr_dot name;
                      sdata_block_search reg name dot (mc_sdata self) num_sdata
                    }
                  else Some None);
        g_assert (num_sdata < alloc_sdata);
        Some (self\<lparr>mc_sdata :=
          (case found of
             Some i \<Rightarrow> take i (mc_sdata self) @ handle # drop i (mc_sdata self)
           | None \<Rightarrow> mc_sdata self @ [handle])\<rparr>)
      })"

definition log_msg_update_sdata :: "nv_registry \<Rightarrow> msg_content \<Rightarrow> nvhandle \<Rightarrow> string \<Rightarrow> msg_content option" where
  "log_msg_update_sdata reg self handle name = do {
     flags \<leftarrow> nv_registry_get_handle_flags reg handle;
     if flags AND LM_VF_SDATA \<noteq> 0 then log_msg_update_sdata_slow reg self handle name else Some self
   }"

subsection \<open>Setting a value\<close>

text \<open>
  The loop of \<^verbatim>\<open>log_msg_set_value()\<close> and \<^verbatim>\<open>log_msg_set_value_indirect()\<close>: the
  payload is grown until the value fits.  It may run forever as far as its definition goes.
\<close>

partial_function (option) nv_store_loop ::
    "(nv_table \<Rightarrow> (bool \<times> nv_table \<times> bool) option) \<Rightarrow> nv_table \<Rightarrow> (nv_table \<times> bool) option" where
  "nv_store_loop add payload =
     (case add payload of
        None \<Rightarrow> None
      | Some (ok, payload, new_entry) \<Rightarrow>
          if ok then Some (payload, new_entry)
          else (case nv_table_realloc payload of
                  None \<Rightarrow> Some (payload, new_entry)
                | Some (payload, _) \<Rightarrow> nv_store_loop add payload))"

declare nv_store_loop.simps [code]

definition own_payload :: "msg_content \<Rightarrow> nat \<Rightarrow> msg_content" where
  "own_payload self additional_space =
     (if \<not> chk_flag self LF_STATE_OWN_PAYLOAD
      then set_flag (self\<lparr>mc_payload := nv_table_clone (mc_payload self) additional_space\<rparr>) LF_STATE_OWN_PAYLOAD
      else self)"

definition log_msg_set_value :: "nv_registry \<Rightarrow> msg_content \<Rightarrow> nvhandle \<Rightarrow> string \<Rightarrow> msg_content option" where
  "log_msg_set_value reg self handle value =
     (if handle = LM_V_NONE then Some self
      else do {
        name \<leftarrow> log_msg_get_value_name reg handle;
        let self = own_payload self (length name + length value + 2);
        (payload, new_entry) \<leftarrow> nv_store_loop (\<lambda>t. nv_table_add_value True t handle name value) (mc_payload self);
        let self = self\<lparr>mc_payload := payload\<rparr>;
        self \<leftarrow> (if new_entry then log_msg_update_sdata reg self handle name else Some self);
        Some (if handle = LM_V_PROGRAM \<or> handle = LM_V_PID then unset_flag self LF_LEGACY_MSGHDR else self)
      })"

definition log_msg_set_value_by_name ::
    "nv_registry \<Rightarrow> msg_content \<Rightarrow> string \<Rightarrow> string \<Rightarrow> (msg_content \<times> nv_registry) option" where
  "log_msg_set_value_by_name reg self name new_value = do {
     (handle, reg) \<leftarrow> log_msg_get_value_handle reg name;
     self \<leftarrow> log_msg_set_value reg self handle new_value;
     Some (self, reg)
   }"

definition log_msg_set_value_indirect ::
    "nv_registry \<Rightarrow> (nat \<Rightarrow> msg_content \<Rightarrow> string) \<Rightarrow> msg_content \<Rightarrow> nvhandle \<Rightarrow> nvhandle \<Rightarrow> u8 \<Rightarrow> u16 \<Rightarrow> u16 \<Rightarrow>
     msg_content option" where
  "log_msg_set_value_indirect reg macro_value self handle ref_handle type ofs len =
     (if handle = LM_V_NONE then Some self
      else do {
        g_assert (handle \<ge> LM_V_MAX);
        name \<leftarrow> log_msg_get_value_name reg handle;
        ref_value \<leftarrow> log_msg_get_value reg macro_value self ref_handle;
        if ref_value = '''' then Some self
        else do {
          let self = own_payload self (length name + 1);
          let referenced_slice = \<lparr>sl_handle = ref_handle, sl_ofs = ucast ofs, sl_len = ucast len, sl_type = type\<rparr>;
          (payload, new_entry) \<leftarrow>
            nv_store_loop (\<lambda>t. nv_table_add_value_indirect True t handle name referenced_slice) (mc_payload self);
          let self = self\<lparr>mc_payload := payload\<rparr>;
          if new_entry then log_msg_update_sdata reg self handle name else Some self
        }
      })"

subsection \<open>Matches\<close>

definition log_msg_set_match ::
    "nv_registry \<Rightarrow> (nat \<Rightarrow> nvhandle) \<Rightarrow> msg_content \<Rightarrow> nat \<Rightarrow> string \<Rightarrow> msg_content option" where
  "log_msg_set_match reg match_handles self index value = do {
     g_assert (index < 256);
     let self = (if index \<ge> unat (mc_num_matches self) then self\<lparr>mc_num_matches := of_nat (index + 1)\<rparr> else self);
     log_msg_set_value reg self (match_handles index) value
   }"

definition log_msg_set_match_indirect ::
    "nv_registry \<Rightarrow> (nat \<Rightarrow> msg_content \<Rightarrow> string) \<Rightarrow> (nat \<Rightarrow> nvhandle) \<Rightarrow> msg_content \<Rightarrow> nat \<Rightarrow> nvhandle \<Rightarrow> u8 \<Rightarrow> u16 \<Rightarrow> u16 \<Rightarrow>
     msg_content option" where
  "log_msg_set_match_indirect reg macro_value match_handles self index ref_handle type ofs len = do {
     g_assert (index < 256);
     log_msg_set_value_indirect reg macro_value self (match_handles index) ref_handle type ofs len
   }"

fun clear_match_values ::
    "nv_registry \<Rightarrow> (nat \<Rightarrow> nvhandle) \<Rightarrow> nat list \<Rightarrow> msg_content \<Rightarrow> msg_content option" where
  "clear_match_values reg match_handles [] self = Some self"
| "clear_match_values reg match_handles (i # is) self = do {
     self \<leftarrow> log_msg_set_value reg self (match_handles i) '''';
     clear_match_values reg match_handles is self
   }"

definition log_msg_clear_matches :: "nv_registry \<Rightarrow> (nat \<Rightarrow> nvhandle) \<Rightarrow> msg_content \<Rightarrow> msg_content option" where
  "log_msg_clear_matches reg match_handles self = do {
     self \<leftarrow> clear_match_values reg match_handles [0..<unat (mc_num_matches self)] self;
     Some (self\<lparr>mc_num_matches := 0\<rparr>)
   }"

subsection \<open>Merging the values of other messages\<close>

definition merge_value ::
    "nv_registry \<Rightarrow> nvhandle \<Rightarrow> string \<Rightarrow> string \<Rightarrow> msg_content \<Rightarrow> (bool \<times> msg_content) option" where
  "merge_value reg handle name value msg =
     (if \<not> nv_table_is_value_set (mc_payload msg) handle
      then do {
        msg \<leftarrow> log_msg_set_value reg msg handle value;
        Some (False, msg)
      }
      else Some (False, msg))"

definition log_msg_merge_context :: "nv_registry \<Rightarrow> msg_content \<Rightarrow> nv_table list \<Rightarrow> msg_content option" where
  "log_msg_merge_context reg self context =
     foldr (\<lambda>payload self. do {
         self \<leftarrow> self;
         (_, self) \<leftarrow> nv_table_foreach payload (registry_names reg) (merge_value reg) self;
         Some self
       }) context (Some self)"

subsection \<open>Growing the payload until a value fits\<close>

text \<open>
  What the loop relies on: an attempt returns, and either finishes the job or leaves
  the payload ready for another attempt in more space.
\<close>

locale growing_store =
  fixes add :: "nv_table \<Rightarrow> (bool \<times> nv_table \<times> bool) option"
    and ready :: "nv_table \<Rightarrow> bool"
    and finished :: "nv_table \<Rightarrow> bool \<Rightarrow> bool"
  assumes attempt: "ready t \<Longrightarrow> \<exists>ok t1 new. add t = Some (ok, t1, new) \<and> (if ok then finished t1 new else ready t1)"
    and grown: "ready t \<Longrightarrow> nv_table_realloc t = Some (t1, old) \<Longrightarrow> ready t1"
    and wf: "ready t \<Longrightarrow> \<exists>names. nv_wf names t"
    and same_size: "ready t \<Longrightarrow> add t = Some (False, t1, new) \<Longrightarrow> nt_size t1 = nt_size t"
begin

lemma loop_returns:
  assumes "ready t"
  shows "\<exists>t1 new. nv_store_loop add t = Some (t1, new) \<and> (finished t1 new \<or> ready t1 \<and> nt_size t1 = NV_TABLE_MAX_BYTES)"
  using assms
proof (induction "NV_TABLE_MAX_BYTES - nt_size t" arbitrary: t rule: less_induct)
  case less
  obtain ok t1 new where a: "add t = Some (ok, t1, new)" "if ok then finished t1 new else ready t1"
    using attempt [OF less.prems] by blast
  show ?case
  proof (cases ok)
    case True
    then show ?thesis using a by (simp add: nv_store_loop.simps [of add t])
  next
    case False
    then have r: "ready t1" and size: "nt_size t1 = nt_size t" using a same_size [OF less.prems, of t1 new] by simp_all
    obtain names where w: "nv_wf names t1" using wf [OF r] by blast
    show ?thesis
    proof (cases "nv_table_realloc t1")
      case None
      then show ?thesis using a False r realloc_None [OF w None] by (simp add: nv_store_loop.simps [of add t])
    next
      case (Some res)
      then obtain t2 old where s: "nv_table_realloc t1 = Some (t2, old)" by (cases res) simp
      have r2: "ready t2" by (rule grown [OF r s])
      have "nt_size t2 \<le> NV_TABLE_MAX_BYTES" using realloc_spec(6) [OF w s] by (simp add: nv_table_get_size_def)
      then have "NV_TABLE_MAX_BYTES - nt_size t2 < NV_TABLE_MAX_BYTES - nt_size t"
        using realloc_spec(5) [OF w s] size by linarith
      from less.hyps [OF this r2] show ?thesis using a False s by (simp add: nv_store_loop.simps [of add t])
    qed
  qed
qed

end

definition set_ready ::
    "(nvhandle \<Rightarrow> string) \<Rightarrow> nvhandle \<Rightarrow> (nvhandle \<Rightarrow> string option) \<Rightarrow> nv_table \<Rightarrow> bool" where
  "set_ready names h vs t \<longleftrightarrow> names_ok names \<and> h \<noteq> 0 \<and> unat h < 65536 \<and> nv_wf names t \<and> nv_view t = vs"

definition set_finished ::
    "(nvhandle \<Rightarrow> string) \<Rightarrow> nvhandle \<Rightarrow> string \<Rightarrow> (nvhandle \<Rightarrow> string option) \<Rightarrow> nv_table \<Rightarrow> bool \<Rightarrow> bool" where
  "set_finished names h v vs t new \<longleftrightarrow> nv_wf names t \<and> nv_view t = vs(h \<mapsto> take NV_TABLE_MAX_BYTES v) \<and> new = (vs h = None)"

interpretation set_loop: growing_store "\<lambda>t. nv_table_add_value True t h (names h) v" "set_ready names h vs"
  "set_finished names h v vs" for names h v vs
proof
  fix t assume r: "set_ready names h vs t"
  then have c: "names_ok names" "nv_wf names t" "h \<noteq> 0" "unat h < 65536" by (simp_all add: set_ready_def)
  obtain ok t1 new where a: "nv_table_add_value True t h (names h) v = Some (ok, t1, new)" "nv_wf names t1"
      "nt_size t1 = nt_size t" "nv_view t1 = (if ok \<and> (True \<or> v \<noteq> '''' \<or> nv_view t h \<noteq> None)
        then (nv_view t)(h \<mapsto> take NV_TABLE_MAX_BYTES v) else nv_view t)"
      "ok \<longrightarrow> new \<longleftrightarrow> True \<and> nv_view t h = None"
    by (rule add_value_spec [OF c])
  then show "\<exists>ok t1 new. nv_table_add_value True t h (names h) v = Some (ok, t1, new) \<and>
      (if ok then set_finished names h v vs t1 new else set_ready names h vs t1)"
    using r by (intro exI [of _ ok] exI [of _ t1] exI [of _ new]) (auto simp: set_ready_def set_finished_def)
  show "\<exists>names. nv_wf names t" using c by blast
  show "nt_size t2 = nt_size t" if "nv_table_add_value True t h (names h) v = Some (False, t2, new2)" for t2 new2
    using that a by simp
  show "set_ready names h vs t2" if "nv_table_realloc t = Some (t2, old)" for t2 old
    using r realloc_spec [OF c(2) that] by (simp add: set_ready_def)
qed

subsection \<open>Well-formed messages\<close>

text \<open>
  Handles marked as structured data have a dot in their name, and names of structured data lead to
  such handles.
\<close>

definition reg_ok :: "nv_registry \<Rightarrow> bool" where
  "reg_ok reg \<longleftrightarrow> nr_wf reg \<and>
     (\<forall>d \<in> set (nr_names reg). nd_flags d AND LM_VF_SDATA \<noteq> 0 \<longrightarrow> CHR ''.'' \<in> set (nd_name d)) \<and>
     (\<forall>name p d. nr_name_map reg name = Some p \<longrightarrow> take (length logmsg_sd_prefix) name = logmsg_sd_prefix \<longrightarrow>
        nv_handle_stored reg p = Some d \<longrightarrow> CHR ''.'' \<in> set (nd_name d))"
definition sdata_ok :: "nv_registry \<Rightarrow> msg_content \<Rightarrow> bool" where
  "sdata_ok reg m \<longleftrightarrow> length (mc_sdata m) \<le> mc_alloc_sdata m \<and> mc_alloc_sdata m \<le> 255 \<and>
     (\<forall>h \<in> set (mc_sdata m). log_msg_get_value_name reg h \<noteq> None)"

definition msg_ok :: "nv_registry \<Rightarrow> msg_content \<Rightarrow> bool" where
  "msg_ok reg m \<longleftrightarrow> nv_wf (registry_names reg) (mc_payload m) \<and> sdata_ok reg m"

definition known_handle :: "nv_registry \<Rightarrow> nvhandle \<Rightarrow> bool" where
  "known_handle reg h \<longleftrightarrow> h \<noteq> 0 \<and> unat h < 65536 \<and> nv_handle_stored reg h \<noteq> None"

lemma known_handle_name:
  assumes "reg_ok reg" and "known_handle reg h"
  obtains d where "nv_handle_stored reg h = Some d" and "log_msg_get_value_name reg h = Some (nd_name d)"
    and "registry_names reg h = nd_name d" and "nv_registry_get_handle_flags reg h = Some (nd_flags d)"
    and "d \<in> set (nr_names reg)"
proof -
  obtain d where d: "nv_handle_stored reg h = Some d" using assms(2) by (auto simp: known_handle_def)
  have w: "nr_wf reg" using assms(1) by (simp add: reg_ok_def)
  have n: "nv_registry_get_handle_name reg h = Some (nd_name d)"
    using d stored_name_len(1) [OF w d] assms(2) by (simp add: nv_registry_get_handle_name_def known_handle_def)
  have "d \<in> set (nr_names reg)" using d by (auto simp: nv_handle_stored_def split: if_splits)
  then show thesis
    using that d n assms(2)
    by (simp add: log_msg_get_value_name_def registry_names_def nv_registry_get_handle_flags_def known_handle_def)
qed

lemma reg_ok_names: "reg_ok reg \<Longrightarrow> names_ok (registry_names reg)"
  using registry_names_length by (simp add: names_ok_def reg_ok_def)

lemma set_flags_names:
  assumes "nv_registry_set_handle_flags reg h flags = Some reg1" and "h \<noteq> 0" and "d1 \<in> set (nr_names reg1)"
  obtains d where "nv_handle_stored reg h = Some d" "d1 = d\<lparr>nd_flags := flags\<rparr>" | "d1 \<in> set (nr_names reg)"
proof -
  obtain d where d: "nv_handle_stored reg h = Some d"
      "reg1 = reg\<lparr>nr_names := (nr_names reg)[unat (h - 1) := d\<lparr>nd_flags := flags\<rparr>]\<rparr>"
    using assms(1,2) by (auto simp: nv_registry_set_handle_flags_def split: bind_splits)
  then have "d1 \<in> insert (d\<lparr>nd_flags := flags\<rparr>) (set (nr_names reg))"
    using assms(3) set_update_subset_insert [of "nr_names reg" "unat (h - 1)" "d\<lparr>nd_flags := flags\<rparr>"] by auto
  then show thesis using that d(1) by blast
qed

lemma sd_prefix_dot:
  assumes "take (length logmsg_sd_prefix) name = logmsg_sd_prefix"
  shows "CHR ''.'' \<in> set name"
proof -
  have "CHR ''.'' \<in> set (take (length logmsg_sd_prefix) name)" by (simp only: assms) (simp add: logmsg_sd_prefix_def)
  then show ?thesis by (rule in_set_takeD)
qed

text \<open>Handles made for messages keep the registry well-formed.\<close>

lemma alloc_handle_reg_ok:
  assumes "reg_ok reg" and "nv_registry_alloc_handle reg name = (h, reg1)"
  shows "reg_ok reg1"
proof -
  have w: "nr_wf reg" "nr_wf reg1" using assms alloc_handle_wf [of reg name] by (simp_all add: reg_ok_def)
  show ?thesis
  proof (rule alloc_handle_cases [OF w(1), of name])
    fix r1 assume new: "nv_registry_alloc_handle reg name = (of_nat (Suc (length (nr_names reg))), r1)"
      "nr_names r1 = nr_names reg @ [\<lparr>nd_name = name, nd_flags = 0, nd_name_len = of_nat (length name)\<rparr>]"
      "nr_name_map r1 = (nr_name_map reg)(name \<mapsto> of_nat (Suc (length (nr_names reg))))"
    have e: "reg1 = r1" using assms(2) new(1) by simp
    have "CHR ''.'' \<in> set (nd_name d)" if m: "nr_name_map r1 nm = Some p" "take (length logmsg_sd_prefix) nm = logmsg_sd_prefix"
        "nv_handle_stored r1 p = Some d" for nm p d
    proof (cases "nv_handle_stored reg p")
      case None
      then have "d = \<lparr>nd_name = name, nd_flags = 0, nd_name_len = of_nat (length name)\<rparr>"
        using m(3) by (auto simp: nv_handle_stored_def new(2) nth_append split: if_splits)
      moreover have "nm = name"
      proof (rule ccontr)
        assume "nm \<noteq> name"
        then have "unat p \<le> length (nr_names reg)" using m(1) w(1) by (simp add: new(3) nr_wf_def)
        moreover have "unat (p - 1) = length (nr_names reg)"
          using None m(3) by (auto simp: nv_handle_stored_def new(2) split: if_splits)
        moreover have "length (nr_names reg) + 1 < 4294967296" using nr_wf_length [OF w(2)] new(2) by (simp add: e)
        moreover have "unat (- 1 :: u32) = 4294967295" by (simp add: unsigned_minus_1_eq_mask mask_eq_exp_minus_1)
        moreover have "p \<noteq> 0 \<Longrightarrow> 0 < unat p" by (simp add: unat_gt_0)
        ultimately show False by (cases "p = 0") (auto simp: unat_minus_one)
      qed
      ultimately show ?thesis using sd_prefix_dot [OF m(2)] by simp
    next
      case (Some d')
      then have d: "d' = d" using m(3) by (auto simp: nv_handle_stored_def new(2) nth_append split: if_splits)
      show ?thesis
      proof (cases "nm = name")
        case True
        then have "p = of_nat (Suc (length (nr_names reg)))" using m(1) by (simp add: new(3))
        then show ?thesis using Some nr_wf_length [OF w(1)]
          by (simp add: nv_handle_stored_def unsigned_of_nat take_bit_nat_eq_self split: if_splits)
      next
        case False
        then show ?thesis using assms(1) m(1,2) Some d by (auto simp: reg_ok_def new(3))
      qed
    qed
    then show ?thesis using assms(1) w(2) by (auto simp: reg_ok_def LM_VF_SDATA_def e new(2))
  qed (use assms in simp_all)
qed

lemma get_value_handle_reg_ok:
  assumes "reg_ok reg" and "log_msg_get_value_handle reg name = Some (h, reg1)"
  shows "reg_ok reg1"
proof -
  obtain h0 reg0 where a: "nv_registry_alloc_handle reg name = (h0, reg0)" by fastforce
  have ok0: "reg_ok reg0" by (rule alloc_handle_reg_ok [OF assms(1) a])
  have w: "nr_wf reg" "nr_wf reg0" using assms(1) ok0 by (simp_all add: reg_ok_def)
  show ?thesis
  proof (cases "take (length logmsg_sd_prefix) name = logmsg_sd_prefix \<and> char_at name 6 \<noteq> NUL \<and> h0 \<noteq> 0")
    case False
    then have "reg1 = reg0"
      using assms(2) a by (auto simp: log_msg_get_value_handle_def nv_registry_set_handle_flags_def split: if_splits)
    then show ?thesis using ok0 by simp
  next
    case True
    then have s: "nv_registry_set_handle_flags reg0 h0 LM_VF_SDATA = Some reg1"
      using assms(2) a by (auto simp: log_msg_get_value_handle_def split: bind_splits)
    have map: "nr_name_map reg0 name = Some h0"
      by (rule alloc_handle_cases [OF w(1), of name]) (use a True in auto)
    have ext: "nd_name d1 = nd_name d0 \<and> d0 \<in> set (nr_names reg0)"
      if "nv_handle_stored reg1 p = Some d1" "nv_handle_stored reg0 p = Some d0" for p d0 d1
      using that s True by (auto simp: nv_registry_set_handle_flags_def nv_handle_stored_def nth_list_update split: if_splits bind_splits)
    have st: "nv_handle_stored reg1 p = None \<longleftrightarrow> nv_handle_stored reg0 p = None" "nr_name_map reg1 = nr_name_map reg0" for p
      using s True by (auto simp: nv_registry_set_handle_flags_def nv_handle_stored_def split: if_splits bind_splits)
    have "CHR ''.'' \<in> set (nd_name d1)" if d1: "d1 \<in> set (nr_names reg1)" "nd_flags d1 AND LM_VF_SDATA \<noteq> 0" for d1
      by (rule set_flags_names [OF s _ d1(1)]) (use True map d1(2) ok0 in \<open>auto simp: reg_ok_def\<close>)
    moreover have "CHR ''.'' \<in> set (nd_name d)" if m: "nr_name_map reg1 nm = Some p"
        "take (length logmsg_sd_prefix) nm = logmsg_sd_prefix" "nv_handle_stored reg1 p = Some d" for nm p d
    proof -
      obtain d0 where d0: "nv_handle_stored reg0 p = Some d0" using st(1) [of p] m(3) by fastforce
      then have "CHR ''.'' \<in> set (nd_name d0)" using ok0 m(1,2) st(2) by (auto simp: reg_ok_def)
      then show ?thesis using ext [OF m(3) d0] by simp
    qed
    ultimately show ?thesis using set_flags_effect(1) [OF w(2) s] by (auto simp: reg_ok_def)
  qed
qed
lemma block_search_result:
  assumes "\<And>i. i < n \<Longrightarrow> log_msg_get_value_name reg (sdata ! i) \<noteq> None"
  shows "\<exists>r. sdata_block_search reg name k sdata n = Some r \<and> (\<forall>i. r = Some i \<longrightarrow> i < n)"
  using assms
proof (induction n)
  case (Suc n)
  obtain nm where "log_msg_get_value_name reg (sdata ! n) = Some nm" using Suc.prems [of n] by auto
  moreover obtain r where "sdata_block_search reg name k sdata n = Some r" "\<forall>i. r = Some i \<longrightarrow> i < n"
    using Suc by (metis less_SucI)
  ultimately show ?case by auto
qed simp

lemma memrchr_dot_Some: "CHR ''.'' \<in> set name \<Longrightarrow> \<exists>i. memrchr_dot name = Some i"
  by (simp add: memrchr_dot_def)

lemma sdata_alloc_bounds:
  assumes "sdata_ok reg m" and "length (mc_sdata m) \<noteq> 255"
  shows "length (mc_sdata m) < sdata_alloc m" "sdata_alloc m \<le> 255"
  using assms by (auto simp: sdata_alloc_def sdata_ok_def Let_def)

lemma update_sdata_slow_spec:
  assumes "sdata_ok reg m" and "CHR ''.'' \<in> set name" and "log_msg_get_value_name reg h \<noteq> None"
  obtains m1 where "log_msg_update_sdata_slow reg m h name = Some m1" and "sdata_ok reg m1"
    and "mc_payload m1 = mc_payload m"
    and "if length (mc_sdata m) = 255 then mc_sdata m1 = mc_sdata m
      else set (mc_sdata m1) = insert h (set (mc_sdata m)) \<and> length (mc_sdata m1) = length (mc_sdata m) + 1"
proof (cases "length (mc_sdata m) = 255")
  case True
  then show ?thesis using assms(1) by (intro that [of m]) (simp_all add: log_msg_update_sdata_slow_def)
next
  case False
  note b = sdata_alloc_bounds [OF assms(1) False]
  obtain k where k: "memrchr_dot name = Some k" using memrchr_dot_Some [OF assms(2)] by blast
  obtain r where r: "sdata_block_search reg name k (mc_sdata m) (length (mc_sdata m)) = Some r"
      "\<forall>i. r = Some i \<longrightarrow> i < length (mc_sdata m)"
    using block_search_result [of "length (mc_sdata m)" reg "mc_sdata m" name k] assms(1) by (auto simp: sdata_ok_def)
  define found where "found = (if mc_initial_parse m then None else r)"
  define m0 where "m0 = (if chk_flag m LF_STATE_OWN_SDATA \<and> mc_sdata m \<noteq> [] then m else set_flag m LF_STATE_OWN_SDATA)"
  have m0: "mc_sdata m0 = mc_sdata m" "mc_payload m0 = mc_payload m" "mc_initial_parse m0 = mc_initial_parse m"
    by (simp_all add: m0_def set_flag_def)
  define xs where "xs = (case found of Some i \<Rightarrow> take i (mc_sdata m) @ h # drop i (mc_sdata m) | None \<Rightarrow> mc_sdata m @ [h])"
  define m1 where "m1 = m0\<lparr>mc_alloc_sdata := sdata_alloc m, mc_sdata := xs\<rparr>"
  have run: "log_msg_update_sdata_slow reg m h name = Some m1"
    using False k r(1) b m0
    by (cases r) (simp_all add: log_msg_update_sdata_slow_def Let_def m0_def [symmetric] m1_def xs_def found_def)
  have xs: "set xs = insert h (set (mc_sdata m))" "length xs = length (mc_sdata m) + 1"
    using r(2) set_insert_at [of _ "mc_sdata m" h] by (auto simp: xs_def found_def split: option.split)
  then show ?thesis using b False assms(1,3) m0 run by (intro that [of m1]) (auto simp: m1_def sdata_ok_def)
qed

lemma own_payload_ok:
  assumes "msg_ok reg m"
  shows "msg_ok reg (own_payload m n)" "nv_view (mc_payload (own_payload m n)) = nv_view (mc_payload m)"
    "nv_at (mc_payload (own_payload m n)) = nv_at (mc_payload m)" "mc_sdata (own_payload m n) = mc_sdata m"
  using assms clone_spec [of "registry_names reg" "mc_payload m" n]
  by (auto simp: own_payload_def msg_ok_def sdata_ok_def set_flag_def)

lemma msg_ok_payload:
  assumes "msg_ok reg m" and "nv_wf (registry_names reg) t"
  shows "msg_ok reg (m\<lparr>mc_payload := t\<rparr>)"
  using assms by (simp add: msg_ok_def sdata_ok_def)

lemma update_sdata_ok:
  assumes "reg_ok reg" and "msg_ok reg m" and "known_handle reg h" and "log_msg_get_value_name reg h = Some name"
  obtains m1 where "log_msg_update_sdata reg m h name = Some m1" and "msg_ok reg m1" and "mc_payload m1 = mc_payload m"
proof -
  obtain d where d: "log_msg_get_value_name reg h = Some (nd_name d)"
      "nv_registry_get_handle_flags reg h = Some (nd_flags d)" "d \<in> set (nr_names reg)"
    by (rule known_handle_name [OF assms(1,3)])
  have name: "name = nd_name d" using d(1) assms(4) by simp
  show thesis
  proof (cases "nd_flags d AND LM_VF_SDATA = 0")
    case True
    then show ?thesis using d assms(2) by (intro that [of m]) (simp_all add: log_msg_update_sdata_def)
  next
    case False
    then have dot: "CHR ''.'' \<in> set name" using assms(1) d(3) name by (auto simp: reg_ok_def)
    obtain m1 where m1: "log_msg_update_sdata_slow reg m h name = Some m1" "sdata_ok reg m1" "mc_payload m1 = mc_payload m"
      by (rule update_sdata_slow_spec [of reg m name h]) (use assms dot in \<open>auto simp: msg_ok_def\<close>)
    then show ?thesis using d False assms(2) by (intro that [of m1]) (simp_all add: log_msg_update_sdata_def msg_ok_def)
  qed
qed

lemma set_value_spec:
  assumes "reg_ok reg" and "msg_ok reg m" and "known_handle reg h"
  shows "\<exists>m1. log_msg_set_value reg m h v = Some m1 \<and> msg_ok reg m1 \<and>
    (nv_view (mc_payload m1) = (nv_view (mc_payload m))(h \<mapsto> take NV_TABLE_MAX_BYTES v) \<or>
     nv_view (mc_payload m1) = nv_view (mc_payload m) \<and> nt_size (mc_payload m1) = NV_TABLE_MAX_BYTES)"
proof -
  obtain d :: nv_handle_desc where d: "log_msg_get_value_name reg h = Some (nd_name d)" "registry_names reg h = nd_name d"
    by (rule known_handle_name [OF assms(1,3)])
  define name where "name = nd_name d"
  define m0 where "m0 = own_payload m (length name + length v + 2)"
  note own = own_payload_ok [OF assms(2), of "length name + length v + 2", folded m0_def]
  have h: "h \<noteq> 0" "unat h < 65536" using assms(3) by (simp_all add: known_handle_def)
  define vs where "vs = nv_view (mc_payload m)"
  have "set_ready (registry_names reg) h vs (mc_payload m0)"
    using own h reg_ok_names [OF assms(1)] by (simp add: set_ready_def msg_ok_def vs_def)
  from set_loop.loop_returns [OF this, of v] obtain t1 new where
      l: "nv_store_loop (\<lambda>t. nv_table_add_value True t h name v) (mc_payload m0) = Some (t1, new)"
      and r: "set_finished (registry_names reg) h v vs t1 new \<or>
        set_ready (registry_names reg) h vs t1 \<and> nt_size t1 = NV_TABLE_MAX_BYTES"
    using d(2) by (auto simp: name_def)
  define m2 where "m2 = m0\<lparr>mc_payload := t1\<rparr>"
  have ok2: "msg_ok reg m2"
    unfolding m2_def by (rule msg_ok_payload [OF own(1)]) (use r in \<open>auto simp: set_finished_def set_ready_def\<close>)
  obtain m3 where m3: "(if new then log_msg_update_sdata reg m2 h name else Some m2) = Some m3" "msg_ok reg m3"
      "mc_payload m3 = t1"
  proof (cases new)
    case True
    obtain m3 where "log_msg_update_sdata reg m2 h name = Some m3" "msg_ok reg m3" "mc_payload m3 = mc_payload m2"
      unfolding name_def by (rule update_sdata_ok [OF assms(1) ok2 assms(3) d(1)])
    then show ?thesis using that True by (simp add: m2_def)
  next
    case False
    then show ?thesis using that [of m2] ok2 by (simp add: m2_def)
  qed
  define m4 where "m4 = (if h = LM_V_PROGRAM \<or> h = LM_V_PID then unset_flag m3 LF_LEGACY_MSGHDR else m3)"
  have "msg_ok reg m4" "mc_payload m4 = t1" using m3 by (auto simp: m4_def unset_flag_def msg_ok_def sdata_ok_def)
  moreover have "log_msg_set_value reg m h v = Some m4"
    unfolding m4_def using h(1) d(1) l m3(1)
    by (simp only: log_msg_set_value_def LM_V_NONE_def name_def [symmetric] m0_def [symmetric] m2_def [symmetric] Let_def
        if_False bind.bind_lunit prod.case)
  ultimately show ?thesis using r by (auto simp: set_finished_def set_ready_def vs_def)
qed

text \<open>
  C7: Setting a value of a message returns.  The loop that grows the payload ends for every
  value; afterwards the handle has the value and no other value changed, unless the payload
  has reached the limit of 256 MB, in which case no value changed.
\<close>
theorem set_value_returns:
  assumes "reg_ok reg" and "msg_ok reg m" and "known_handle reg h"
  shows "\<exists>m1. log_msg_set_value reg m h v = Some m1 \<and> msg_ok reg m1 \<and>
    (nv_view (mc_payload m1) = (nv_view (mc_payload m))(h \<mapsto> take NV_TABLE_MAX_BYTES v) \<or>
     nv_view (mc_payload m1) = nv_view (mc_payload m) \<and> nt_size (mc_payload m1) = NV_TABLE_MAX_BYTES)"
  by (rule set_value_spec [OF assms])

text \<open>A registry with a few names and a message with an empty payload.\<close>

definition demo_registry :: nv_registry where
  "demo_registry = fold (\<lambda>name reg. case log_msg_get_value_handle reg name of Some (_, reg) \<Rightarrow> reg | None \<Rightarrow> reg)
     [''HOST'', ''HOST_FROM'', ''MESSAGE'', ''PROGRAM'', ''PID'', ''MSGID'', ''SOURCE'', ''LEGACY_MSGHDR'', ''none'',
      ''key'', ''host'', ''.SDATA.foobar.b'', ''.SDATA.foobar.d'', ''.SDATA.foo.c'']
     (nv_registry_new [] 1000)"

definition demo_message :: msg_content where
  "demo_message = \<lparr>mc_payload = nv_table_new 9 4 256, mc_flags = 0, mc_sdata = [], mc_alloc_sdata = 0,
     mc_num_matches = 0, mc_initial_parse = False\<rparr>"

lemma demo_registry_ok: "reg_ok demo_registry"
proof -
  have step: "reg_ok (case log_msg_get_value_handle reg name of Some (_, reg) \<Rightarrow> reg | None \<Rightarrow> reg)" if "reg_ok reg" for reg name
    using that get_value_handle_reg_ok [OF that] by (auto split: option.split)
  have run: "reg_ok (fold (\<lambda>name reg. case log_msg_get_value_handle reg name of Some (_, reg) \<Rightarrow> reg | None \<Rightarrow> reg) names reg)"
    if "reg_ok reg" for names reg
    using that by (induction names arbitrary: reg) (simp_all add: step)
  have "reg_ok (nv_registry_new [] 1000)" by (simp add: reg_ok_def new_registry_wf) (simp add: nv_registry_new_def)
  then show ?thesis unfolding demo_registry_def by (rule run)
qed

lemma demo_message_ok: "msg_ok demo_registry demo_message"
  by (simp add: msg_ok_def sdata_ok_def demo_message_def nv_table_new_wf)

lemma demo_handles: "nv_handle_stored demo_registry h \<noteq> None" if "h \<in> {10, 11, 12, 13, 14}"
proof -
  have "length (nr_names demo_registry) = 14" by code_simp
  then show ?thesis using that by (auto simp: nv_handle_stored_def)
qed

theorem set_value_returns_witness:
  "\<exists>m1. log_msg_set_value demo_registry demo_message 12 ''x'' = Some m1 \<and> msg_ok demo_registry m1 \<and>
    (nv_view (mc_payload m1) = (nv_view (mc_payload demo_message))(12 \<mapsto> take NV_TABLE_MAX_BYTES ''x'') \<or>
     nv_view (mc_payload m1) = nv_view (mc_payload demo_message) \<and> nt_size (mc_payload m1) = NV_TABLE_MAX_BYTES)"
  by (rule set_value_returns [OF demo_registry_ok demo_message_ok])
    (use demo_handles [of 12] in \<open>simp add: known_handle_def\<close>)
subsection \<open>References over referenced values\<close>

text \<open>A value that is marked as referenced, although nothing refers to it any more.\<close>

definition marked :: "(nvhandle \<Rightarrow> nv_entry option) \<Rightarrow> nvhandle \<Rightarrow> nvhandle \<Rightarrow> bool" where
  "marked at h r \<longleftrightarrow> no_refs at h \<and> h \<noteq> r \<and>
     (\<exists>e. at h = Some e \<and> \<not> indirect e \<and> ne_referenced e) \<and> (\<exists>er. at r = Some er \<and> \<not> indirect er)"

definition marked_ready ::
    "(nvhandle \<Rightarrow> string) \<Rightarrow> nvhandle \<Rightarrow> nv_referenced_slice \<Rightarrow> (nvhandle \<Rightarrow> nv_entry option) \<Rightarrow> nv_table \<Rightarrow> bool" where
  "marked_ready names h sl at t \<longleftrightarrow> nv_wf names t \<and> nv_at t = at \<and> marked at h (sl_handle sl)"

interpretation marked_loop: growing_store "\<lambda>t. nv_table_add_value_indirect True t h name sl" "marked_ready names h sl at"
  "\<lambda>t new. False" for names h sl at name
proof
  fix t assume r: "marked_ready names h sl at t"
  then obtain e er where c: "nv_wf names t" "nv_at t = at" "at h = Some e" "\<not> indirect e" "ne_referenced e" "no_refs at h"
      "at (sl_handle sl) = Some er" "\<not> indirect er" "h \<noteq> sl_handle sl"
    by (auto simp: marked_ready_def marked_def)
  have a: "nv_table_add_value_indirect True t h name sl = Some (False, t, False)"
    by (rule reference_over_marked_value [OF c(1), where e = e and er = er]) (use c in simp_all)
  then show "\<exists>ok t1 new. nv_table_add_value_indirect True t h name sl = Some (ok, t1, new) \<and>
      (if ok then False else marked_ready names h sl at t1)"
    using r by - (rule exI [of _ False], rule exI [of _ t], rule exI [of _ False], simp)
  show "\<exists>names. nv_wf names t" using c(1) by blast
  show "nt_size t2 = nt_size t" if "nv_table_add_value_indirect True t h name sl = Some (False, t2, new2)" for t2 new2
    using that a by simp
  show "marked_ready names h sl at t2" if "nv_table_realloc t = Some (t2, old)" for t2 old
    using r realloc_spec(1,3) [OF c(1) that] by (simp add: marked_ready_def)
qed


text \<open>
  A message in which a value was copied from another one by reference, and the reference then
  overwritten.
\<close>

definition put_value :: "nvhandle \<Rightarrow> string \<Rightarrow> nv_table \<Rightarrow> nv_table" where
  "put_value h v t = fst (snd (the (nv_table_add_value True t h (registry_names demo_registry h) v)))"

definition put_link :: "nvhandle \<Rightarrow> nv_referenced_slice \<Rightarrow> nv_table \<Rightarrow> nv_table" where
  "put_link h sl t = fst (snd (the (nv_table_add_value_indirect True t h (registry_names demo_registry h) sl)))"

lemma put_value_wf:
  assumes "nv_wf (registry_names demo_registry) t" and "h \<noteq> 0" and "unat h < 65536"
  shows "nv_wf (registry_names demo_registry) (put_value h v t)"
  unfolding put_value_def
  by (rule add_value_spec [OF reg_ok_names [OF demo_registry_ok] assms, of True v]) simp

lemma put_link_wf:
  assumes "nv_wf (registry_names demo_registry) t" and "h \<noteq> 0" and "unat h < 65536" and "nv_ofs t h = 0"
    and "unat (sl_ofs sl) + unat (sl_len sl) < 2 ^ 32" and "nv_table_is_value_set t (sl_handle sl)"
  shows "nv_wf (registry_names demo_registry) (put_link h sl t)"
proof -
  have "nv_view t (sl_handle sl) \<noteq> None" using assms(6) is_value_set_view [OF assms(1)] by simp
  then show ?thesis
    unfolding put_link_def
    by (rule add_value_indirect_spec [OF reg_ok_names [OF demo_registry_ok] assms(1-3,5)])
      (use assms(4) in \<open>simp_all add: nv_at_def reference_stored_def\<close>)
qed

definition linked_payload :: nv_table where
  "linked_payload =
     put_link 11 \<lparr>sl_handle = 10, sl_ofs = 6, sl_len = 5, sl_type = 0\<rparr>
       (put_value 10 ''hello world'' (put_value 3 ''text'' (nv_table_new 9 4 256)))"

definition marked_message :: msg_content where
  "marked_message = demo_message\<lparr>mc_payload := put_value 11 ''x'' linked_payload\<rparr>"

lemma linked_payload_wf: "nv_wf (registry_names demo_registry) linked_payload"
proof -
  have "nv_wf (registry_names demo_registry) (put_value 10 ''hello world'' (put_value 3 ''text'' (nv_table_new 9 4 256)))"
    by (intro put_value_wf nv_table_new_wf) simp_all
  then show ?thesis
    unfolding linked_payload_def by (rule put_link_wf) (simp, simp, code_simp, simp, code_simp)
qed

lemma no_refs_slots:
  assumes "nv_layout t"
    and "list_all (\<lambda>x. case nt_mem t (snd (nv_slot_entry t x)) of
      Some e \<Rightarrow> (case ne_value e of Vindirect sl \<Rightarrow> sl_handle sl \<noteq> h | Vdirect _ \<Rightarrow> True) | None \<Rightarrow> True) (nv_slots t)"
  shows "no_refs (nv_at t) h"
  unfolding no_refs_def
proof (intro allI impI)
  fix h' e sl assume e: "nv_at t h' = Some e" "ne_value e = Vindirect sl"
  obtain x where x: "x \<in> set (nv_slots t)" "slot_handle (nv_keys t) x = h'"
    by (rule handle_has_slot [OF assms(1) nv_at_SomeD(1) [OF e(1)]])
  then have "snd (nv_slot_entry t x) = nv_ofs t h'" using slot_entry_ofs [OF assms(1) x(1)] by simp
  then show "sl_handle sl \<noteq> h" using assms(2) x(1) nv_at_SomeD(2) [OF e(1)] e(2) by (auto simp: list_all_iff)
qed

lemma marked_message_ok: "msg_ok demo_registry marked_message"
  unfolding marked_message_def
  by (rule msg_ok_payload [OF demo_message_ok put_value_wf [OF linked_payload_wf]]) simp_all

lemma marked_message_marked: "marked (nv_at (mc_payload marked_message)) 10 3"
proof -
  have l: "nv_layout (mc_payload marked_message)" using marked_message_ok by (simp add: msg_ok_def nv_wf_def)
  have "no_refs (nv_at (mc_payload marked_message)) 10" by (rule no_refs_slots [OF l]) code_simp
  moreover have "(case nv_at (mc_payload marked_message) 10 of Some e \<Rightarrow> \<not> indirect e \<and> ne_referenced e | None \<Rightarrow> False)"
    by code_simp
  moreover have "(case nv_at (mc_payload marked_message) 3 of Some e \<Rightarrow> \<not> indirect e | None \<Rightarrow> False)" by code_simp
  ultimately show ?thesis by (auto simp: marked_def split: option.splits)
qed


subsection \<open>Structured data and matches\<close>

text \<open>
  The search for the block of a new element compares the names only up to the last dot of the new
  name, without the dot.  An element of the block \<open>foo\<close> is therefore put in front of the last
  element of a block \<open>foobar\<close>, and splits that block in two.
\<close>

theorem sdata_block_split:
  assumes "mc_sdata m = xs @ [h2]" and "length xs < 254" and "length (mc_sdata m) \<le> mc_alloc_sdata m"
    and "mc_alloc_sdata m \<le> 255" and "\<not> mc_initial_parse m"
    and "memrchr_dot name = Some k" and "log_msg_get_value_name reg h2 = Some name2"
    and "length name2 > k" and "take k name2 = take k name"
  shows "\<exists>m1. log_msg_update_sdata_slow reg m h name = Some m1 \<and> mc_sdata m1 = xs @ [h, h2]"
proof -
  have n: "length (mc_sdata m) = Suc (length xs)" using assms(1) by simp
  have s: "sdata_block_search reg name k (mc_sdata m) (Suc (length xs)) = Some (Some (length xs))"
    using assms(1,7-9) by simp
  have a: "Suc (length xs) < sdata_alloc m" using n assms(2-4) by (auto simp: sdata_alloc_def Let_def)
  show ?thesis
    using n s a assms(1,2,5,6)
    by (simp add: log_msg_update_sdata_slow_def Let_def set_flag_def del: sdata_block_search.simps)
qed

theorem sdata_block_split_witness:
  "\<exists>m1. log_msg_update_sdata_slow demo_registry
      (demo_message\<lparr>mc_sdata := [12, 13], mc_alloc_sdata := 8\<rparr>) 14 ''.SDATA.foo.c'' = Some m1 \<and>
    mc_sdata m1 = [12] @ [14, 13] \<and>
    map (log_msg_get_value_name demo_registry) (mc_sdata m1) =
      [Some ''.SDATA.foobar.b'', Some ''.SDATA.foo.c'', Some ''.SDATA.foobar.d'']"
proof -
  have names: "log_msg_get_value_name demo_registry 12 = Some ''.SDATA.foobar.b''"
    "log_msg_get_value_name demo_registry 13 = Some ''.SDATA.foobar.d''"
    "log_msg_get_value_name demo_registry 14 = Some ''.SDATA.foo.c''"
    by (code_simp, code_simp, code_simp)
  have dot: "memrchr_dot ''.SDATA.foo.c'' = Some 10" by code_simp
  have "\<exists>m1. log_msg_update_sdata_slow demo_registry
      (demo_message\<lparr>mc_sdata := [12, 13], mc_alloc_sdata := 8\<rparr>) 14 ''.SDATA.foo.c'' = Some m1 \<and>
    mc_sdata m1 = [12] @ [14, 13]"
    by (rule sdata_block_split [OF _ _ _ _ _ dot names(2)]) (simp_all add: demo_message_def eval_nat_numeral)
  then show ?thesis using names by auto
qed

lemma update_sdata_num_matches:
  "log_msg_update_sdata reg m h name = Some m1 \<Longrightarrow> mc_num_matches m1 = mc_num_matches m"
  by (auto simp: log_msg_update_sdata_def log_msg_update_sdata_slow_def set_flag_def Let_def split: bind_splits if_splits)

lemma set_value_num_matches:
  assumes "log_msg_set_value reg m h v = Some m1"
  shows "mc_num_matches m1 = mc_num_matches m"
proof (cases "h = LM_V_NONE")
  case False
  then obtain name n payload new m3 where
      "(if new then log_msg_update_sdata reg (own_payload m n\<lparr>mc_payload := payload\<rparr>) h name
        else Some (own_payload m n\<lparr>mc_payload := payload\<rparr>)) = Some m3"
      "m1 = (if h = LM_V_PROGRAM \<or> h = LM_V_PID then unset_flag m3 LF_LEGACY_MSGHDR else m3)"
    using assms unfolding log_msg_set_value_def Let_def by (simp split: bind_splits prod.splits)
  then show ?thesis
    using update_sdata_num_matches by (auto simp: own_payload_def set_flag_def unset_flag_def split: if_splits)
qed (use assms in \<open>simp add: log_msg_set_value_def\<close>)

text \<open>
  Match 255 is forgotten.  The number of matches is kept in 8 bits: setting the last
  match resets it to zero, so clearing the matches afterwards clears none of them.
\<close>
theorem match_255_not_cleared:
  assumes "reg_ok reg" and "msg_ok reg m" and "known_handle reg (match_handles 255)"
  shows "\<exists>m1. log_msg_set_match reg match_handles m 255 v = Some m1 \<and> mc_num_matches m1 = 0 \<and>
    log_msg_clear_matches reg match_handles m1 = Some m1"
proof -
  define m0 where "m0 = (if 255 \<ge> unat (mc_num_matches m) then m\<lparr>mc_num_matches := of_nat (255 + 1)\<rparr> else m)"
  have le: "unat (mc_num_matches m) \<le> 255" using unsigned_less [of "mc_num_matches m", where ?'a = nat] by simp
  have m0: "mc_num_matches m0 = 0" "msg_ok reg m0" using le assms(2) by (simp_all add: m0_def msg_ok_def sdata_ok_def)
  obtain m1 where m1: "log_msg_set_value reg m0 (match_handles 255) v = Some m1"
    using set_value_spec [OF assms(1) m0(2) assms(3), of v] by blast
  have n: "mc_num_matches m1 = 0" using set_value_num_matches [OF m1] m0(1) by simp
  have "log_msg_set_match reg match_handles m 255 v = Some m1"
    using m1 by (simp add: log_msg_set_match_def m0_def Let_def)
  moreover have "log_msg_clear_matches reg match_handles m1 = Some m1"
    using n by (cases m1) (simp add: log_msg_clear_matches_def)
  ultimately show ?thesis using n by blast
qed

theorem match_255_not_cleared_witness:
  "\<exists>m1. log_msg_set_match demo_registry (\<lambda>i. 10) demo_message 255 ''last'' = Some m1 \<and> mc_num_matches m1 = 0 \<and>
    log_msg_clear_matches demo_registry (\<lambda>i. 10) m1 = Some m1"
  by (rule match_255_not_cleared [OF demo_registry_ok demo_message_ok])
    (use demo_handles [of 10] in \<open>simp add: known_handle_def\<close>)

end
