(* ===== verification/Msg_Tags.thy ===== *)
theory Msg_Tags
  imports Prelude
begin

text \<open>
  Tags: the registry of tag names (\<^verbatim>\<open>lib/tags.c\<close>) and the bit array of tags of a log
  message (\<^verbatim>\<open>lib/logmsg.c\<close>).  Tags below 64 are kept in the message itself until a larger
  one is set.
\<close>

subsection \<open>The registry of tags\<close>

text \<open>
  The list holds the names and counters of the tags in the order of their
  identifiers; the table maps names to identifiers.
\<close>

record log_tag =
  lt_name :: string
  lt_counter :: int

record tag_registry =
  tr_list :: "log_tag list"
  tr_hash :: "string \<Rightarrow> nat option"

definition LOG_TAGS_MAX :: nat where "LOG_TAGS_MAX = 16384"

definition log_tags_init :: tag_registry where
  "log_tags_init = \<lparr>tr_list = [], tr_hash = [''an empty tag'' \<mapsto> 0]\<rparr>"

definition log_tags_get_by_name :: "tag_registry \<Rightarrow> string \<Rightarrow> nat \<times> tag_registry" where
  "log_tags_get_by_name reg name =
     (case tr_hash reg name of
        Some tag \<Rightarrow> (tag, reg)
      | None \<Rightarrow>
          if length (tr_list reg) < LOG_TAGS_MAX - 1 then
            let tag = length (tr_list reg)
            in (tag, reg\<lparr>tr_list := tr_list reg @ [\<lparr>lt_name = name, lt_counter = 0\<rparr>],
                        tr_hash := (tr_hash reg)(name \<mapsto> tag)\<rparr>)
          else (0, reg))"

definition log_tags_get_by_id :: "tag_registry \<Rightarrow> nat \<Rightarrow> string option" where
  "log_tags_get_by_id reg tag = (if tag < length (tr_list reg) then Some (lt_name (tr_list reg ! tag)) else None)"

definition log_tags_inc_counter :: "tag_registry \<Rightarrow> nat \<Rightarrow> tag_registry" where
  "log_tags_inc_counter reg tag =
     (if tag < length (tr_list reg)
      then reg\<lparr>tr_list := (tr_list reg)[tag := (tr_list reg ! tag)\<lparr>lt_counter := lt_counter (tr_list reg ! tag) + 1\<rparr>]\<rparr>
      else reg)"

definition log_tags_dec_counter :: "tag_registry \<Rightarrow> nat \<Rightarrow> tag_registry" where
  "log_tags_dec_counter reg tag =
     (if tag < length (tr_list reg)
      then reg\<lparr>tr_list := (tr_list reg)[tag := (tr_list reg ! tag)\<lparr>lt_counter := lt_counter (tr_list reg ! tag) - 1\<rparr>]\<rparr>
      else reg)"

subsection \<open>The tags of a message\<close>

text \<open>
  \<^verbatim>\<open>num_tags\<close> is zero as long as the tags are stored inline; then \<open>mt_tags\<close> is the one word that
  takes the place of the pointer.
\<close>

record msg_tags =
  mt_tags :: "u64 list"
  mt_num_tags :: u8
  mt_own_tags :: bool

definition log_msg_set_bit :: "u64 list \<Rightarrow> nat \<Rightarrow> bool \<Rightarrow> u64 list" where
  "log_msg_set_bit tags index value =
     (if value then tags[index div 64 := (tags ! (index div 64)) OR push_bit (index mod 64) 1]
      else tags[index div 64 := (tags ! (index div 64)) AND NOT (push_bit (index mod 64) 1)])"

definition log_msg_get_bit :: "u64 list \<Rightarrow> nat \<Rightarrow> bool" where
  "log_msg_get_bit tags index \<longleftrightarrow> (tags ! (index div 64)) AND push_bit (index mod 64) 1 \<noteq> 0"

definition log_msg_set_tag_by_id_onoff ::
    "tag_registry \<Rightarrow> msg_tags \<Rightarrow> nat \<Rightarrow> bool \<Rightarrow> msg_tags \<times> tag_registry" where
  "log_msg_set_tag_by_id_onoff reg self tag on =
     (let self = self\<lparr>mt_own_tags := True\<rparr>; num_tags = unat (mt_num_tags self); inline_tags = (num_tags = 0);
          counted = (if on then log_tags_inc_counter reg tag else log_tags_dec_counter reg tag)
      in if inline_tags \<and> tag < 64 then (self\<lparr>mt_tags := log_msg_set_bit (mt_tags self) tag on\<rparr>, counted)
         else if num_tags * 64 \<le> tag then
           if 8159 < tag then (self, reg)
           else
             let num = tag div 64 + 1;
                 tags = (if inline_tags then mt_tags self @ replicate (num - 1) 0
                         else mt_tags self @ replicate (num - num_tags) 0)
             in (self\<lparr>mt_num_tags := of_nat num, mt_tags := log_msg_set_bit tags tag on\<rparr>, counted)
         else (self\<lparr>mt_tags := log_msg_set_bit (mt_tags self) tag on\<rparr>, counted))"

definition log_msg_set_tag_by_id :: "tag_registry \<Rightarrow> msg_tags \<Rightarrow> nat \<Rightarrow> msg_tags \<times> tag_registry" where
  "log_msg_set_tag_by_id reg self tag = log_msg_set_tag_by_id_onoff reg self tag True"

definition log_msg_clear_tag_by_id :: "tag_registry \<Rightarrow> msg_tags \<Rightarrow> nat \<Rightarrow> msg_tags \<times> tag_registry" where
  "log_msg_clear_tag_by_id reg self tag = log_msg_set_tag_by_id_onoff reg self tag False"

definition log_msg_set_tag_by_name :: "tag_registry \<Rightarrow> msg_tags \<Rightarrow> string \<Rightarrow> msg_tags \<times> tag_registry" where
  "log_msg_set_tag_by_name reg self name =
     (let (tag, reg) = log_tags_get_by_name reg name in log_msg_set_tag_by_id_onoff reg self tag True)"

definition log_msg_clear_tag_by_name :: "tag_registry \<Rightarrow> msg_tags \<Rightarrow> string \<Rightarrow> msg_tags \<times> tag_registry" where
  "log_msg_clear_tag_by_name reg self name =
     (let (tag, reg) = log_tags_get_by_name reg name in log_msg_set_tag_by_id_onoff reg self tag False)"

definition log_msg_is_tag_by_id :: "msg_tags \<Rightarrow> nat \<Rightarrow> bool" where
  "log_msg_is_tag_by_id self tag =
     (if 8159 < tag then False
      else if mt_num_tags self = 0 \<and> tag < 64 then log_msg_get_bit (mt_tags self) tag
      else if tag < unat (mt_num_tags self) * 64 then log_msg_get_bit (mt_tags self) tag
      else False)"

definition log_msg_is_tag_by_name :: "tag_registry \<Rightarrow> msg_tags \<Rightarrow> string \<Rightarrow> bool \<times> tag_registry" where
  "log_msg_is_tag_by_name reg self name =
     (let (tag, reg) = log_tags_get_by_name reg name in (log_msg_is_tag_by_id self tag, reg))"

subsection \<open>Visiting and printing the tags\<close>

text \<open>The visited tags, in order: a word is shifted right until it is zero.\<close>

fun log_msg_tags_foreach_item :: "nat \<Rightarrow> u64 \<Rightarrow> nat \<Rightarrow> nat list" where
  "log_msg_tags_foreach_item base item 0 = []"
| "log_msg_tags_foreach_item base item (Suc n) =
     (if item = 0 then []
      else (if item AND 1 \<noteq> 0 then [base] else []) @ log_msg_tags_foreach_item (base + 1) (drop_bit 1 item) n)"

definition log_msg_tags_foreach :: "msg_tags \<Rightarrow> nat list" where
  "log_msg_tags_foreach self =
     (if mt_num_tags self = 0 then log_msg_tags_foreach_item 0 (mt_tags self ! 0) 64
      else concat (map (\<lambda>i. log_msg_tags_foreach_item (i * 64) (mt_tags self ! i) 64) [0..<unat (mt_num_tags self)]))"

text \<open>A tag without a name would be a NULL passed to \<^verbatim>\<open>g_string_append()\<close>, which ignores it.\<close>

definition log_msg_append_tags_callback :: "tag_registry \<Rightarrow> nat \<Rightarrow> string \<Rightarrow> nat \<Rightarrow> string" where
  "log_msg_append_tags_callback reg original_length result tag =
     (if length result > original_length then result @ '','' else result) @
     (case log_tags_get_by_id reg tag of Some name \<Rightarrow> name | None \<Rightarrow> '''')"

definition log_msg_print_tags :: "tag_registry \<Rightarrow> msg_tags \<Rightarrow> string \<Rightarrow> string" where
  "log_msg_print_tags reg self result =
     foldl (log_msg_append_tags_callback reg (length result)) result (log_msg_tags_foreach self)"

subsection \<open>Bits\<close>

lemma get_bit_iff: "log_msg_get_bit tags i \<longleftrightarrow> bit (tags ! (i div 64)) (i mod 64)"
  by (simp add: log_msg_get_bit_def push_bit_eq_mult and_exp_eq_0_iff_not_bit)

lemma bit_one_word: "n < 64 \<Longrightarrow> bit (2 ^ n :: u64) k \<longleftrightarrow> k = n"
  by (auto simp: bit_exp_iff)

lemma length_set_bit [simp]: "length (log_msg_set_bit tags i on) = length tags"
  by (simp add: log_msg_set_bit_def)

lemma div_mod_64_eq: "i div 64 = j div 64 \<Longrightarrow> i mod 64 = j mod 64 \<Longrightarrow> i = (j :: nat)"
  by (metis div_mult_mod_eq)

lemma get_set_bit:
  assumes "i div 64 < length tags"
  shows "log_msg_get_bit (log_msg_set_bit tags i on) j = (if j = i then on else log_msg_get_bit tags j)"
proof (cases "j div 64 = i div 64")
  case True
  have n: "i mod 64 < 64" "j mod 64 < 64" by simp_all
  have "j = i \<longleftrightarrow> j mod 64 = i mod 64" using True div_mod_64_eq by blast
  then show ?thesis using assms True n
    by (simp add: get_bit_iff log_msg_set_bit_def bit_or_iff bit_and_iff bit_not_iff bit_one_word)
next
  case False
  then show ?thesis by (auto simp: get_bit_iff log_msg_set_bit_def)
qed

lemma get_bit_append:
  assumes "length tags * 64 \<le> i" and "i < (length tags + n) * 64"
  shows "\<not> log_msg_get_bit (tags @ replicate n 0) i"
proof -
  have "length tags \<le> i div 64" using assms(1) by (simp add: less_eq_div_iff_mult_less_eq)
  moreover have "i div 64 < length tags + n" using assms(2) by (simp add: div_less_iff_less_mult)
  ultimately show ?thesis by (simp add: get_bit_iff nth_append)
qed

lemma get_bit_append_old: "i < length tags * 64 \<Longrightarrow> log_msg_get_bit (tags @ xs) i = log_msg_get_bit tags i"
  by (simp add: get_bit_iff nth_append div_less_iff_less_mult)

subsection \<open>Well-formed tags\<close>

definition tags_ok :: "msg_tags \<Rightarrow> bool" where
  "tags_ok m \<longleftrightarrow> length (mt_tags m) = max 1 (unat (mt_num_tags m)) \<and> unat (mt_num_tags m) \<le> 128"

text \<open>The tags that are set in the array, whatever the limit on identifiers says.\<close>

definition stored_tag :: "msg_tags \<Rightarrow> nat \<Rightarrow> bool" where
  "stored_tag m tag \<longleftrightarrow> tag < length (mt_tags m) * 64 \<and> log_msg_get_bit (mt_tags m) tag"

lemma is_tag_stored:
  assumes "tags_ok m"
  shows "log_msg_is_tag_by_id m tag \<longleftrightarrow> tag \<le> 8159 \<and> stored_tag m tag"
proof (cases "mt_num_tags m = 0")
  case True
  then show ?thesis using assms by (auto simp: log_msg_is_tag_by_id_def stored_tag_def tags_ok_def)
next
  case False
  then have "0 < unat (mt_num_tags m)" by (simp add: unat_gt_0)
  then show ?thesis using assms False by (auto simp: log_msg_is_tag_by_id_def stored_tag_def tags_ok_def max_def)
qed

lemma of_nat_num: "n \<le> 128 \<Longrightarrow> unat (of_nat n :: u8) = n"
  by (simp add: unsigned_of_nat take_bit_nat_eq_self)

lemma set_tag_stored:
  assumes "tags_ok m" and "tag \<le> 8159 \<or> tag < unat (mt_num_tags m) * 64"
  shows "tags_ok (fst (log_msg_set_tag_by_id_onoff reg m tag on))"
    "stored_tag (fst (log_msg_set_tag_by_id_onoff reg m tag on)) t = (if t = tag then on else stored_tag m t)"
proof -
  define n where "n = unat (mt_num_tags m)"
  have len: "length (mt_tags m) = max 1 n" "n \<le> 128" using assms(1) by (simp_all add: tags_ok_def n_def)
  have goal: "tags_ok (fst (log_msg_set_tag_by_id_onoff reg m tag on)) \<and>
      stored_tag (fst (log_msg_set_tag_by_id_onoff reg m tag on)) t = (if t = tag then on else stored_tag m t)"
  proof (cases "tag < length (mt_tags m) * 64")
    case True
    then have "tag div 64 < length (mt_tags m)" by (simp add: div_less_iff_less_mult)
    note gs = get_set_bit [OF this, of on]
    have e: "fst (log_msg_set_tag_by_id_onoff reg m tag on) =
        m\<lparr>mt_own_tags := True, mt_tags := log_msg_set_bit (mt_tags m) tag on\<rparr>"
      using True len by (cases "n = 0") (auto simp: log_msg_set_tag_by_id_onoff_def Let_def n_def [symmetric] max_def)
    show ?thesis using assms(1) True by (auto simp: e tags_ok_def stored_tag_def gs)
  next
    case False
    define num where "num = tag div 64 + 1"
    define tags where "tags = mt_tags m @ replicate (num - max 1 n) 0"
    have le: "tag \<le> 8159" using assms(2) False len by (auto simp: n_def max_def split: if_splits)
    have "max 1 n * 64 \<le> tag" using False len(1) by simp
    then have "max 1 n \<le> tag div 64" by (simp add: less_eq_div_iff_mult_less_eq del: max.bounded_iff)
    then have num: "num \<le> 128" "max 1 n < num" using le by (simp_all add: num_def)
    have lt: "length tags = num" using num len(1) by (simp add: tags_def)
    have u: "unat (of_nat num :: u8) = num" by (rule of_nat_num [OF num(1)])
    have nz: "num \<noteq> 0" by (simp add: num_def)
    have e: "fst (log_msg_set_tag_by_id_onoff reg m tag on) =
        m\<lparr>mt_own_tags := True, mt_num_tags := of_nat num, mt_tags := log_msg_set_bit tags tag on\<rparr>"
      using False len le by (cases "n = 0")
        (auto simp: log_msg_set_tag_by_id_onoff_def Let_def n_def [symmetric] num_def tags_def max_def)
    have gs: "log_msg_get_bit (log_msg_set_bit tags tag on) t = (if t = tag then on else log_msg_get_bit tags t)"
      by (rule get_set_bit) (simp add: lt num_def)
    have old: "t < num * 64 \<Longrightarrow> log_msg_get_bit tags t \<longleftrightarrow> stored_tag m t"
      using get_bit_append [of "mt_tags m" t "num - max 1 n"] get_bit_append_old [of t "mt_tags m"] len(1) num
      by (cases "t < length (mt_tags m) * 64") (auto simp: tags_def stored_tag_def)
    have "tag < num * 64" by (simp add: num_def)
    moreover have "\<not> stored_tag m t" if "\<not> t < num * 64"
    proof -
      have "length (mt_tags m) * 64 \<le> num * 64" using len(1) num(2) by simp
      then show ?thesis using that by (simp add: stored_tag_def)
    qed
    ultimately show ?thesis using old gs num u nz lt by (auto simp: e tags_ok_def stored_tag_def)
  qed
  then show "tags_ok (fst (log_msg_set_tag_by_id_onoff reg m tag on))"
    "stored_tag (fst (log_msg_set_tag_by_id_onoff reg m tag on)) t = (if t = tag then on else stored_tag m t)"
    by simp_all
qed

subsection \<open>Visiting the tags\<close>

lemma foreach_item_set:
  "set (log_msg_tags_foreach_item base item n) = (\<lambda>i. base + i) ` {i. i < n \<and> bit item i}"
proof (induction n arbitrary: base item)
  case (Suc n)
  show ?case
  proof (cases "item = 0")
    case False
    have "{i. i < Suc n \<and> bit item i} = (if bit item 0 then {0} else {}) \<union> Suc ` {i. i < n \<and> bit (drop_bit 1 item) i}"
      by (auto simp: bit_drop_bit_eq less_Suc_eq_0_disj)
    then show ?thesis using False Suc.IH [of "base + 1" "drop_bit 1 item"]
      by (simp add: image_Un image_image bit_0 and_one_eq odd_iff_mod_2_eq_one)
  qed simp
qed simp

lemma foreach_item_sorted: "sorted_wrt (<) (log_msg_tags_foreach_item base item n)"
proof (induction n arbitrary: base item)
  case (Suc n)
  have "base < x" if "x \<in> set (log_msg_tags_foreach_item (base + 1) (drop_bit 1 item) n)" for x
    using that by (auto simp: foreach_item_set)
  then show ?case using Suc.IH by (simp add: sorted_wrt_append)
qed simp

lemma foreach_item_range: "x \<in> set (log_msg_tags_foreach_item base item n) \<Longrightarrow> base \<le> x \<and> x < base + n"
  by (auto simp: foreach_item_set)

lemma foreach_words:
  assumes "n \<le> length tags"
  shows "set (concat (map (\<lambda>i. log_msg_tags_foreach_item (i * 64) (tags ! i) 64) [0..<n])) =
      {t. t < n * 64 \<and> log_msg_get_bit tags t} \<and>
    sorted_wrt (<) (concat (map (\<lambda>i. log_msg_tags_foreach_item (i * 64) (tags ! i) 64) [0..<n]))"
  using assms
proof (induction n)
  case (Suc n)
  have last: "set (log_msg_tags_foreach_item (n * 64) (tags ! n) 64) = {t. n * 64 \<le> t \<and> t < Suc n * 64 \<and> log_msg_get_bit tags t}"
  proof -
    have "(\<exists>i. i < 64 \<and> bit (tags ! n) i \<and> t = n * 64 + i) \<longleftrightarrow> n * 64 \<le> t \<and> t < Suc n * 64 \<and> log_msg_get_bit tags t" for t
    proof
      assume "\<exists>i. i < 64 \<and> bit (tags ! n) i \<and> t = n * 64 + i"
      then obtain i where "i < 64" "bit (tags ! n) i" "t = n * 64 + i" by blast
      then show "n * 64 \<le> t \<and> t < Suc n * 64 \<and> log_msg_get_bit tags t" by (simp add: get_bit_iff)
    next
      assume t: "n * 64 \<le> t \<and> t < Suc n * 64 \<and> log_msg_get_bit tags t"
      then have d: "t div 64 = n" by (simp add: div_nat_eqI mult.commute)
      then have "t = n * 64 + t mod 64" by (metis div_mult_mod_eq)
      then show "\<exists>i. i < 64 \<and> bit (tags ! n) i \<and> t = n * 64 + i"
        using t d by (intro exI [of _ "t mod 64"]) (simp add: get_bit_iff)
    qed
    then show ?thesis by (auto simp: foreach_item_set)
  qed
  have IH: "set (concat (map (\<lambda>i. log_msg_tags_foreach_item (i * 64) (tags ! i) 64) [0..<n])) =
      {t. t < n * 64 \<and> log_msg_get_bit tags t}"
    "sorted_wrt (<) (concat (map (\<lambda>i. log_msg_tags_foreach_item (i * 64) (tags ! i) 64) [0..<n]))"
    using Suc by simp_all
  have "{t. t < n * 64 \<and> log_msg_get_bit tags t} \<union> {t. n * 64 \<le> t \<and> t < Suc n * 64 \<and> log_msg_get_bit tags t} =
      {t. t < Suc n * 64 \<and> log_msg_get_bit tags t}"
    by auto
  then show ?case
    using IH last foreach_item_sorted [of "n * 64" "tags ! n" 64]
    by (simp add: sorted_wrt_append del: set_concat mult_Suc)
qed simp

lemma foreach_stored:
  assumes "tags_ok m"
  shows "set (log_msg_tags_foreach m) = {t. stored_tag m t}" "sorted_wrt (<) (log_msg_tags_foreach m)"
proof -
  have "log_msg_tags_foreach m =
      concat (map (\<lambda>i. log_msg_tags_foreach_item (i * 64) (mt_tags m ! i) 64) [0..<length (mt_tags m)])"
  proof (cases "mt_num_tags m = 0")
    case True
    then show ?thesis using assms by (simp add: log_msg_tags_foreach_def tags_ok_def)
  next
    case False
    then have "0 < unat (mt_num_tags m)" by (simp add: unat_gt_0)
    then show ?thesis using assms False by (simp add: log_msg_tags_foreach_def tags_ok_def max_def)
  qed
  then show "set (log_msg_tags_foreach m) = {t. stored_tag m t}" "sorted_wrt (<) (log_msg_tags_foreach m)"
    using foreach_words [of "length (mt_tags m)" "mt_tags m"] by (simp_all add: stored_tag_def)
qed

text \<open>
  C20: The tags of a message are a set.  Setting or clearing a tag up to 8159 changes the membership of that tag
  only, whether the tags are kept inline, in an array, or have to be moved to a larger one; a
  visit of the tags lists the members that are set in increasing order, each once.
\<close>
theorem message_tags_are_a_set:
  assumes "tags_ok m" and "tag \<le> 8159"
  shows "tags_ok (fst (log_msg_set_tag_by_id_onoff reg m tag on)) \<and>
    (\<forall>t. log_msg_is_tag_by_id (fst (log_msg_set_tag_by_id_onoff reg m tag on)) t =
      (if t = tag then on else log_msg_is_tag_by_id m t)) \<and>
    sorted_wrt (<) (log_msg_tags_foreach m) \<and>
    {t \<in> set (log_msg_tags_foreach m). t \<le> 8159} = {t. log_msg_is_tag_by_id m t}"
proof -
  have pre: "tag \<le> 8159 \<or> tag < unat (mt_num_tags m) * 64" using assms(2) by simp
  note s = set_tag_stored [OF assms(1) pre]
  show ?thesis
    using s is_tag_stored [OF assms(1)] is_tag_stored [OF s(1)] foreach_stored [OF assms(1)] assms(2) by auto
qed

definition demo_tags :: msg_tags where
  "demo_tags = \<lparr>mt_tags = [5], mt_num_tags = 0, mt_own_tags = False\<rparr>"

theorem message_tags_are_a_set_witness:
  "tags_ok (fst (log_msg_set_tag_by_id_onoff log_tags_init demo_tags 70 True)) \<and>
    (\<forall>t. log_msg_is_tag_by_id (fst (log_msg_set_tag_by_id_onoff log_tags_init demo_tags 70 True)) t =
      (if t = 70 then True else log_msg_is_tag_by_id demo_tags t)) \<and>
    sorted_wrt (<) (log_msg_tags_foreach demo_tags) \<and>
    {t \<in> set (log_msg_tags_foreach demo_tags). t \<le> 8159} = {t. log_msg_is_tag_by_id demo_tags t}"
  by (rule message_tags_are_a_set) (simp_all add: tags_ok_def demo_tags_def)

text \<open>
  Tags from 8160 on: a message that has room for them accepts them, prints them,
  and denies having them.
\<close>

theorem high_tags_denied:
  assumes "tags_ok m" and "mt_num_tags m = 128" and "8160 \<le> tag" and "tag < 8192"
  shows "tag \<in> set (log_msg_tags_foreach (fst (log_msg_set_tag_by_id reg m tag))) \<and>
    \<not> log_msg_is_tag_by_id (fst (log_msg_set_tag_by_id reg m tag)) tag"
proof -
  have "tag \<le> 8159 \<or> tag < unat (mt_num_tags m) * 64" using assms(2,4) by simp
  note s = set_tag_stored [OF assms(1) this]
  show ?thesis
    using s [of reg True] foreach_stored(1) [OF s(1)] is_tag_stored [OF s(1)] assms(3) by (simp add: log_msg_set_tag_by_id_def)
qed

subsection \<open>The registry\<close>

text \<open>When the registry is full, a new name gets the identifier of the first tag.\<close>

theorem full_registry_aliases_first_tag:
  assumes "tr_hash reg name = None" and "length (tr_list reg) = LOG_TAGS_MAX - 1" and "lt_name (tr_list reg ! 0) = first"
  shows "log_tags_get_by_name reg name = (0, reg) \<and> log_tags_get_by_id reg 0 = Some first \<and>
    log_msg_set_tag_by_name reg m name = log_msg_set_tag_by_id reg m 0"
  using assms by (simp add: log_tags_get_by_name_def log_tags_get_by_id_def log_msg_set_tag_by_name_def
      log_msg_set_tag_by_id_def LOG_TAGS_MAX_def)

lemma new_tag_roundtrip:
  assumes "tr_hash reg name = None" and "length (tr_list reg) < LOG_TAGS_MAX - 1" and "log_tags_get_by_name reg name = (tag, reg1)"
  shows "log_tags_get_by_id reg1 tag = Some name" "fst (log_tags_get_by_name reg1 name) = tag"
  using assms by (auto simp: log_tags_get_by_name_def log_tags_get_by_id_def Let_def)

end
