(* ===== verification/Spec2Isabelle.thy ===== *)
theory Spec2Isabelle
  imports Str_Format Ring_Buffer Log_Source Ack_Tracker Log_Queue_Order Timer_Wheel Msg_Clone Rcptid Serialize Msg_Value Msg_Tags
begin

text \<open>
  A verification development for the core of syslog-ng.

  \<^bold>\<open>The program.\<close>  syslog-ng moves log messages from sources to destinations.  A source
  reads a message, parses it into a reference counted \<open>LogMessage\<close> and posts it; every destination
  queues it and acknowledges it when it has been sent.  A source may have a bounded number of
  messages in flight (its window); its acknowledgement tracker saves the position of the newest
  message before which everything has been acknowledged, so that nothing is lost when the process
  is restarted.  A message holds its values in a compact table under integer handles, which a global
  registry assigns to names.

  \<^bold>\<open>Conventions\<close> (theory \<open>Prelude\<close>).  A C function becomes a HOL function of the same
  name that takes and returns the state it changes.  \<open>None\<close> is an abort of the process (a failed
  \<^verbatim>\<open>g_assert\<close>, a NULL dereference, an access out of range); a pointer that may be NULL is an inner
  option.  Fixed width integers are words wherever their width matters.  Functions that take a lock
  are single atomic steps; the order of the steps of different threads is arbitrary.

  \<^bold>\<open>Theories.\<close>

  \<^descr>[Ring buffer] \<open>Ring_Buffer\<close> models lib/ringbuffer.c: pointers are byte offsets into the
    allocation.  It implements a bounded FIFO; two elements never overlap.
  \<^descr>[Flow control] \<open>Log_Source\<close> models the window, the suspension and the adaptive sleep of
    lib/logsource.c.
  \<^descr>[Acknowledgements] \<open>Ack_Tracker\<close> models lib/late_ack_tracker.c and lib/early_ack_tracker.c on top
    of the two.  Only bookmarks of completely acknowledged prefixes are saved; the window is
    accounted for and never exceeds its initial size; receiving never aborts while the window is open.
  \<^descr>[Destination queue] \<open>Log_Queue\<close> models lib/logqueue.c and lib/logqueue-fifo.c with a log of the
    calls made on messages, and shows that references and acknowledgements balance;
    \<open>Log_Queue_Order\<close> shows the order of messages, the limit of the queue, rewinding and the throttle.
  \<^descr>[Timer wheel] \<open>Timer_Wheel\<close> models modules/dbparser/timerwheel.c; as long as no timer is set
    at the end of a level it refines a queue of timers ordered by time.
  \<^descr>[Messages] \<open>Msg_Ack\<close> models the counters, the per-thread cache, clones and queue nodes of
    lib/logmsg.c over a store of messages.  \<open>Msg_Life\<close> shows that they implement an abstract count of
    references and acknowledgements under every interleaving, \<open>Msg_Clone\<close> what a clone gives back and
    that embedded queue nodes stay in bounds.  \<open>Rcptid\<close> models the receipt identifiers.
  \<^descr>[Message values] \<open>Nv_Table\<close> models lib/nvtable.c.  \<open>Nv_Lookup\<close>, \<open>Nv_Store\<close>, \<open>Nv_Values\<close>,
    \<open>Nv_Detach\<close> and \<open>Nv_Payload\<close> show that a payload stays well-formed and implements a finite map, with
    references between values; \<open>Nv_Properties\<close> holds the properties.  \<open>Nv_Registry\<close> models the registry
    of names, \<open>Msg_Value\<close> the values, matches and structured data of a message, \<open>Msg_Tags\<close> its tags
    and the registry of tags (lib/tags.c).
  \<^descr>[Archives] \<open>Serialize\<close> models lib/serialize.c; what is written is read back, and truncated input
    is detected.
  \<^descr>[Numbers and dates] \<open>Str_Format\<close> models lib/str-format.c: formatting numbers, scanning numbers and
    the four date formats.

  \<^bold>\<open>Interfaces.\<close>  \<open>queue_accounting\<close> (which calls of a queue change a balance), \<open>bounded_window\<close>
  (what flow control relies on), \<open>simulation\<close> (an operation by operation refinement), \<open>byte_reader\<close> and
  \<open>byte_writer\<close> (what the encodings need of an archive) and \<open>growing_store\<close> (what the loop that grows a
  payload needs of an attempt) are locales; each is interpreted on the definitions of the model.

  \<^bold>\<open>Bounds and loops.\<close>  Loops are total functions with a termination proof, with three exceptions:
  \<open>log_msg_unref\<close> and \<open>log_msg_ack\<close> follow the chain of originals of a clone, and \<open>nv_store_loop\<close> grows a
  payload until a value fits; these are partial functions, and that they return is proved.  The depth of
  \<open>nv_add_value_depth\<close> is 2, because making a reference direct never makes another one direct.
  Sizes of payloads are natural numbers, as they are limited to 256 MB.

  \<^bold>\<open>Not modelled.\<close>  The configuration language (its grammars are generated code), the main loop
  and its worker threads (glue around the event library), transports, sockets, TLS and process
  management (system calls), the drivers and their client libraries, the persist file, the control
  socket, templates, filters, and the pattern database apart from its timer wheel.  Locks are not
  modelled; where code updates shared data without a lock, the interleaving is explicit.
\<close>

end
